(* ===== verification/Prelude.thy ===== *)
theory Prelude
  imports Main "HOL-Library.Word" "HOL-Library.Signed_Division"
begin

text \<open>
  Shared vocabulary of the development: the machine types the Go code uses (bytes, 32-bit and
  64-bit words, byte strings), big-endian and little-endian packing of 32-bit words, the cutting of
  a byte string into blocks, and the named collections the component theories extend
  (\<open>byte_simps\<close> for lengths and packing, \<open>kernel_simps\<close> for the kernel records,
  \<open>gate_simps\<close> for the admission gate).
\<close>

unbundle bit_operations_syntax

named_theorems byte_simps "lengths and packing of byte strings"
named_theorems kernel_simps "definitions and facts of the hash kernels"
named_theorems gate_simps "definitions and facts of the admission gate"

type_synonym byte = "8 word"
type_synonym bytes = "8 word list"
type_synonym u16 = "16 word"
type_synonym u32 = "32 word"
type_synonym u64 = "64 word"

section \<open>Strings and bytes\<close>

text \<open>A Go string is a sequence of bytes; a HOL \<open>char\<close> is one byte.\<close>

definition bytes_of :: "string \<Rightarrow> bytes" where
  "bytes_of s = map of_char s"

definition str_of :: "bytes \<Rightarrow> string" where
  "str_of bs = map (\<lambda>b. char_of (unat b)) bs"

lemma length_bytes_of [simp, byte_simps]: "length (bytes_of s) = length s"
  by (simp add: bytes_of_def)

lemma length_str_of [simp, byte_simps]: "length (str_of bs) = length bs"
  by (simp add: str_of_def)

lemma bytes_of_Nil [simp]: "bytes_of [] = []"
  by (simp add: bytes_of_def)

lemma unat_of_char: "unat (of_char c :: byte) = of_char c"
proof -
  have "(of_char c :: byte) = word_of_nat (of_char c)"
    by (simp add: of_nat_of_char)
  then show ?thesis
    by (simp add: unat_of_nat take_bit_nat_eq_self_iff)
qed

lemma of_char_char_of_unat: "of_char (char_of (unat (b::byte))) = b"
proof -
  have "unat (of_char (char_of (unat b)) :: byte) = of_char (char_of (unat b))"
    by (rule unat_of_char)
  also have "\<dots> = unat b mod 256"
    by (simp add: of_char_of)
  also have "\<dots> = unat b"
  proof -
    have "unat b < 2 ^ LENGTH(8)" by (rule unsigned_less)
    then show ?thesis by simp
  qed
  finally show ?thesis
    by (simp add: word_unat_eq_iff)
qed

lemma bytes_of_str_of [simp]: "bytes_of (str_of bs) = bs"
  by (simp add: bytes_of_def str_of_def map_idI of_char_char_of_unat comp_def)

lemma str_of_bytes_of [simp]: "str_of (bytes_of s) = s"
  by (simp add: bytes_of_def str_of_def map_idI unat_of_char comp_def)

section \<open>Packing words into bytes\<close>

text \<open>\<open>binary.BigEndian\<close> and \<open>binary.LittleEndian\<close> on one 32-bit word, and the shift-and-truncate
  stores the kernels write by hand.\<close>

definition be32 :: "u32 \<Rightarrow> bytes" where
  "be32 v = [ucast (drop_bit 24 v), ucast (drop_bit 16 v), ucast (drop_bit 8 v), ucast v]"

definition le32 :: "u32 \<Rightarrow> bytes" where
  "le32 v = [ucast v, ucast (drop_bit 8 v), ucast (drop_bit 16 v), ucast (drop_bit 24 v)]"

definition of_be32 :: "byte \<Rightarrow> byte \<Rightarrow> byte \<Rightarrow> byte \<Rightarrow> u32" where
  "of_be32 a b c d =
     push_bit 24 (ucast a) OR push_bit 16 (ucast b) OR push_bit 8 (ucast c) OR ucast d"

definition be64 :: "u64 \<Rightarrow> bytes" where
  "be64 v = map (\<lambda>k. ucast (drop_bit k v)) [56, 48, 40, 32, 24, 16, 8, 0]"

lemma length_be32 [simp, byte_simps]: "length (be32 v) = 4"
  by (simp add: be32_def)

lemma length_le32 [simp, byte_simps]: "length (le32 v) = 4"
  by (simp add: le32_def)

lemma length_be64 [simp, byte_simps]: "length (be64 v) = 8"
  by (simp add: be64_def)

lemma of_be32_bytes: "of_be32 (ucast (drop_bit 24 v)) (ucast (drop_bit 16 v)) (ucast (drop_bit 8 v)) (ucast v) = v"
proof (rule bit_word_eqI)
  fix n assume "n < LENGTH(32)"
  then consider "n < 8" | "8 \<le> n" "n < 16" | "16 \<le> n" "n < 24" | "24 \<le> n" "n < 32"
    by force
  then show "bit (of_be32 (ucast (drop_bit 24 v)) (ucast (drop_bit 16 v))
      (ucast (drop_bit 8 v)) (ucast v)) n = bit v n"
    by cases (auto simp: of_be32_def bit_simps)
qed

text \<open>A byte string as big-endian 32-bit words (a trailing fragment shorter than four bytes is
  dropped; the callers pass whole blocks).\<close>

fun be_words :: "bytes \<Rightarrow> u32 list" where
  "be_words (a # b # c # d # rest) = of_be32 a b c d # be_words rest"
| "be_words _ = []"

lemma length_be_words [byte_simps]: "length (be_words bs) = length bs div 4"
  by (induction bs rule: be_words.induct) auto

lemma be_words_concat_be32: "be_words (concat (map be32 ws)) = ws"
  by (induction ws) (simp_all add: be32_def of_be32_bytes)

section \<open>Blocks\<close>

text \<open>Cutting a list into consecutive pieces of \<open>Suc n\<close> elements.\<close>

function blocks :: "nat \<Rightarrow> 'a list \<Rightarrow> 'a list list" where
  "blocks n xs = (if xs = [] then [] else take (Suc n) xs # blocks n (drop (Suc n) xs))"
  by pat_completeness auto
termination
  by (relation "measure (length \<circ> snd)") auto

declare blocks.simps [simp del]

lemma blocks_Nil [simp]: "blocks n [] = []"
  by (simp add: blocks.simps)

lemma blocks_append:
  assumes "length xs = Suc n"
  shows "blocks n (xs @ ys) = xs # blocks n ys"
proof -
  from assms have "xs @ ys \<noteq> []" by auto
  with assms show ?thesis
    by (subst blocks.simps) simp
qed

lemma concat_blocks: "concat (blocks n xs) = xs"
proof (induction n xs rule: blocks.induct)
  case (1 n xs)
  show ?case
  proof (cases "xs = []")
    case False
    then have "concat (blocks n xs) = take (Suc n) xs @ concat (blocks n (drop (Suc n) xs))"
      by (subst blocks.simps) simp
    also have "concat (blocks n (drop (Suc n) xs)) = drop (Suc n) xs"
      using False by (rule "1.IH")
    finally show ?thesis by simp
  qed simp
qed

lemma blocks_length:
  "Suc n dvd length xs \<Longrightarrow> b \<in> set (blocks n xs) \<Longrightarrow> length b = Suc n"
proof (induction n xs rule: blocks.induct)
  case (1 n xs)
  show ?case
  proof (cases "xs = []")
    case True
    with "1.prems" show ?thesis by simp
  next
    case False
    with "1.prems"(1) have le: "Suc n \<le> length xs"
      by (simp add: dvd_imp_le)
    then have dvd: "Suc n dvd length (drop (Suc n) xs)"
      using "1.prems"(1) dvd_diff_nat [of "Suc n" "length xs" "Suc n"] by simp
    from "1.prems"(2) False have "b = take (Suc n) xs \<or> b \<in> set (blocks n (drop (Suc n) xs))"
      by (subst (asm) blocks.simps) simp
    with le dvd False "1.IH" show ?thesis by auto
  qed
qed

section \<open>Iteration\<close>

text \<open>A step that keeps an invariant keeps it under iteration, and two steps that agree on the
  invariant agree when iterated.\<close>

lemma funpow_invariant:
  assumes "\<And>x. P x \<Longrightarrow> P (f x)" and "P x"
  shows "P ((f ^^ n) x)"
  using assms by (induction n) auto

lemma funpow_cong_inv:
  assumes "\<And>x. P x \<Longrightarrow> f x = g x" and "\<And>x. P x \<Longrightarrow> P (g x)" and "P x"
  shows "(f ^^ n) x = (g ^^ n) x"
proof (induction n)
  case (Suc n)
  have "P ((g ^^ n) x)"
    using assms(2,3) by (rule funpow_invariant)
  with Suc assms(1) show ?case by simp
qed simp

section \<open>Sums over updated lists\<close>

lemma sum_list_update_int:
  "k < length xs \<Longrightarrow> sum_list (xs[k := x]) = sum_list xs + x - xs ! k" for xs :: "int list"
proof (induction xs arbitrary: k)
  case (Cons y ys)
  then show ?case by (cases k) auto
qed simp

lemma sum_map_update_int:
  "k < length xs \<Longrightarrow> sum_list (map f (xs[k := x])) = sum_list (map f xs) + f x - f (xs ! k)"
  for f :: "'a \<Rightarrow> int"
  by (simp add: map_update sum_list_update_int)

end
