(* ===== verification/Go_Strings.thy ===== *)
theory Go_Strings
  imports Prelude
begin

text \<open>
  The pieces of Go's \<open>strings\<close>, \<open>bytes\<close> and \<open>strconv\<close> the program uses, on byte strings:
  \<open>HasPrefix\<close>, \<open>Contains\<close>, \<open>Index\<close>, \<open>IndexByte\<close>, \<open>LastIndexByte\<close>, \<open>Split\<close>, \<open>TrimSpace\<close> (on ASCII
  text), \<open>Atoi\<close>. An index that Go reports as \<open>-1\<close> is \<open>None\<close>.
\<close>

fun has_prefix :: "string \<Rightarrow> string \<Rightarrow> bool" where
  "has_prefix _ [] = True"
| "has_prefix [] (_ # _) = False"
| "has_prefix (x # xs) (p # ps) = (x = p \<and> has_prefix xs ps)"

fun index_str :: "string \<Rightarrow> string \<Rightarrow> nat option" where
  "index_str [] pat = (if pat = [] then Some 0 else None)"
| "index_str (x # xs) pat =
     (if has_prefix (x # xs) pat then Some 0 else map_option Suc (index_str xs pat))"

definition contains :: "string \<Rightarrow> string \<Rightarrow> bool" where
  "contains s pat = (index_str s pat \<noteq> None)"

fun index_byte :: "string \<Rightarrow> char \<Rightarrow> nat option" where
  "index_byte [] _ = None"
| "index_byte (x # xs) c = (if x = c then Some 0 else map_option Suc (index_byte xs c))"

definition last_index_byte :: "string \<Rightarrow> char \<Rightarrow> nat option" where
  "last_index_byte s c = map_option (\<lambda>i. length s - 1 - i) (index_byte (rev s) c)"

text \<open>\<open>strings.Split\<close> with a one-byte separator.\<close>

fun split_byte :: "char \<Rightarrow> string \<Rightarrow> string list" where
  "split_byte c [] = [[]]"
| "split_byte c (x # xs) =
     (if x = c then [] # split_byte c xs
      else case split_byte c xs of l # ls \<Rightarrow> (x # l) # ls | [] \<Rightarrow> [[x]])"

definition is_space :: "char \<Rightarrow> bool" where
  "is_space c \<longleftrightarrow> c \<in> set [CHR '' '', CHR 0x09, CHR 0x0A, CHR 0x0B, CHR 0x0C, CHR 0x0D]"

definition trim_space :: "string \<Rightarrow> string" where
  "trim_space s = rev (dropWhile is_space (rev (dropWhile is_space s)))"

section \<open>Decimal integers\<close>

definition digit_val :: "char \<Rightarrow> nat option" where
  "digit_val c =
     (let n = (of_char c :: nat) in if 48 \<le> n \<and> n \<le> 57 then Some (n - 48) else None)"

fun digits_val :: "nat \<Rightarrow> string \<Rightarrow> nat option" where
  "digits_val acc [] = Some acc"
| "digits_val acc (c # cs) =
     (case digit_val c of None \<Rightarrow> None | Some d \<Rightarrow> digits_val (10 * acc + d) cs)"

text \<open>\<open>strconv.Atoi\<close>: an optional sign, at least one digit, and the 64-bit range; an error is
  \<open>None\<close>.\<close>

definition go_atoi :: "string \<Rightarrow> int option" where
  "go_atoi s =
     (let (neg, ds) =
        (case s of c # cs \<Rightarrow> if c = CHR ''-'' then (True, cs)
                            else if c = CHR ''+'' then (False, cs) else (False, s)
                 | [] \<Rightarrow> (False, []))
      in if ds = [] then None
         else case digits_val 0 ds of
                None \<Rightarrow> None
              | Some n \<Rightarrow> let v = (if neg then - int n else int n)
                         in if - (2 ^ 63) \<le> v \<and> v < 2 ^ 63 then Some v else None)"

section \<open>Lemmas\<close>

lemma has_prefix_iff: "has_prefix s p \<longleftrightarrow> (\<exists>r. s = p @ r)"
  by (induction s p rule: has_prefix.induct) auto

lemma index_byte_Some:
  "index_byte s c = Some i \<longleftrightarrow> i < length s \<and> s ! i = c \<and> c \<notin> set (take i s)"
proof (induction s arbitrary: i)
  case (Cons x xs)
  then show ?case by (cases i) auto
qed simp

lemma index_byte_None: "index_byte s c = None \<longleftrightarrow> c \<notin> set s"
  by (induction s) auto

lemma split_byte_nonempty [simp]: "split_byte c s \<noteq> []"
  by (induction s) (auto split: list.splits)

lemma split_byte_no_sep: "l \<in> set (split_byte c s) \<Longrightarrow> c \<notin> set l"
proof (induction s arbitrary: l)
  case (Cons x xs)
  obtain m ms where split: "split_byte c xs = m # ms"
    by (cases "split_byte c xs") auto
  with Cons show ?case by (auto split: if_splits)
qed simp

lemma split_byte_append:
  "c \<notin> set xs \<Longrightarrow> split_byte c (xs @ c # ys) = xs # split_byte c ys"
  by (induction xs) auto

lemma split_byte_line: "c \<notin> set xs \<Longrightarrow> split_byte c xs = [xs]"
  by (induction xs) auto

lemma contains_iff: "contains s pat \<longleftrightarrow> (\<exists>l r. s = l @ pat @ r)"
proof -
  have "index_str s pat \<noteq> None \<longleftrightarrow> (\<exists>l r. s = l @ pat @ r)"
  proof (induction s)
    case (Cons x xs)
    have "(\<exists>l r. x # xs = l @ pat @ r) \<longleftrightarrow>
        (\<exists>r. x # xs = pat @ r) \<or> (\<exists>l r. xs = l @ pat @ r)"
      by (metis Cons_eq_append_conv append_Cons append_Nil)
    with Cons show ?case by (auto simp: has_prefix_iff)
  qed auto
  then show ?thesis by (simp add: contains_def)
qed

lemma go_atoi_range: "go_atoi s = Some v \<Longrightarrow> - (2 ^ 63) \<le> v \<and> v < 2 ^ 63"
  by (auto simp: go_atoi_def Let_def split: prod.splits if_splits option.splits)


section \<open>Searching and slicing\<close>

text \<open>A Go slice expression \<open>xs[i:j]\<close>; \<open>None\<close> is the bounds panic.\<close>

definition go_slice :: "'a list \<Rightarrow> nat \<Rightarrow> nat \<Rightarrow> 'a list option" where
  "go_slice xs i j = (if i \<le> j \<and> j \<le> length xs then Some (take (j - i) (drop i xs)) else None)"

text \<open>\<open>copy\<close> of \<open>src\<close> into \<open>dst\<close> at an offset (the callers make sure it fits).\<close>

definition blit :: "'a list \<Rightarrow> nat \<Rightarrow> 'a list \<Rightarrow> 'a list" where
  "blit dst k src = take k dst @ src @ drop (k + length src) dst"

lemma length_blit [simp]: "k + length src \<le> length dst \<Longrightarrow> length (blit dst k src) = length dst"
  by (simp add: blit_def)

lemma blit_Nil [simp]: "blit dst k [] = dst"
  by (simp add: blit_def)

lemma take_blit: "k + length src \<le> length dst \<Longrightarrow> take (k + length src) (blit dst k src) = take k dst @ src"
  by (simp add: blit_def)

lemma has_prefix_length: "has_prefix s p \<Longrightarrow> length p \<le> length s"
  by (auto simp: has_prefix_iff)

lemma has_prefix_append: "length p \<le> length s \<Longrightarrow> has_prefix (s @ t) p = has_prefix s p"
  by (induction s p rule: has_prefix.induct) auto

lemma index_str_Some:
  "index_str s p = Some i \<longleftrightarrow>
     i \<le> length s \<and> has_prefix (drop i s) p \<and> (\<forall>j < i. \<not> has_prefix (drop j s) p)"
proof (induction s arbitrary: i)
  case Nil
  show ?case by (cases p) auto
next
  case (Cons x xs)
  show ?case
  proof (cases i)
    case (Suc k)
    show ?thesis
      using Cons.IH [of k] by (auto simp: Suc All_less_Suc2)
  qed auto
qed

lemma index_str_bound: "index_str s p = Some i \<Longrightarrow> i + length p \<le> length s"
  using has_prefix_length [of "drop i s" p] by (auto simp: index_str_Some)

text \<open>A search looks at nothing behind the first match.\<close>

lemma index_str_prefix:
  "index_str (s @ t) p = Some i \<Longrightarrow> i + length p \<le> length s \<Longrightarrow> index_str s p = Some i"
  by (auto simp: index_str_Some has_prefix_append dest!: spec)

lemma index_str_append: "index_str s p = Some i \<Longrightarrow> index_str (s @ t) p = Some i"
proof -
  assume i: "index_str s p = Some i"
  then have "i + length p \<le> length s" by (rule index_str_bound)
  with i show ?thesis
    by (auto simp: index_str_Some has_prefix_append)
qed

lemma index_str_at:
  "\<forall>j < length s. \<not> has_prefix (drop j s @ p @ t) p \<Longrightarrow> index_str (s @ p @ t) p = Some (length s)"
  by (auto simp: index_str_Some has_prefix_iff)


section \<open>Printing decimal integers\<close>

text \<open>\<open>strconv.AppendInt\<close> and \<open>strconv.Itoa\<close> in base ten.\<close>

definition digit_char :: "nat \<Rightarrow> char" where
  "digit_char d = char_of (48 + d)"

function dec_digits :: "nat \<Rightarrow> string" where
  "dec_digits n = (if n < 10 then [digit_char n] else dec_digits (n div 10) @ [digit_char (n mod 10)])"
  by pat_completeness auto
termination
  by (relation "measure id") auto

declare dec_digits.simps [simp del]

definition go_itoa :: "int \<Rightarrow> string" where
  "go_itoa v = (if v < 0 then CHR ''-'' # dec_digits (nat (- v)) else dec_digits (nat v))"

lemma digit_val_char: "d < 10 \<Longrightarrow> digit_val (digit_char d) = Some d"
  by (simp add: digit_val_def digit_char_def of_char_of Let_def)

lemma digits_val_append:
  "digits_val acc (s @ t) = Option.bind (digits_val acc s) (\<lambda>n. digits_val n t)"
  by (induction s arbitrary: acc) (auto split: option.splits)

lemma digits_val_dec: "digits_val 0 (dec_digits n) = Some n"
proof (induction n rule: dec_digits.induct)
  case (1 n)
  then show ?case
    by (subst dec_digits.simps) (auto simp: digits_val_append digit_val_char)
qed

lemma dec_digits_nonempty [simp]: "dec_digits n \<noteq> []"
  by (subst dec_digits.simps) simp

lemma dec_digits_length: "n < 10 ^ k \<Longrightarrow> 0 < k \<Longrightarrow> length (dec_digits n) \<le> k"
proof (induction n arbitrary: k rule: dec_digits.induct)
  case (1 n)
  show ?case
  proof (cases "n < 10")
    case True
    with "1.prems" show ?thesis by (subst dec_digits.simps) simp
  next
    case False
    with "1.prems" obtain j where k: "k = Suc j" "0 < j"
      by (cases k; cases "k - 1") auto
    then have "n div 10 < 10 ^ j" using "1.prems" by auto
    with "1.IH" [OF False, of j] k False show ?thesis by (subst dec_digits.simps) simp
  qed
qed

definition is_digit :: "char \<Rightarrow> bool" where
  "is_digit c = (digit_val c \<noteq> None)"

lemma dec_digits_digits: "c \<in> set (dec_digits n) \<Longrightarrow> is_digit c"
proof (induction n rule: dec_digits.induct)
  case (1 n)
  then show ?case
    by (subst (asm) (2) dec_digits.simps) (auto simp: is_digit_def digit_val_char split: if_splits)
qed

end
