(* ===== verification/Raw_Buffer.thy ===== *)
theory Raw_Buffer
  imports Go_Strings
begin

text \<open>
  The read side of one raw connection (\<open>src/app/rawserver.go\<close>): the fixed buffer with its window
  \<open>buf[r:w]\<close>, the closure \<open>fill\<close> that compacts the window and reads more, the loop that waits for the end of a
  request head, and the loop that waits for the body. The peer is the list of what successive reads find on
  the socket. The lemmas refine the buffer to the unread rest of the byte stream: what the loops find does not
  depend on how the bytes were cut into reads.
\<close>

named_theorems raw_simps "definitions of the raw connection"

definition rawReadBufSize :: nat where
  "rawReadBufSize = 4096"

definition rawBodyLimit :: nat where
  "rawBodyLimit = 3072"

section \<open>The socket\<close>

text \<open>Each element is a run of bytes the socket has ready and whether the read that takes the last of
  them also reports an error; a read with less room than the run leaves the rest for the next one. After the
  last run every read reports an error without bytes (end of file, a reset, the read deadline).\<close>

type_synonym sock = "(string \<times> bool) list"

fun sock_read :: "nat \<Rightarrow> sock \<Rightarrow> string \<times> bool \<times> sock" where
  "sock_read room [] = ([], True, [])"
| "sock_read room ((bs, e) # rest) =
     (if length bs \<le> room then (bs, e, rest) else (take room bs, False, (drop room bs, e) # rest))"

text \<open>The bytes a reader that stops at the first empty failing read can get.\<close>

fun stream :: "sock \<Rightarrow> string" where
  "stream [] = []"
| "stream ((bs, e) # rest) = (if bs = [] \<and> e then [] else bs @ stream rest)"

definition sock_size :: "sock \<Rightarrow> nat" where
  "sock_size s = (\<Sum>(bs, _) \<leftarrow> s. Suc (length bs))"

lemma sock_size_simps [simp]:
  "sock_size [] = 0"
  "sock_size ((bs, e) # rest) = Suc (length bs + sock_size rest)"
  by (simp_all add: sock_size_def)

lemma sock_read_size:
  "sock_read room s = (bs, e, s') \<Longrightarrow> 0 < room \<Longrightarrow> bs \<noteq> [] \<or> \<not> e \<Longrightarrow>
    length bs + 2 * sock_size s' < 2 * sock_size s"
  by (induction room s rule: sock_read.induct) (auto split: if_splits)

lemma sock_read_room: "sock_read room s = (bs, e, s') \<Longrightarrow> length bs \<le> room"
  by (induction room s rule: sock_read.induct) (auto split: if_splits)

lemma sock_read_stream:
  "sock_read room s = (bs, e, s') \<Longrightarrow> 0 < room \<Longrightarrow>
    (if bs \<noteq> [] \<or> \<not> e then stream s = bs @ stream s' else stream s = [])"
  by (induction room s rule: sock_read.induct) (auto split: if_splits)

section \<open>The buffer\<close>

record conn =
  rbuf :: string
  rd :: nat
  wr :: nat
  sock :: sock

definition conn_init :: "sock \<Rightarrow> conn" where
  "conn_init s = \<lparr>rbuf = replicate rawReadBufSize (CHR 0x00), rd = 0, wr = 0, sock = s\<rparr>"

text \<open>The window \<open>buf[r:w]\<close>; \<open>None\<close> is the bounds panic of the slice expression (\<open>go_slice\<close> checks the upper bound
  against the length, which is stricter than Go's check against the capacity).\<close>

definition window :: "conn \<Rightarrow> string option" where
  "window c = go_slice (rbuf c) (rd c) (wr c)"

definition compact :: "conn \<Rightarrow> conn option" where
  "compact c =
     (if 0 < rd c
      then (case window c of
              None \<Rightarrow> None
            | Some v \<Rightarrow> Some (c\<lparr>rbuf := blit (rbuf c) 0 v, wr := wr c - rd c, rd := 0\<rparr>))
      else Some c)"

text \<open>\<open>c.Read(buf[w:])\<close>: the room is the rest of the buffer.\<close>

definition fill :: "conn \<Rightarrow> (bool \<times> conn) option" where
  "fill c =
     (case compact c of
        None \<Rightarrow> None
      | Some c \<Rightarrow>
          if wr c = length (rbuf c) then Some (False, c)
          else case go_slice (rbuf c) (wr c) (length (rbuf c)) of
                 None \<Rightarrow> None
               | Some room \<Rightarrow>
                   let (bs, err, s) = sock_read (length room) (sock c) in
                   Some (bs \<noteq> [] \<or> \<not> err,
                     c\<lparr>rbuf := blit (rbuf c) (wr c) bs, wr := wr c + length bs, sock := s\<rparr>))"

section \<open>Refinement to the byte stream\<close>

text \<open>What is still to be consumed: the window, then the socket.\<close>

definition live :: "conn \<Rightarrow> string" where
  "live c = take (wr c - rd c) (drop (rd c) (rbuf c))"

definition pending :: "conn \<Rightarrow> string" where
  "pending c = live c @ stream (sock c)"

definition conn_ok :: "conn \<Rightarrow> bool" where
  "conn_ok c \<longleftrightarrow> length (rbuf c) = rawReadBufSize \<and> rd c \<le> wr c \<and> wr c \<le> rawReadBufSize"

text \<open>What bounds the number of reads: a byte counts twice while it is on the socket, and every run once
  more.\<close>

definition conn_size :: "conn \<Rightarrow> nat" where
  "conn_size c = wr c - rd c + 2 * sock_size (sock c)"

lemma conn_ok_init: "conn_ok (conn_init s)"
  by (simp add: conn_ok_def conn_init_def)

lemma pending_init: "pending (conn_init s) = stream s"
  by (simp add: pending_def live_def conn_init_def)

lemma conn_window: "conn_ok c \<Longrightarrow> window c = Some (live c)"
  by (simp add: window_def live_def go_slice_def conn_ok_def)

lemma window_Some: "window c = Some v \<Longrightarrow> v = live c \<and> rd c \<le> wr c \<and> wr c \<le> length (rbuf c)"
  by (auto simp: window_def live_def go_slice_def split: if_splits)

lemma length_live: "rd c \<le> wr c \<Longrightarrow> wr c \<le> length (rbuf c) \<Longrightarrow> length (live c) = wr c - rd c"
  by (simp add: live_def)

lemma compact_facts:
  assumes "compact c = Some c'" "wr c \<le> length (rbuf c) \<or> rd c = 0"
  shows "rd c' = 0" "wr c' = wr c - rd c" "length (rbuf c') = length (rbuf c)"
    "sock c' = sock c" "live c' = live c" "rd c \<le> wr c"
proof -
  have "rd c' = 0 \<and> wr c' = wr c - rd c \<and> length (rbuf c') = length (rbuf c) \<and> sock c' = sock c \<and> live c' = live c \<and>
      rd c \<le> wr c"
  proof (cases "0 < rd c")
    case True
    with assms obtain v where v: "window c = Some v" "c' = c\<lparr>rbuf := blit (rbuf c) 0 v, wr := wr c - rd c, rd := 0\<rparr>"
      by (auto simp: compact_def split: option.splits)
    then have "v = live c" "rd c \<le> wr c" "wr c \<le> length (rbuf c)"
      by (auto simp: window_def live_def go_slice_def split: if_splits)
    with v show ?thesis by (auto simp: live_def blit_def)
  qed (use assms in \<open>simp add: compact_def\<close>)
  then show "rd c' = 0" "wr c' = wr c - rd c" "length (rbuf c') = length (rbuf c)"
    "sock c' = sock c" "live c' = live c" "rd c \<le> wr c" by blast+
qed

text \<open>One \<open>fill\<close> that does not panic: it keeps the buffer's size and the window within it, leaves the stream alone
  while it succeeds, makes progress, and fails only on a full window or a dry socket.\<close>

lemma fill_facts:
  assumes "fill c = Some (ok, c')"
  shows "rd c' \<le> wr c'" "wr c' \<le> length (rbuf c')" "length (rbuf c') = length (rbuf c)"
    "ok \<Longrightarrow> pending c' = pending c"
    "ok \<Longrightarrow> conn_size c' < conn_size c"
    "\<not> ok \<Longrightarrow> length (live c) = length (rbuf c) \<or> pending c = live c"
proof -
  from assms obtain k where k: "compact c = Some k"
    by (auto simp: fill_def split: option.splits)
  then have "wr c \<le> length (rbuf c) \<or> rd c = 0"
    by (auto simp: compact_def dest: window_Some split: if_splits option.splits)
  note kf = compact_facts [OF k this]
  have b: "wr k \<le> length (rbuf k)"
    using assms k by (auto simp: fill_def go_slice_def split: if_splits)
  obtain bs e s where rd: "sock_read (length (rbuf k) - wr k) (sock k) = (bs, e, s)"
    by (metis prod_cases3)
  have len: "length bs \<le> length (rbuf k) - wr k"
    using rd by (rule sock_read_room)
  show "rd c' \<le> wr c'" "wr c' \<le> length (rbuf c')" "length (rbuf c') = length (rbuf c)"
    using assms b k kf rd len by (auto simp: fill_def go_slice_def split: if_splits)
  {
    assume room: "wr k \<noteq> length (rbuf k)"
    with b have room': "0 < length (rbuf k) - wr k" by auto
    have c': "ok = (bs \<noteq> [] \<or> \<not> e)"
        "c' = k\<lparr>rbuf := blit (rbuf k) (wr k) bs, wr := wr k + length bs, sock := s\<rparr>"
      using assms k rd room b by (auto simp: fill_def go_slice_def)
    have live': "live c' = live c @ bs"
    proof -
      have "live c' = take (wr k + length bs) (blit (rbuf k) (wr k) bs)"
        using c' kf by (simp add: live_def)
      also have "\<dots> = take (wr k) (rbuf k) @ bs"
        using len b by (intro take_blit) auto
      also have "take (wr k) (rbuf k) = live k"
        using kf by (simp add: live_def)
      finally show ?thesis using kf by simp
    qed
    have "(ok \<longrightarrow> pending c' = pending c \<and>
             conn_size c' < conn_size c) \<and>
          (\<not> ok \<longrightarrow> pending c = live c)"
      using c' kf live' sock_read_stream [OF rd room'] sock_read_size [OF rd room']
      by (auto simp: pending_def conn_size_def)
  }
  note room = this
  {
    assume full: "wr k = length (rbuf k)"
    then have "\<not> ok" "length (live c) = length (rbuf c)"
      using assms k kf by (auto simp: fill_def) (simp add: live_def flip: kf(5))
  }
  with room show "ok \<Longrightarrow> pending c' = pending c"
    "ok \<Longrightarrow> conn_size c' < conn_size c"
    "\<not> ok \<Longrightarrow> length (live c) = length (rbuf c) \<or> pending c = live c"
    by blast+
qed

lemma fill_ok:
  assumes "conn_ok c"
  obtains ok c' where "fill c = Some (ok, c')" "conn_ok c'"
proof -
  obtain k where k: "compact c = Some k"
    using conn_window [OF assms] by (cases "0 < rd c") (simp_all add: compact_def)
  have "wr c \<le> length (rbuf c) \<or> rd c = 0" using assms by (simp add: conn_ok_def)
  note kf = compact_facts [OF k this]
  have "wr k \<le> length (rbuf k)"
    using assms kf by (auto simp: conn_ok_def)
  with k have "fill c \<noteq> None"
    by (simp add: fill_def go_slice_def case_prod_unfold Let_def del: not_None_eq)
  then obtain ok c' where f: "fill c = Some (ok, c')" by auto
  with fill_facts(1,2,3) [OF f] assms have "conn_ok c'"
    by (simp add: conn_ok_def)
  with f that show thesis by blast
qed


section \<open>The two loops that read\<close>

text \<open>Why a connection ends: one constructor per \<open>return\<close> of \<open>serveRawConn\<close> (and one for a slice that would
  panic).\<close>

datatype conn_end =
    Panicked | HeadUnfinished | BadRequestLine | BadVersion | BadHeader
  | BodyTooLong | BodyUnfinished | WriteFailed | CloseRequested

text \<open>Slices and byte accesses as results: out of range is the panic. Results are chained by \<open>on_ok\<close>.\<close>

definition slice_of :: "'a list \<Rightarrow> nat \<Rightarrow> nat \<Rightarrow> conn_end + 'a list" where
  "slice_of xs i j = (case go_slice xs i j of None \<Rightarrow> Inl Panicked | Some ys \<Rightarrow> Inr ys)"

definition byte_at :: "'a list \<Rightarrow> nat \<Rightarrow> conn_end + 'a" where
  "byte_at xs i = (if i < length xs then Inr (xs ! i) else Inl Panicked)"

fun on_ok :: "'e + 'a \<Rightarrow> ('a \<Rightarrow> 'e + 'b) \<Rightarrow> 'e + 'b" where
  "on_ok (Inl e) f = Inl e"
| "on_ok (Inr x) f = f x"

lemma slice_in_range [simp]: "i \<le> j \<Longrightarrow> j \<le> length xs \<Longrightarrow> slice_of xs i j = Inr (take (j - i) (drop i xs))"
  by (simp add: slice_of_def go_slice_def)

lemma slice_Inr: "slice_of xs i j = Inr ys \<longleftrightarrow> i \<le> j \<and> j \<le> length xs \<and> ys = take (j - i) (drop i xs)"
  by (auto simp: slice_of_def go_slice_def)

definition crlf :: string where
  "crlf = [CHR 0x0D, CHR 0x0A]"

definition crlf2 :: string where
  "crlf2 = crlf @ crlf"

text \<open>Locate the end of the head, reading as needed.\<close>

function head_loop :: "conn \<Rightarrow> conn_end + (nat \<times> conn)" where
  "head_loop c =
     (case window c of
        None \<Rightarrow> Inl Panicked
      | Some v \<Rightarrow>
          (case index_str v crlf2 of
             Some i \<Rightarrow> Inr (i, c)
           | None \<Rightarrow>
               (case fill c of
                  None \<Rightarrow> Inl Panicked
                | Some (ok, c') \<Rightarrow> if ok then head_loop c' else Inl HeadUnfinished)))"
  by pat_completeness auto
termination
  by (relation "measure conn_size") (auto dest: fill_facts(5))

text \<open>Read on until the window holds the body.\<close>

function body_loop :: "nat \<Rightarrow> conn \<Rightarrow> conn_end + conn" where
  "body_loop n c =
     (if wr c < rd c + n
      then (case fill c of
              None \<Rightarrow> Inl Panicked
            | Some (ok, c') \<Rightarrow> if ok then body_loop n c' else Inl BodyUnfinished)
      else Inr c)"
  by pat_completeness auto
termination
  by (relation "measure (conn_size \<circ> snd)") (auto dest: fill_facts(5))

declare head_loop.simps [simp del] body_loop.simps [simp del]

lemma length_crlf [simp]: "length crlf = 2" "length crlf2 = 4"
  by (simp_all add: crlf_def crlf2_def)

text \<open>Against the stream: the head ends where the stream's first blank line ends, if that is within the
  buffer's size.\<close>

definition head_end :: "string \<Rightarrow> nat option" where
  "head_end s =
     (case index_str s crlf2 of
        Some i \<Rightarrow> if i + 4 \<le> rawReadBufSize then Some i else None
      | None \<Rightarrow> None)"

lemma length_live_le: "conn_ok c \<Longrightarrow> length (live c) \<le> rawReadBufSize"
  by (simp add: live_def conn_ok_def)

lemma head_loop_stream:
  "conn_ok c \<Longrightarrow>
     (case head_end (pending c) of
        Some i \<Rightarrow> \<exists>c'. head_loop c = Inr (i, c') \<and> conn_ok c' \<and> pending c' = pending c \<and>
          i + 4 \<le> length (live c') \<and> conn_size c' \<le> conn_size c
      | None \<Rightarrow> head_loop c = Inl HeadUnfinished)"
proof (induction c rule: head_loop.induct)
  case (1 c)
  note w = conn_window [OF "1.prems"]
  show ?case
  proof (cases "index_str (live c) crlf2")
    case (Some i)
    then have "i + 4 \<le> length (live c)"
      by (auto dest: index_str_bound)
    moreover have "index_str (pending c) crlf2 = Some i"
      using Some unfolding pending_def by (rule index_str_append)
    ultimately show ?thesis
      using Some w "1.prems" length_live_le [of c] by (simp add: head_loop.simps head_end_def)
  next
    case None
    obtain ok c' where f: "fill c = Some (ok, c')" "conn_ok c'"
      using fill_ok "1.prems" by blast
    show ?thesis
    proof (cases ok)
      case True
      have "conn_size c' < conn_size c" "pending c' = pending c"
        using fill_facts(4,5) [OF f(1)] True by auto
      with "1.IH" [OF w None f(1) refl True] f None w True show ?thesis
        by (subst (1 2) head_loop.simps) (auto split: option.splits)
    next
      case False
      have "head_end (pending c) = None"
      proof (rule ccontr)
        assume "head_end (pending c) \<noteq> None"
        then obtain i where i: "index_str (pending c) crlf2 = Some i" "i + 4 \<le> rawReadBufSize"
          by (auto simp: head_end_def split: option.splits if_splits)
        have "i + 4 \<le> length (live c)"
          using fill_facts(6) [OF f(1) False] i "1.prems" index_str_bound [OF i(1)]
          by (auto simp: conn_ok_def)
        with i(1) None show False
          unfolding pending_def by (auto dest: index_str_prefix)
      qed
      with False f None w show ?thesis by (simp add: head_loop.simps)
    qed
  qed
qed

lemma body_loop_stream:
  "conn_ok c \<Longrightarrow> n \<le> rawBodyLimit \<Longrightarrow>
     (if n \<le> length (pending c)
      then \<exists>c'. body_loop n c = Inr c' \<and> conn_ok c' \<and> pending c' = pending c \<and> n \<le> length (live c') \<and>
        conn_size c' \<le> conn_size c
      else body_loop n c = Inl BodyUnfinished)"
proof (induction n c rule: body_loop.induct)
  case (1 n c)
  have len: "length (live c) = wr c - rd c"
    using "1.prems" by (simp add: length_live conn_ok_def)
  show ?case
  proof (cases "wr c < rd c + n")
    case False
    with len "1.prems" show ?thesis by (auto simp: body_loop.simps pending_def)
  next
    case True
    obtain ok c' where f: "fill c = Some (ok, c')" "conn_ok c'"
      using fill_ok "1.prems"(1) by blast
    show ?thesis
    proof (cases ok)
      case ok: True
      have "conn_size c' < conn_size c" "pending c' = pending c"
        using fill_facts(4,5) [OF f(1)] ok by auto
      with "1.IH" [OF True f(1) refl ok f(2) "1.prems"(2)] f True ok show ?thesis
        by (subst (1 2) body_loop.simps) (auto split: if_splits)
    next
      case False
      have "length (pending c) < n"
        using fill_facts(6) [OF f(1) False] True len "1.prems"
        by (auto simp: conn_ok_def rawBodyLimit_def rawReadBufSize_def)
      with False f True show ?thesis by (simp add: body_loop.simps)
    qed
  qed
qed

text \<open>Consuming bytes of the window (\<open>r += n\<close>).\<close>

definition advance :: "nat \<Rightarrow> conn \<Rightarrow> conn" where
  "advance n c = c\<lparr>rd := rd c + n\<rparr>"

lemma advance_facts:
  assumes "conn_ok c" "n \<le> length (live c)"
  shows "conn_ok (advance n c)" "pending (advance n c) = drop n (pending c)"
    "live (advance n c) = drop n (live c)" "conn_size (advance n c) + n = conn_size c"
  using assms
  by (auto simp: advance_def conn_ok_def pending_def live_def conn_size_def drop_take add.commute)

end
