(* ===== verification/Raw_Parse.thy ===== *)
theory Raw_Parse
  imports Raw_Buffer
begin

text \<open>
  What \<open>serveRawConn\<close> does with a complete request head: the request line, the version, the header lines that
  matter (\<open>Content-Length\<close>, \<open>Connection\<close>, \<open>Transfer-Encoding\<close>), and the split of the target into path and
  query. Every early return is a value of \<open>conn_end\<close>, and so is the panic of a slice out of range: the bounds
  of every slice expression are those of the code. The lemmas show that none panics, give each step in closed form,
  and compute the parse of a head made of lines, as a client sends it.
\<close>

section \<open>Bytes\<close>

definition lower_byte :: "char \<Rightarrow> char" where
  "lower_byte c =
     (let n = (of_char c :: nat) in if 65 \<le> n \<and> n \<le> 90 then char_of (n + 32) else c)"

definition asciiEqualFold :: "string \<Rightarrow> string \<Rightarrow> bool" where
  "asciiEqualFold b lower \<longleftrightarrow> list_all2 (\<lambda>c l. lower_byte c = l) b lower"

definition is_ows :: "char \<Rightarrow> bool" where
  "is_ows c \<longleftrightarrow> c = CHR '' '' \<or> c = CHR 0x09"

text \<open>The two loops of \<open>trimOWS\<close>: \<open>b[0]\<close> and \<open>b[1:]\<close>, then \<open>b[len(b)-1]\<close> and \<open>b[:len(b)-1]\<close>.\<close>

function trim_front :: "string \<Rightarrow> conn_end + string" where
  "trim_front b =
     (if 0 < length b
      then case byte_at b 0 of
             Inl e \<Rightarrow> Inl e
           | Inr c \<Rightarrow>
               if is_ows c
               then case slice_of b 1 (length b) of Inl e \<Rightarrow> Inl e | Inr b' \<Rightarrow> trim_front b'
               else Inr b
      else Inr b)"
  by pat_completeness auto
termination
  by (relation "measure length") (auto simp: slice_Inr)

function trim_back :: "string \<Rightarrow> conn_end + string" where
  "trim_back b =
     (if 0 < length b
      then case byte_at b (length b - 1) of
             Inl e \<Rightarrow> Inl e
           | Inr c \<Rightarrow>
               if is_ows c
               then case slice_of b 0 (length b - 1) of Inl e \<Rightarrow> Inl e | Inr b' \<Rightarrow> trim_back b'
               else Inr b
      else Inr b)"
  by pat_completeness auto
termination
  by (relation "measure length") (auto simp: slice_Inr)

declare trim_front.simps [simp del] trim_back.simps [simp del]

definition trimOWS :: "string \<Rightarrow> conn_end + string" where
  "trimOWS b = on_ok (trim_front b) trim_back"

text \<open>In closed form.\<close>

definition trimmed :: "string \<Rightarrow> string" where
  "trimmed b = rev (dropWhile is_ows (rev (dropWhile is_ows b)))"

lemma trim_front_eq: "trim_front b = Inr (dropWhile is_ows b)"
  by (induction b) (subst trim_front.simps, simp add: byte_at_def)+

lemma trim_back_eq: "trim_back b = Inr (rev (dropWhile is_ows (rev b)))"
  by (induction b rule: rev_induct) (subst trim_back.simps, simp add: byte_at_def)+

lemma trimOWS_eq: "trimOWS b = Inr (trimmed b)"
  by (simp add: trimOWS_def trimmed_def trim_front_eq trim_back_eq)

lemma lower_byte_upper [simp]:
  "lower_byte (CHR ''A'') = CHR ''a''"
  "lower_byte (CHR ''B'') = CHR ''b''"
  "lower_byte (CHR ''C'') = CHR ''c''"
  "lower_byte (CHR ''D'') = CHR ''d''"
  "lower_byte (CHR ''E'') = CHR ''e''"
  "lower_byte (CHR ''F'') = CHR ''f''"
  "lower_byte (CHR ''G'') = CHR ''g''"
  "lower_byte (CHR ''H'') = CHR ''h''"
  "lower_byte (CHR ''I'') = CHR ''i''"
  "lower_byte (CHR ''J'') = CHR ''j''"
  "lower_byte (CHR ''K'') = CHR ''k''"
  "lower_byte (CHR ''L'') = CHR ''l''"
  "lower_byte (CHR ''M'') = CHR ''m''"
  "lower_byte (CHR ''N'') = CHR ''n''"
  "lower_byte (CHR ''O'') = CHR ''o''"
  "lower_byte (CHR ''P'') = CHR ''p''"
  "lower_byte (CHR ''Q'') = CHR ''q''"
  "lower_byte (CHR ''R'') = CHR ''r''"
  "lower_byte (CHR ''S'') = CHR ''s''"
  "lower_byte (CHR ''T'') = CHR ''t''"
  "lower_byte (CHR ''U'') = CHR ''u''"
  "lower_byte (CHR ''V'') = CHR ''v''"
  "lower_byte (CHR ''W'') = CHR ''w''"
  "lower_byte (CHR ''X'') = CHR ''x''"
  "lower_byte (CHR ''Y'') = CHR ''y''"
  "lower_byte (CHR ''Z'') = CHR ''z''"
  by code_simp+

lemma lower_byte_lower [simp]:
  "lower_byte (CHR ''a'') = CHR ''a''"
  "lower_byte (CHR ''b'') = CHR ''b''"
  "lower_byte (CHR ''c'') = CHR ''c''"
  "lower_byte (CHR ''d'') = CHR ''d''"
  "lower_byte (CHR ''e'') = CHR ''e''"
  "lower_byte (CHR ''f'') = CHR ''f''"
  "lower_byte (CHR ''g'') = CHR ''g''"
  "lower_byte (CHR ''h'') = CHR ''h''"
  "lower_byte (CHR ''i'') = CHR ''i''"
  "lower_byte (CHR ''j'') = CHR ''j''"
  "lower_byte (CHR ''k'') = CHR ''k''"
  "lower_byte (CHR ''l'') = CHR ''l''"
  "lower_byte (CHR ''m'') = CHR ''m''"
  "lower_byte (CHR ''n'') = CHR ''n''"
  "lower_byte (CHR ''o'') = CHR ''o''"
  "lower_byte (CHR ''p'') = CHR ''p''"
  "lower_byte (CHR ''q'') = CHR ''q''"
  "lower_byte (CHR ''r'') = CHR ''r''"
  "lower_byte (CHR ''s'') = CHR ''s''"
  "lower_byte (CHR ''t'') = CHR ''t''"
  "lower_byte (CHR ''u'') = CHR ''u''"
  "lower_byte (CHR ''v'') = CHR ''v''"
  "lower_byte (CHR ''w'') = CHR ''w''"
  "lower_byte (CHR ''x'') = CHR ''x''"
  "lower_byte (CHR ''y'') = CHR ''y''"
  "lower_byte (CHR ''z'') = CHR ''z''"
  "lower_byte (CHR ''-'') = CHR ''-''"
  by code_simp+

lemma index_byte_bound: "index_byte s c = Some i \<Longrightarrow> i < length s"
  by (simp add: index_byte_Some)

section \<open>The request line\<close>

definition line_end :: "string \<Rightarrow> nat" where
  "line_end head = (case index_byte head (CHR 0x0D) of Some i \<Rightarrow> i | None \<Rightarrow> length head)"

definition request_line :: "string \<Rightarrow> conn_end + (string \<times> string \<times> string)" where
  "request_line reqLine =
     (case (index_byte reqLine (CHR '' ''), last_index_byte reqLine (CHR '' '')) of
        (Some sp1, Some sp2) \<Rightarrow>
          if sp2 \<le> sp1 then Inl BadRequestLine
          else on_ok (slice_of reqLine 0 sp1) (\<lambda>mthd.
               on_ok (slice_of reqLine (sp1 + 1) sp2) (\<lambda>target.
               on_ok (slice_of reqLine (sp2 + 1) (length reqLine)) (\<lambda>version.
                 Inr (mthd, target, version))))
      | _ \<Rightarrow> Inl BadRequestLine)"

lemma last_index_byte_bound: "last_index_byte s c = Some i \<Longrightarrow> i < length s"
  by (auto simp: last_index_byte_def index_byte_Some)

lemma request_line_eq:
  "request_line reqLine =
     (case (index_byte reqLine (CHR '' ''), last_index_byte reqLine (CHR '' '')) of
        (Some sp1, Some sp2) \<Rightarrow>
          if sp2 \<le> sp1 then Inl BadRequestLine
          else Inr (take sp1 reqLine, take (sp2 - (sp1 + 1)) (drop (sp1 + 1) reqLine), drop (sp2 + 1) reqLine)
      | _ \<Rightarrow> Inl BadRequestLine)"
  using last_index_byte_bound [of reqLine "CHR '' ''"]
  by (auto simp: request_line_def split: option.split)

definition version_keep_alive :: "string \<Rightarrow> bool option" where
  "version_keep_alive version =
     (if version = ''HTTP/1.1'' then Some True
      else if version = ''HTTP/1.0'' then Some False
      else None)"

section \<open>The headers\<close>

text \<open>The loop state is the pair of \<open>contentLen\<close> and \<open>keepAlive\<close>.\<close>

definition content_length :: "string \<Rightarrow> nat option" where
  "content_length val = (if val = [] \<or> 9 < length val then None else digits_val 0 val)"

definition header_line :: "string \<Rightarrow> nat \<times> bool \<Rightarrow> conn_end + (nat \<times> bool)" where
  "header_line line st =
     (case index_byte line (CHR '':'') of
        None \<Rightarrow> Inr st
      | Some ci \<Rightarrow>
          on_ok (slice_of line 0 ci) (\<lambda>name.
          on_ok (on_ok (slice_of line (ci + 1) (length line)) trimOWS) (\<lambda>val.
            if asciiEqualFold name ''content-length'' then
              (case content_length val of None \<Rightarrow> Inl BadHeader | Some n \<Rightarrow> Inr (n, snd st))
            else if asciiEqualFold name ''connection'' then
              Inr (fst st,
                if asciiEqualFold val ''close'' then False
                else if asciiEqualFold val ''keep-alive'' then True
                else snd st)
            else if asciiEqualFold name ''transfer-encoding'' then Inl BadHeader
            else Inr st)))"

lemma header_line_eq:
  "header_line line st =
     (case index_byte line (CHR '':'') of
        None \<Rightarrow> Inr st
      | Some ci \<Rightarrow>
          let name = take ci line; val = trimmed (drop (ci + 1) line) in
          if asciiEqualFold name ''content-length'' then
            (case content_length val of None \<Rightarrow> Inl BadHeader | Some n \<Rightarrow> Inr (n, snd st))
          else if asciiEqualFold name ''connection'' then
            Inr (fst st,
              if asciiEqualFold val ''close'' then False
              else if asciiEqualFold val ''keep-alive'' then True
              else snd st)
          else if asciiEqualFold name ''transfer-encoding'' then Inl BadHeader
          else Inr st)"
  using index_byte_bound [of line "CHR '':''"]
  by (cases "index_byte line (CHR '':'')") (simp_all add: header_line_def trimOWS_eq Let_def)

definition next_line :: "string \<Rightarrow> conn_end + (string \<times> string)" where
  "next_line rest =
     (case index_str rest crlf of
        Some j \<Rightarrow>
          on_ok (slice_of rest 0 j) (\<lambda>line.
          on_ok (slice_of rest (j + 2) (length rest)) (\<lambda>rest'. Inr (line, rest')))
      | None \<Rightarrow> Inr (rest, []))"

lemma next_line_eq:
  "next_line rest =
     Inr (case index_str rest crlf of Some j \<Rightarrow> (take j rest, drop (j + 2) rest) | None \<Rightarrow> (rest, []))"
  using index_str_bound [of rest crlf] by (auto simp: next_line_def split: option.split)

lemma next_line_shorter: "next_line rest = Inr (line, rest') \<Longrightarrow> rest \<noteq> [] \<Longrightarrow> length rest' < length rest"
  by (auto simp: next_line_eq split: option.splits)

function header_loop :: "string \<Rightarrow> nat \<times> bool \<Rightarrow> conn_end + (nat \<times> bool)" where
  "header_loop rest st =
     (if rest = [] then Inr st
      else case next_line rest of
             Inl e \<Rightarrow> Inl e
           | Inr (line, rest') \<Rightarrow>
               (case header_line line st of
                  Inl e \<Rightarrow> Inl e
                | Inr st' \<Rightarrow> header_loop rest' st'))"
  by pat_completeness auto
termination
  by (relation "measure (length \<circ> fst)") (auto dest: next_line_shorter)

declare header_loop.simps [simp del]

section \<open>The whole head\<close>

record raw_head =
  hd_method :: string
  hd_path :: string
  hd_query :: string
  hd_length :: nat
  hd_keep_alive :: bool

definition split_target :: "string \<Rightarrow> conn_end + (string \<times> string)" where
  "split_target target =
     (case index_byte target (CHR ''?'') of
        Some qi \<Rightarrow>
          on_ok (slice_of target 0 qi) (\<lambda>path.
          on_ok (slice_of target (qi + 1) (length target)) (\<lambda>query. Inr (path, query)))
      | None \<Rightarrow> on_ok (slice_of target (length target) (length target)) (\<lambda>query. Inr (target, query)))"

text \<open>The request line, its version, the headers, and then the target, in the order of the code.\<close>

definition parse_head :: "string \<Rightarrow> conn_end + raw_head" where
  "parse_head head =
     on_ok (slice_of head 0 (line_end head)) (\<lambda>reqLine.
     on_ok (request_line reqLine) (\<lambda>(mthd, target, version).
       case version_keep_alive version of
         None \<Rightarrow> Inl BadVersion
       | Some ka \<Rightarrow>
           on_ok (slice_of head (min (line_end head + 2) (length head)) (length head)) (\<lambda>rest.
           on_ok (header_loop rest (0, ka)) (\<lambda>(n, keep).
           on_ok (split_target target) (\<lambda>(path, query).
             Inr \<lparr>hd_method = mthd, hd_path = path, hd_query = query, hd_length = n, hd_keep_alive = keep\<rparr>)))))"

section \<open>No slice is out of range\<close>

lemma header_line_end: "header_line line st = Inl e \<Longrightarrow> e = BadHeader"
  by (auto simp: header_line_eq Let_def split: option.splits if_splits)

lemma header_loop_end: "header_loop rest st = Inl e \<Longrightarrow> e = BadHeader"
proof (induction rest st rule: header_loop.induct)
  case (1 rest st)
  obtain line rest' where n: "next_line rest = Inr (line, rest')"
    by (cases "index_str rest crlf") (simp_all add: next_line_eq)
  show ?case
  proof (cases "header_line line st")
    case (Inl e')
    with "1.prems" n header_line_end [OF Inl] show ?thesis
      by (subst (asm) header_loop.simps) (simp split: if_splits)
  next
    case (Inr st')
    with "1.prems" n "1.IH" [OF _ n refl Inr] show ?thesis
      by (subst (asm) header_loop.simps) (simp split: if_splits)
  qed
qed

lemma request_line_end: "request_line l = Inl e \<Longrightarrow> e = BadRequestLine"
  by (auto simp: request_line_eq split: option.splits if_splits)

lemma split_target_eq:
  "split_target target =
     Inr (case index_byte target (CHR ''?'') of Some qi \<Rightarrow> (take qi target, drop (qi + 1) target) | None \<Rightarrow> (target, []))"
  using index_byte_bound [of target "CHR ''?''"]
  by (cases "index_byte target (CHR ''?'')") (simp_all add: split_target_def)

lemma line_end_bound: "line_end head \<le> length head"
  by (auto simp: line_end_def index_byte_Some split: option.split)

lemma on_ok_Inl: "on_ok r f = Inl e \<longleftrightarrow> r = Inl e \<or> (\<exists>x. r = Inr x \<and> f x = Inl e)"
  by (cases r) simp_all

lemma on_ok_Inr: "on_ok r f = Inr y \<longleftrightarrow> (\<exists>x. r = Inr x \<and> f x = Inr y)"
  by (cases r) simp_all

lemma parse_head_end: "parse_head head = Inl e \<Longrightarrow> e \<in> {BadRequestLine, BadVersion, BadHeader}"
  using line_end_bound [of head]
  by (auto simp: parse_head_def on_ok_Inl split_target_eq dest: request_line_end header_loop_end split: option.splits)

section \<open>Bounds\<close>

lemma digits_val_bound: "digits_val acc s = Some n \<Longrightarrow> n < (acc + 1) * 10 ^ length s"
proof (induction s arbitrary: acc)
  case (Cons c cs)
  then obtain d where d: "digit_val c = Some d" "digits_val (10 * acc + d) cs = Some n"
    by (auto split: option.splits)
  then have "d \<le> 9" by (auto simp: digit_val_def Let_def split: if_splits)
  have "n < (10 * acc + d + 1) * 10 ^ length cs" using Cons.IH [OF d(2)] .
  also have "\<dots> \<le> (10 * acc + 10) * 10 ^ length cs" using \<open>d \<le> 9\<close> by (intro mult_right_mono) auto
  finally show ?case by (simp add: algebra_simps)
qed simp

lemma content_length_bound:
  assumes "content_length val = Some n"
  shows "n < 10 ^ 9"
proof -
  from assms have "digits_val 0 val = Some n" "length val \<le> 9"
    by (auto simp: content_length_def split: if_splits)
  moreover have "(10::nat) ^ length val \<le> 10 ^ 9"
    using \<open>length val \<le> 9\<close> by (rule power_increasing) simp
  ultimately have "n < 10 ^ length val" "(10::nat) ^ length val \<le> 10 ^ 9"
    using digits_val_bound [of 0 val n] by auto
  then show ?thesis by linarith
qed


section \<open>Heads made of lines\<close>

text \<open>The text of a head: lines separated by CRLF.\<close>

fun join_lines :: "string list \<Rightarrow> string" where
  "join_lines [] = []"
| "join_lines [l] = l"
| "join_lines (l # ls) = l @ crlf @ join_lines ls"

text \<open>A line a client may send: not empty and without CR.\<close>

definition plain_line :: "string \<Rightarrow> bool" where
  "plain_line l \<longleftrightarrow> l \<noteq> [] \<and> CHR 0x0D \<notin> set l"

fun header_lines :: "string list \<Rightarrow> nat \<times> bool \<Rightarrow> conn_end + (nat \<times> bool)" where
  "header_lines [] st = Inr st"
| "header_lines (l # ls) st = on_ok (header_line l st) (header_lines ls)"

lemma index_str_skip:
  "c \<notin> set l \<Longrightarrow> index_str (l @ s) (c # p) = map_option (\<lambda>i. length l + i) (index_str s (c # p))"
  by (induction l; cases "index_str s (c # p)") auto

lemma index_crlf_line: "CHR 0x0D \<notin> set l \<Longrightarrow> index_str (l @ crlf @ t) crlf = Some (length l)"
  unfolding crlf_def by (subst index_str_skip) auto

lemma index_crlf_none: "CHR 0x0D \<notin> set l \<Longrightarrow> index_str l crlf = None"
  using index_str_skip [of "CHR 0x0D" l "[]"] by (simp add: crlf_def)

lemma join_lines_start:
  assumes "\<forall>l \<in> set (l0 # ls). plain_line l"
  obtains x s where "join_lines (l0 # ls) = x # s" "x \<noteq> CHR 0x0D"
proof -
  obtain x l where l0: "l0 = x # l" "x \<noteq> CHR 0x0D"
    using assms by (cases l0) (auto simp: plain_line_def)
  show thesis
    by (cases ls) (use that l0 in auto)
qed

lemma index_head_end:
  "ls \<noteq> [] \<Longrightarrow> \<forall>l \<in> set ls. plain_line l \<Longrightarrow>
     index_str (join_lines ls @ crlf2 @ t) crlf2 = Some (length (join_lines ls))"
proof (induction ls rule: join_lines.induct)
  case (2 l)
  then have "CHR 0x0D \<notin> set l" by (simp add: plain_line_def)
  then show ?case
    unfolding crlf2_def crlf_def by (simp add: index_str_skip)
next
  case (3 l l' ls)
  then have l: "CHR 0x0D \<notin> set l" by (simp add: plain_line_def)
  obtain x s where x: "join_lines (l' # ls) = x # s" "x \<noteq> CHR 0x0D"
    using join_lines_start [of l' ls] "3.prems"(2) by auto
  have IH: "index_str (join_lines (l' # ls) @ crlf2 @ t) crlf2 = Some (length (join_lines (l' # ls)))"
    using "3.IH" "3.prems" by auto
  have "index_str (crlf @ join_lines (l' # ls) @ crlf2 @ t) crlf2 =
      map_option (\<lambda>i. 2 + i) (index_str (join_lines (l' # ls) @ crlf2 @ t) crlf2)"
    unfolding x by (simp add: crlf2_def crlf_def x(2) option.map_comp comp_def)
  then have "index_str (crlf @ join_lines (l' # ls) @ crlf2 @ t) crlf2 =
      Some (2 + length (join_lines (l' # ls)))"
    unfolding IH by simp
  moreover have "index_str (l @ crlf @ join_lines (l' # ls) @ crlf2 @ t) crlf2 =
      map_option (\<lambda>i. length l + i) (index_str (crlf @ join_lines (l' # ls) @ crlf2 @ t) crlf2)"
    using index_str_skip [OF l] unfolding crlf2_def crlf_def by simp
  ultimately show ?case by simp
qed simp

lemma header_loop_lines:
  "\<forall>l \<in> set ls. plain_line l \<Longrightarrow> header_loop (join_lines ls) st = header_lines ls st"
proof (induction ls arbitrary: st rule: join_lines.induct)
  case 1
  show ?case by (simp add: header_loop.simps)
next
  case (2 l)
  then have "l \<noteq> []" "next_line l = Inr (l, [])"
    by (auto simp: plain_line_def next_line_eq index_crlf_none)
  then show ?case
    by (cases "header_line l st") (simp_all add: header_loop.simps)
next
  case (3 l l' ls)
  then have "l @ crlf @ join_lines (l' # ls) \<noteq> []"
    and n: "next_line (l @ crlf @ join_lines (l' # ls)) = Inr (l, join_lines (l' # ls))"
    by (auto simp: plain_line_def next_line_eq index_crlf_line)
  moreover have "header_loop (join_lines (l' # ls)) st' = header_lines (l' # ls) st'" for st'
    using "3.IH" "3.prems" by simp
  ultimately show ?case
    by (subst header_loop.simps) (cases "header_line l st"; simp del: join_lines.simps header_lines.simps(2) add: header_lines.simps(2) [of l] join_lines.simps(3) [symmetric, of l])
qed

lemma join_lines_Cons: "join_lines (l # ls) = (if ls = [] then l else l @ crlf @ join_lines ls)"
  by (cases ls) auto

lemma line_end_join:
  "CHR 0x0D \<notin> set l \<Longrightarrow> line_end (join_lines (l # ls)) = length l"
proof (cases ls)
  case (Cons l' ls')
  assume l: "CHR 0x0D \<notin> set l"
  then have "index_byte (join_lines (l # ls)) (CHR 0x0D) = Some (length l)"
    using Cons by (simp add: index_byte_Some crlf_def)
  then show ?thesis by (simp add: line_end_def)
qed (simp add: line_end_def index_byte_None [THEN iffD2])

lemma parse_head_lines:
  assumes "plain_line l" "\<forall>h \<in> set ls. plain_line h"
  shows "parse_head (join_lines (l # ls)) =
    on_ok (request_line l) (\<lambda>(m, target, version).
      case version_keep_alive version of
        None \<Rightarrow> Inl BadVersion
      | Some ka \<Rightarrow>
          on_ok (header_lines ls (0, ka)) (\<lambda>(n, keep).
          on_ok (split_target target) (\<lambda>(path, query).
            Inr \<lparr>hd_method = m, hd_path = path, hd_query = query, hd_length = n, hd_keep_alive = keep\<rparr>)))"
proof -
  have e: "line_end (join_lines (l # ls)) = length l"
    using assms(1) by (simp add: plain_line_def line_end_join)
  have t: "slice_of (join_lines (l # ls)) 0 (length l) = Inr l"
    "slice_of (join_lines (l # ls)) (min (length l + 2) (length (join_lines (l # ls)))) (length (join_lines (l # ls))) =
      Inr (join_lines ls)"
    by (auto simp: join_lines_Cons)
  show ?thesis
    unfolding parse_head_def e t on_ok.simps header_loop_lines [OF assms(2)] ..
qed

lemma request_line_words:
  assumes "CHR '' '' \<notin> set m" "CHR '' '' \<notin> set v"
  shows "request_line (m @ CHR '' '' # target @ CHR '' '' # v) = Inr (m, target, v)"
proof -
  let ?l = "m @ CHR '' '' # target @ CHR '' '' # v"
  have 1: "index_byte ?l (CHR '' '') = Some (length m)"
    using assms(1) by (simp add: index_byte_Some)
  have "index_byte (rev ?l) (CHR '' '') = Some (length v)"
    using assms(2) by (simp add: index_byte_Some nth_append)
  then have 2: "last_index_byte ?l (CHR '' '') = Some (length m + 1 + length target)"
    by (simp add: last_index_byte_def)
  show ?thesis
    by (simp add: request_line_eq 1 2)
qed

lemma split_target_query:
  "CHR ''?'' \<notin> set p \<Longrightarrow> split_target (p @ CHR ''?'' # q) = Inr (p, q)"
proof -
  assume "CHR ''?'' \<notin> set p"
  then have "index_byte (p @ CHR ''?'' # q) (CHR ''?'') = Some (length p)"
    by (simp add: index_byte_Some)
  then show ?thesis by (simp add: split_target_eq)
qed

lemma split_target_plain: "CHR ''?'' \<notin> set p \<Longrightarrow> split_target p = Inr (p, [])"
  by (simp add: split_target_eq index_byte_None [THEN iffD2])

end
