(* ===== verification/Raw_Response.thy ===== *)
theory Raw_Response
  imports Raw_Parse
begin

text \<open>
  The write side: \<open>rawResponse\<close> with its one-write \<open>writeResponse\<close> and the safety-net methods, the stock
  \<open>net/http\<close> writer, and \<open>writeJSON\<close>/\<open>writeJSONUncounted\<close>, which the handlers call on either. The lemmas
  show that a client that frames responses by \<open>Content-Length\<close> reads back the status, the body and the
  keep-alive decision, however many responses follow each other on the connection.
\<close>

section \<open>The raw writer\<close>

text \<open>The connection's write side is the list of buffers handed to \<open>conn.Write\<close> so far (\<open>sent\<close>) and, for the
  writes to come, whether they fail (\<open>peer\<close>; after the list they succeed).\<close>

record rawResponse =
  out :: string
  closeAfter :: bool
  pendingCode :: int
  werr :: bool
  sent :: "string list"
  peer :: "bool list"

text \<open>\<open>http.StatusText\<close>, the registered codes.\<close>

definition status_texts :: "(int \<times> string) list" where
  "status_texts =
     [(100, ''Continue''), (101, ''Switching Protocols''), (102, ''Processing''), (103, ''Early Hints''),
      (200, ''OK''), (201, ''Created''), (202, ''Accepted''), (203, ''Non-Authoritative Information''),
      (204, ''No Content''), (205, ''Reset Content''), (206, ''Partial Content''), (207, ''Multi-Status''),
      (208, ''Already Reported''), (226, ''IM Used''), (300, ''Multiple Choices''),
      (301, ''Moved Permanently''), (302, ''Found''), (303, ''See Other''), (304, ''Not Modified''),
      (305, ''Use Proxy''), (307, ''Temporary Redirect''), (308, ''Permanent Redirect''),
      (400, ''Bad Request''), (401, ''Unauthorized''), (402, ''Payment Required''), (403, ''Forbidden''),
      (404, ''Not Found''), (405, ''Method Not Allowed''), (406, ''Not Acceptable''),
      (407, ''Proxy Authentication Required''), (408, ''Request Timeout''), (409, ''Conflict''),
      (410, ''Gone''), (411, ''Length Required''), (412, ''Precondition Failed''),
      (413, ''Request Entity Too Large''), (414, ''Request URI Too Long''),
      (415, ''Unsupported Media Type''), (416, ''Requested Range Not Satisfiable''),
      (417, ''Expectation Failed''), (418, ''I'' @ [CHR 0x27] @ ''m a teapot''),
      (421, ''Misdirected Request''), (422, ''Unprocessable Entity''), (423, ''Locked''),
      (424, ''Failed Dependency''), (425, ''Too Early''), (426, ''Upgrade Required''),
      (428, ''Precondition Required''), (429, ''Too Many Requests''),
      (431, ''Request Header Fields Too Large''), (451, ''Unavailable For Legal Reasons''),
      (500, ''Internal Server Error''), (501, ''Not Implemented''), (502, ''Bad Gateway''),
      (503, ''Service Unavailable''), (504, ''Gateway Timeout''), (505, ''HTTP Version Not Supported''),
      (506, ''Variant Also Negotiates''), (507, ''Insufficient Storage''), (508, ''Loop Detected''),
      (510, ''Not Extended''), (511, ''Network Authentication Required'')]"

definition status_text :: "int \<Rightarrow> string" where
  "status_text code = (case map_of status_texts code of Some t \<Rightarrow> t | None \<Rightarrow> [])"

text \<open>The status line without its CRLF.\<close>

definition status_line :: "int \<Rightarrow> string" where
  "status_line code =
     (if code = 200 then ''HTTP/1.1 200 OK''
      else if code = 404 then ''HTTP/1.1 404 Not Found''
      else if code = 503 then ''HTTP/1.1 503 Service Unavailable''
      else if code = 400 then ''HTTP/1.1 400 Bad Request''
      else if code = 500 then ''HTTP/1.1 500 Internal Server Error''
      else ''HTTP/1.1 '' @ go_itoa code @ '' '' @ status_text code)"

definition response_bytes :: "int \<Rightarrow> bool \<Rightarrow> string \<Rightarrow> string" where
  "response_bytes code close body =
     status_line code @ crlf @ ''Content-Type: application/json'' @ crlf @ ''Content-Length: '' @
     go_itoa (int (length body)) @ (if close then crlf @ ''Connection: close'' else []) @ crlf2 @ body"

definition conn_write :: "string \<Rightarrow> rawResponse \<Rightarrow> rawResponse" where
  "conn_write b w =
     w\<lparr>sent := sent w @ [b], werr := (case peer w of [] \<Rightarrow> False | f # _ \<Rightarrow> f), peer := tl (peer w)\<rparr>"

definition writeResponse :: "int \<Rightarrow> string \<Rightarrow> rawResponse \<Rightarrow> rawResponse" where
  "writeResponse code body w =
     (let b = response_bytes code (closeAfter w) body; w = w\<lparr>out := b\<rparr> in
      if \<not> werr w then conn_write b w else w)"

definition WriteHeader :: "int \<Rightarrow> rawResponse \<Rightarrow> rawResponse" where
  "WriteHeader code w = w\<lparr>pendingCode := code\<rparr>"

definition raw_Write :: "string \<Rightarrow> rawResponse \<Rightarrow> (nat \<times> bool) \<times> rawResponse" where
  "raw_Write b w =
     (let code = (if pendingCode w = 0 then 200 else pendingCode w);
          w = writeResponse code b w
      in ((length b, werr w), w))"

section \<open>The handlers' view: either server's writer\<close>

text \<open>The stock writer keeps a header map, the status of the first \<open>WriteHeader\<close>, and the body written.\<close>

record stdResponse =
  std_header :: "string \<rightharpoonup> string"
  std_code :: "int option"
  std_body :: string

datatype writer = Raw rawResponse | Std stdResponse

definition std_new :: stdResponse where
  "std_new = \<lparr>std_header = Map.empty, std_code = None, std_body = []\<rparr>"

definition std_WriteHeader :: "int \<Rightarrow> stdResponse \<Rightarrow> stdResponse" where
  "std_WriteHeader code w = (if std_code w = None then w\<lparr>std_code := Some code\<rparr> else w)"

definition std_Write :: "string \<Rightarrow> stdResponse \<Rightarrow> stdResponse" where
  "std_Write b w = (let w = std_WriteHeader 200 w in w\<lparr>std_body := std_body w @ b\<rparr>)"

definition writeJSONUncounted :: "int \<Rightarrow> string \<Rightarrow> writer \<Rightarrow> writer" where
  "writeJSONUncounted code body w =
     (case w of
        Raw rw \<Rightarrow> Raw (writeResponse code body rw)
      | Std sw \<Rightarrow>
          let sw = sw\<lparr>std_header := (std_header sw)(''Content-Type'' \<mapsto> ''application/json'')\<rparr>;
              sw = sw\<lparr>std_header := (std_header sw)(''Content-Length'' \<mapsto> go_itoa (int (length body)))\<rparr>
          in Std (std_Write body (std_WriteHeader code sw)))"

section \<open>A client that frames by Content-Length\<close>

text \<open>The status line's code, then the headers read as in \<open>header_loop\<close>, then exactly the announced number of
  bytes; the result is the code, whether the connection stays open, the body, and what follows.\<close>

definition read_response :: "string \<Rightarrow> (nat \<times> bool \<times> string \<times> string) option" where
  "read_response s =
     (case index_str s crlf2 of
        None \<Rightarrow> None
      | Some i \<Rightarrow>
          let head = take i s; l = line_end head; body = drop (i + 4) s in
          if take 9 head \<noteq> ''HTTP/1.1 '' then None
          else case (digits_val 0 (take 3 (drop 9 head)), header_loop (drop (l + 2) head) (0, True)) of
                 (Some code, Inr (n, keep)) \<Rightarrow>
                   if length body < n then None else Some (code, keep, take n body, drop n body)
               | _ \<Rightarrow> None)"

fun read_responses :: "nat \<Rightarrow> string \<Rightarrow> (nat \<times> bool \<times> string) list option" where
  "read_responses 0 s = (if s = [] then Some [] else None)"
| "read_responses (Suc k) s =
     (case read_response s of
        None \<Rightarrow> None
      | Some (code, keep, body, rest) \<Rightarrow>
          map_option (\<lambda>rs. (code, keep, body) # rs) (read_responses k rest))"

section \<open>Lemmas\<close>

lemma go_itoa_nat [simp]: "go_itoa (int n) = dec_digits n"
  by (simp add: go_itoa_def)

lemma plain_digits: "CHR 0x0D \<notin> set (dec_digits n)"
proof
  assume "CHR 0x0D \<in> set (dec_digits n)"
  then have "is_digit (CHR 0x0D)" by (rule dec_digits_digits)
  then show False by (simp add: is_digit_def digit_val_def)
qed

lemma digits_not_ows: "c \<in> set (dec_digits n) \<Longrightarrow> \<not> is_ows c"
  using dec_digits_digits [of c n] by (auto simp: is_ows_def is_digit_def digit_val_def)

lemma dropWhile_none: "(\<And>c. c \<in> set xs \<Longrightarrow> \<not> P c) \<Longrightarrow> dropWhile P xs = xs"
  by (cases xs) auto

lemma trimmed_digits [simp]: "trimmed (CHR '' '' # dec_digits n) = dec_digits n"
proof -
  have "dropWhile is_ows (CHR '' '' # dec_digits n) = dec_digits n"
    using dropWhile_none [of "dec_digits n" is_ows] digits_not_ows by (auto simp: is_ows_def)
  moreover have "dropWhile is_ows (rev (dec_digits n)) = rev (dec_digits n)"
    using digits_not_ows by (intro dropWhile_none) auto
  ultimately show ?thesis by (simp add: trimmed_def)
qed

lemma content_length_dec: "n < 10 ^ 9 \<Longrightarrow> content_length (dec_digits n) = Some n"
  using dec_digits_length [of n 9] by (simp add: content_length_def digits_val_dec)

lemma header_line_length:
  "n < 10 ^ 9 \<Longrightarrow> header_line (''Content-Length: '' @ dec_digits n) st = Inr (n, snd st)"
  by (simp add: header_line_eq asciiEqualFold_def Let_def content_length_dec)

lemma header_line_type: "header_line ''Content-Type: application/json'' st = Inr st"
  by (simp add: header_line_eq asciiEqualFold_def Let_def)

lemma header_line_close: "header_line ''Connection: close'' st = Inr (fst st, False)"
  by (simp add: header_line_eq asciiEqualFold_def Let_def trimmed_def is_ows_def)

definition response_lines :: "int \<Rightarrow> bool \<Rightarrow> nat \<Rightarrow> string list" where
  "response_lines code close n =
     status_line code # ''Content-Type: application/json'' # (''Content-Length: '' @ dec_digits n) #
       (if close then [''Connection: close''] else [])"

lemma response_bytes_lines:
  "response_bytes code close body = join_lines (response_lines code close (length body)) @ crlf2 @ body"
  by (simp add: response_bytes_def response_lines_def)


lemma status_text_plain: "CHR 0x0D \<notin> set (status_text code)"
proof -
  have "\<forall>(c, t) \<in> set status_texts. CHR 0x0D \<notin> set t"
    by (simp add: status_texts_def)
  moreover have "map_of status_texts code = Some t \<Longrightarrow> (code, t) \<in> set status_texts" for t
    by (rule map_of_SomeD)
  ultimately show ?thesis
    by (fastforce simp: status_text_def split: option.splits)
qed

lemma dec_digits_three:
  assumes "100 \<le> n" "n \<le> 999"
  shows "length (dec_digits n) = 3"
proof -
  have "n div 10 \<ge> 10" "n div 10 div 10 < 10" using assms by auto
  then show ?thesis
    using assms by (simp add: dec_digits.simps [of n] dec_digits.simps [of "n div 10"]
      dec_digits.simps [of "n div 10 div 10"])
qed

lemma dec_digits_codes:
  "dec_digits 200 = ''200''" "dec_digits 404 = ''404''" "dec_digits 503 = ''503''"
  "dec_digits 400 = ''400''" "dec_digits 500 = ''500''"
  by code_simp+

lemma status_line_shape:
  assumes "0 \<le> code"
  obtains t where "status_line code = ''HTTP/1.1 '' @ dec_digits (nat code) @ CHR '' '' # t"
    "CHR 0x0D \<notin> set t"
proof -
  note d = dec_digits_codes
  consider "code = 200" | "code = 404" | "code = 503" | "code = 400" | "code = 500"
    | "code \<noteq> 200" "code \<noteq> 404" "code \<noteq> 503" "code \<noteq> 400" "code \<noteq> 500" by blast
  then show thesis
  proof cases
    case 1
    then show thesis using that [of "''OK''"] by (simp add: status_line_def d)
  next
    case 2
    then show thesis using that [of "''Not Found''"] by (simp add: status_line_def d)
  next
    case 3
    then show thesis using that [of "''Service Unavailable''"] by (simp add: status_line_def d)
  next
    case 4
    then show thesis using that [of "''Bad Request''"] by (simp add: status_line_def d)
  next
    case 5
    then show thesis using that [of "''Internal Server Error''"] by (simp add: status_line_def d)
  next
    case 6
    then show thesis
      using that [of "status_text code"] assms status_text_plain [of code]
      by (simp add: status_line_def go_itoa_def)
  qed
qed

lemma response_lines_plain:
  assumes "0 \<le> code"
  shows "\<forall>l \<in> set (response_lines code close n). plain_line l"
proof -
  obtain t where "status_line code = ''HTTP/1.1 '' @ dec_digits (nat code) @ CHR '' '' # t" "CHR 0x0D \<notin> set t"
    using status_line_shape [OF assms] by blast
  then show ?thesis
    using plain_digits by (auto simp: response_lines_def plain_line_def)
qed

text \<open>One response followed by anything reads back as it was written.\<close>

lemma read_response_bytes:
  assumes code: "100 \<le> code" "code \<le> 999" and len: "length body < 10 ^ 9"
  shows "read_response (response_bytes code close body @ t) = Some (nat code, \<not> close, body, t)"
proof -
  let ?ls = "response_lines code close (length body)"
  obtain u where st: "status_line code = ''HTTP/1.1 '' @ dec_digits (nat code) @ CHR '' '' # u"
      "CHR 0x0D \<notin> set u"
    using status_line_shape [of code] code by auto
  have three: "length (dec_digits (nat code)) = 3"
    using code by (intro dec_digits_three) auto
  have plain: "\<forall>l \<in> set ?ls. plain_line l"
    using code by (intro response_lines_plain) auto
  have s: "response_bytes code close body @ t = join_lines ?ls @ crlf2 @ body @ t"
    by (simp add: response_bytes_lines)
  have end_at: "index_str (response_bytes code close body @ t) crlf2 = Some (length (join_lines ?ls))"
    unfolding s using plain by (intro index_head_end) (simp_all add: response_lines_def)
  obtain hs where ls: "?ls = status_line code # hs" "hs \<noteq> []"
    and hs: "hs = ''Content-Type: application/json'' # (''Content-Length: '' @ dec_digits (length body)) #
       (if close then [''Connection: close''] else [])"
    by (simp add: response_lines_def)
  have cr: "CHR 0x0D \<notin> set (status_line code)" and plain': "\<forall>l \<in> set hs. plain_line l"
    using plain unfolding ls by (simp_all add: plain_line_def)
  have le: "line_end (join_lines ?ls) = length (status_line code)"
    unfolding ls using cr by (rule line_end_join)
  have rest: "drop (length (status_line code) + 2) (join_lines ?ls) = join_lines hs"
    using ls(2) by (simp add: ls(1) join_lines_Cons)
  have "header_lines hs (0, True) = Inr (length body, \<not> close)"
    unfolding hs using len header_line_type header_line_length header_line_close by simp
  then have hdrs: "header_loop (join_lines hs) (0, True) = Inr (length body, \<not> close)"
    using header_loop_lines [OF plain'] by simp
  have head: "take 9 (join_lines ?ls) = ''HTTP/1.1 ''"
      "take 3 (drop 9 (join_lines ?ls)) = dec_digits (nat code)"
    using three ls(2) by (simp_all add: ls(1) join_lines_Cons st(1))
  show ?thesis
    unfolding read_response_def end_at
    by (simp add: s Let_def le rest [unfolded add_2_eq_Suc'] hdrs head digits_val_dec)
qed

lemma read_responses_bytes:
  assumes "\<forall>(code, close, body) \<in> set rs. 100 \<le> code \<and> code \<le> 999 \<and> length body < 10 ^ 9"
  shows "read_responses (length rs) (concat (map (\<lambda>(code, close, body). response_bytes code close body) rs)) =
    Some (map (\<lambda>(code, close, body). (nat code, \<not> close, body)) rs)"
  using assms
proof (induction rs)
  case (Cons r rs)
  obtain code close body where r: "r = (code, close, body)" by (cases r)
  with Cons show ?case by (simp add: read_response_bytes)
qed simp


lemma writeResponse_facts [simp]:
  "closeAfter (writeResponse code body w) = closeAfter w"
  "pendingCode (writeResponse code body w) = pendingCode w"
  "\<not> werr w \<Longrightarrow> sent (writeResponse code body w) = sent w @ [response_bytes code (closeAfter w) body]"
  "\<not> werr w \<Longrightarrow> peer w = [] \<Longrightarrow> \<not> werr (writeResponse code body w) \<and> peer (writeResponse code body w) = []"
  by (simp_all add: writeResponse_def conn_write_def Let_def)

end
