(* ===== verification/Raw_Http.thy ===== *)
theory Raw_Http
  imports Raw_Response
begin

text \<open>
  The request loop of \<open>serveRawConn\<close>: read a head, parse it, frame the body, call the handler of the path, and
  go on or close. The handlers are an argument here (the theory \<open>Handlers\<close> supplies the program's). The
  loop is refined to \<open>stream_loop\<close>, which sees only the byte stream; the rest of the theory is about that.
\<close>

record request =
  Method :: string
  Path :: string
  RawQuery :: string
  Body :: string

type_synonym 's handler = "request \<Rightarrow> rawResponse \<Rightarrow> 's \<Rightarrow> rawResponse \<times> 's"

section \<open>The loop\<close>

text \<open>The body behind the head: the limit, the reads, the slice.\<close>

definition read_body :: "raw_head \<Rightarrow> conn \<Rightarrow> conn_end + (request \<times> bool \<times> conn)" where
  "read_body h c =
     (if rawBodyLimit < hd_length h then Inl BodyTooLong
      else case body_loop (hd_length h) c of
             Inl e \<Rightarrow> Inl e
           | Inr c \<Rightarrow>
               on_ok (if 0 < hd_length h then slice_of (rbuf c) (rd c) (rd c + hd_length h) else Inr []) (\<lambda>body.
                 Inr (\<lparr>Method = hd_method h, Path = hd_path h, RawQuery = hd_query h, Body = body\<rparr>,
                      hd_keep_alive h, advance (hd_length h) c)))"

text \<open>From the top of the loop to the dispatch: the request, the keep-alive decision, and the connection
  behind the request.\<close>

definition read_request :: "conn \<Rightarrow> conn_end + (request \<times> bool \<times> conn)" where
  "read_request c =
     (case head_loop c of
        Inl e \<Rightarrow> Inl e
      | Inr (headEnd, c) \<Rightarrow>
          on_ok (slice_of (rbuf c) (rd c) (rd c + headEnd)) (\<lambda>head.
          on_ok (parse_head head) (\<lambda>h. read_body h (advance (headEnd + 4) c))))"

lemma head_loop_size:
  "head_loop c = Inr (i, c') \<Longrightarrow> conn_size c' \<le> conn_size c \<and> i + 4 \<le> length (live c')"
proof (induction c rule: head_loop.induct)
  case (1 c)
  show ?case
  proof (cases "window c")
    case None
    with "1.prems" show ?thesis by (simp add: head_loop.simps)
  next
    case (Some v)
    then have v: "v = live c" by (auto dest: window_Some)
    show ?thesis
    proof (cases "index_str v crlf2")
      case None
      with Some "1.prems" obtain c1 where f: "fill c = Some (True, c1)" "head_loop c1 = Inr (i, c')"
        by (auto simp: head_loop.simps [of c] split: option.splits if_splits)
      then show ?thesis
        using "1.IH" [OF Some None f(1) refl] fill_facts(5) [OF f(1)] by auto
    next
      case (Some j)
      with \<open>window c = Some v\<close> "1.prems" v show ?thesis
        by (auto simp: head_loop.simps dest: index_str_bound)
    qed
  qed
qed

lemma body_loop_size: "body_loop n c = Inr c' \<Longrightarrow> conn_size c' \<le> conn_size c"
proof (induction n c rule: body_loop.induct)
  case (1 n c)
  show ?case
  proof (cases "wr c < rd c + n")
    case True
    with "1.prems" obtain c1 where f: "fill c = Some (True, c1)" "body_loop n c1 = Inr c'"
      by (auto simp: body_loop.simps [of n c] split: option.splits if_splits)
    then show ?thesis
      using "1.IH" [OF True f(1) refl] fill_facts(5) [OF f(1)] by auto
  next
    case False
    with "1.prems" show ?thesis by (simp add: body_loop.simps)
  qed
qed

lemma advance_size: "conn_size (advance n c) \<le> conn_size c"
  by (simp add: advance_def conn_size_def)

lemma advance_size_less: "0 < n \<Longrightarrow> n \<le> length (live c) \<Longrightarrow> conn_size (advance n c) < conn_size c"
  by (auto simp: advance_def conn_size_def live_def)

lemma read_body_size: "read_body h c = Inr (q, ka, c') \<Longrightarrow> conn_size c' \<le> conn_size c"
proof -
  assume "read_body h c = Inr (q, ka, c')"
  then obtain c2 where "body_loop (hd_length h) c = Inr c2" "c' = advance (hd_length h) c2"
    by (cases "body_loop (hd_length h) c") (auto simp: read_body_def on_ok_Inr split: if_split_asm)
  then show ?thesis
    using body_loop_size [of "hd_length h" c c2] advance_size [of "hd_length h" c2] by simp
qed

lemma read_request_size: "read_request c = Inr (q, ka, c') \<Longrightarrow> conn_size c' < conn_size c"
proof -
  assume "read_request c = Inr (q, ka, c')"
  then obtain i c1 h where "head_loop c = Inr (i, c1)" "read_body h (advance (i + 4) c1) = Inr (q, ka, c')"
    by (auto simp: read_request_def on_ok_Inr split: sum.splits)
  then show ?thesis
    using head_loop_size [of c i c1] read_body_size [of h "advance (i + 4) c1" q ka c']
      advance_size_less [of "i + 4" c1] by fastforce
qed

function raw_loop :: "'s handler \<Rightarrow> conn \<Rightarrow> rawResponse \<Rightarrow> 's \<Rightarrow> conn_end \<times> rawResponse \<times> 's" where
  "raw_loop handle c resp s =
     (case read_request c of
        Inl e \<Rightarrow> (e, resp, s)
      | Inr (req, keepAlive, c') \<Rightarrow>
          let (resp, s) = handle req (resp\<lparr>closeAfter := \<not> keepAlive, pendingCode := 0\<rparr>) s in
          if werr resp then (WriteFailed, resp, s)
          else if closeAfter resp then (CloseRequested, resp, s)
          else raw_loop handle c' resp s)"
  by pat_completeness auto
termination
  by (relation "measure (\<lambda>(_, c, _, _). conn_size c)") (auto dest: read_request_size)

declare raw_loop.simps [simp del]

definition raw_new :: "bool list \<Rightarrow> rawResponse" where
  "raw_new peer_fails =
     \<lparr>out = [], closeAfter = False, pendingCode = 0, werr = False, sent = [], peer = peer_fails\<rparr>"

section \<open>The same on the byte stream\<close>

definition stream_request :: "string \<Rightarrow> conn_end + (request \<times> bool \<times> string)" where
  "stream_request s =
     (case head_end s of
        None \<Rightarrow> Inl HeadUnfinished
      | Some i \<Rightarrow>
          (case parse_head (take i s) of
             Inl e \<Rightarrow> Inl e
           | Inr h \<Rightarrow>
               let n = hd_length h; t = drop (i + 4) s in
               if rawBodyLimit < n then Inl BodyTooLong
               else if length t < n then Inl BodyUnfinished
               else Inr (\<lparr>Method = hd_method h, Path = hd_path h, RawQuery = hd_query h, Body = take n t\<rparr>,
                      hd_keep_alive h, drop n t)))"

lemma stream_request_end: "stream_request s = Inl e \<Longrightarrow> e \<notin> {Panicked, WriteFailed, CloseRequested}"
  by (auto simp: stream_request_def Let_def dest: parse_head_end split: option.splits sum.splits if_splits)

lemma stream_request_shorter: "stream_request s = Inr (q, ka, t) \<Longrightarrow> length t < length s"
  by (auto simp: stream_request_def head_end_def Let_def split: option.splits sum.splits if_splits
      dest!: index_str_bound)

function stream_loop :: "'s handler \<Rightarrow> string \<Rightarrow> rawResponse \<Rightarrow> 's \<Rightarrow> conn_end \<times> rawResponse \<times> 's" where
  "stream_loop handle t resp s =
     (case stream_request t of
        Inl e \<Rightarrow> (e, resp, s)
      | Inr (req, keepAlive, t') \<Rightarrow>
          let (resp, s) = handle req (resp\<lparr>closeAfter := \<not> keepAlive, pendingCode := 0\<rparr>) s in
          if werr resp then (WriteFailed, resp, s)
          else if closeAfter resp then (CloseRequested, resp, s)
          else stream_loop handle t' resp s)"
  by pat_completeness auto
termination
  by (relation "measure (\<lambda>(_, t, _, _). length t)") (auto dest: stream_request_shorter)

declare stream_loop.simps [simp del]

text \<open>On a window within the buffer a slice of the buffer is a slice of the stream.\<close>

lemma slice_live:
  assumes "conn_ok c" "n \<le> length (live c)"
  shows "slice_of (rbuf c) (rd c) (rd c + n) = Inr (take n (pending c))"
proof -
  have "length (live c) = wr c - rd c"
    using assms(1) by (simp add: length_live conn_ok_def)
  with assms have "slice_of (rbuf c) (rd c) (rd c + n) = Inr (take n (drop (rd c) (rbuf c)))" "n \<le> wr c - rd c"
    by (auto simp: conn_ok_def)
  moreover have "take n (live c) = take n (drop (rd c) (rbuf c))"
    using \<open>n \<le> wr c - rd c\<close> by (simp add: live_def min_def)
  ultimately show ?thesis using assms(2) by (simp add: pending_def)
qed

lemma read_request_stream:
  assumes "conn_ok c"
  shows "(case stream_request (pending c) of
            Inl e \<Rightarrow> read_request c = Inl e
          | Inr (q, ka, t) \<Rightarrow> \<exists>c'. read_request c = Inr (q, ka, c') \<and> conn_ok c' \<and> pending c' = t)"
proof (cases "head_end (pending c)")
  case None
  then show ?thesis
    using head_loop_stream [OF assms] by (simp add: stream_request_def read_request_def read_body_def)
next
  case (Some i)
  then obtain c1 where c1: "head_loop c = Inr (i, c1)" "conn_ok c1" "pending c1 = pending c"
      "i + 4 \<le> length (live c1)"
    using head_loop_stream [OF assms] by auto
  have head: "slice_of (rbuf c1) (rd c1) (rd c1 + i) = Inr (take i (pending c))"
    unfolding c1(3) [symmetric] using c1(4) by (intro slice_live [OF c1(2)]) simp
  show ?thesis
  proof (cases "parse_head (take i (pending c))")
    case (Inl e)
    with Some c1 head show ?thesis by (simp add: stream_request_def read_request_def read_body_def)
  next
    case (Inr h)
    let ?n = "hd_length h" and ?c2 = "advance (i + 4) c1"
    have c2: "conn_ok ?c2" "pending ?c2 = drop (i + 4) (pending c)"
      using advance_facts [OF c1(2,4)] c1(3) by auto
    show ?thesis
    proof (cases "rawBodyLimit < ?n")
      case True
      with Some c1 head Inr show ?thesis by (simp add: stream_request_def read_request_def read_body_def)
    next
      case False
      then have n: "?n \<le> rawBodyLimit" by simp
      show ?thesis
      proof (cases "?n \<le> length (pending ?c2)")
        case True
        then obtain c3 where c3: "body_loop ?n ?c2 = Inr c3" "conn_ok c3" "pending c3 = pending ?c2"
            "?n \<le> length (live c3)"
          using body_loop_stream [OF c2(1) n] by auto
        have "(if 0 < ?n then slice_of (rbuf c3) (rd c3) (rd c3 + ?n) else Inr []) = Inr (take ?n (pending ?c2))"
          using slice_live [OF c3(2,4)] by (simp add: c3(3))
        with advance_facts [OF c3(2,4)] c3 c2 Some c1 head Inr False True show ?thesis
          by (simp add: stream_request_def read_request_def read_body_def Let_def)
      next
        case short: False
        then have "body_loop ?n ?c2 = Inl BodyUnfinished"
          using body_loop_stream [OF c2(1) n] by auto
        with c2 Some c1 head Inr False short show ?thesis
          by (auto simp: stream_request_def read_request_def read_body_def Let_def)
      qed
    qed
  qed
qed

lemma raw_loop_stream:
  "conn_ok c \<Longrightarrow> raw_loop handle c resp s = stream_loop handle (pending c) resp s"
proof (induction handle c resp s rule: raw_loop.induct)
  case (1 handle c resp s)
  note step = read_request_stream [OF "1.prems"]
  show ?case
  proof (cases "stream_request (pending c)")
    case (Inl e)
    with step show ?thesis
      by (subst raw_loop.simps, subst stream_loop.simps) simp
  next
    case (Inr a)
    then obtain q ka t c' where a: "stream_request (pending c) = Inr (q, ka, t)"
        and r: "read_request c = Inr (q, ka, c')" "conn_ok c'" "pending c' = t"
      using step by (cases a) auto
    obtain resp' s' where h: "handle q (resp\<lparr>closeAfter := \<not> ka, pendingCode := 0\<rparr>) s = (resp', s')"
      by (metis surj_pair)
    show ?thesis
      using "1.IH" [OF r(1) refl refl h [symmetric] refl _ _ r(2)] r a h
      by (subst raw_loop.simps, subst stream_loop.simps) simp
  qed
qed


section \<open>Handlers that answer once\<close>

text \<open>What the loop needs of its handlers: each writes one response, of a registered kind of status and a
  bounded body, and touches nothing else of the writer.\<close>

type_synonym 's answerer = "request \<Rightarrow> 's \<Rightarrow> (int \<times> string) \<times> 's"

text \<open>The responses a connection gets when no write fails: one per request up to the first defect of the
  stream or the first request that closes.\<close>

function serve :: "'s answerer \<Rightarrow> string \<Rightarrow> 's \<Rightarrow> conn_end \<times> (int \<times> bool \<times> string) list \<times> 's" where
  "serve answer t s =
     (case stream_request t of
        Inl e \<Rightarrow> (e, [], s)
      | Inr (q, ka, t') \<Rightarrow>
          let ((code, body), s) = answer q s in
          if \<not> ka then (CloseRequested, [(code, True, body)], s)
          else let (e, rs, s) = serve answer t' s in (e, (code, False, body) # rs, s))"
  by pat_completeness auto
termination
  by (relation "measure (\<lambda>(_, t, _). length t)") (auto dest: stream_request_shorter)

declare serve.simps [simp del]

definition response_text :: "int \<times> bool \<times> string \<Rightarrow> string" where
  "response_text r = (case r of (code, close, body) \<Rightarrow> response_bytes code close body)"

locale responder =
  fixes handle :: "'s handler" and answer :: "'s answerer"
  assumes handle_answer:
      "answer q s = ((code, body), s') \<Longrightarrow> handle q resp s = (writeResponse code body resp, s')"
    and answer_code: "100 \<le> fst (fst (answer q s)) \<and> fst (fst (answer q s)) \<le> 999"
begin

lemma stream_loop_serve:
  "\<not> werr resp \<Longrightarrow> peer resp = [] \<Longrightarrow> serve answer t s = (e, rs, s') \<Longrightarrow>
     \<exists>resp'. stream_loop handle t resp s = (e, resp', s') \<and>
       sent resp' = sent resp @ map response_text rs"
proof (induction t arbitrary: s resp e rs s' rule: length_induct)
  case (1 t)
  show ?case
  proof (cases "stream_request t")
    case (Inl e')
    with "1.prems" show ?thesis
      by (subst stream_loop.simps) (simp add: serve.simps)
  next
    case (Inr a)
    then obtain q ka t' where a: "stream_request t = Inr (q, ka, t')" by (cases a) auto
    obtain code body s1 where an: "answer q s = ((code, body), s1)" by (metis surj_pair)
    define resp1 where "resp1 = writeResponse code body (resp\<lparr>closeAfter := \<not> ka, pendingCode := 0\<rparr>)"
    have h: "handle q (resp\<lparr>closeAfter := \<not> ka, pendingCode := 0\<rparr>) s = (resp1, s1)"
      using an by (simp add: handle_answer resp1_def)
    have r1: "\<not> werr resp1" "peer resp1 = []" "closeAfter resp1 = (\<not> ka)"
        "sent resp1 = sent resp @ [response_text (code, \<not> ka, body)]"
      using "1.prems"(1,2) by (simp_all add: resp1_def response_text_def)
    show ?thesis
    proof (cases ka)
      case False
      with "1.prems"(3) a an h r1 show ?thesis
        by (subst stream_loop.simps) (auto simp: serve.simps)
    next
      case True
      obtain e' rs' s'' where sv: "serve answer t' s1 = (e', rs', s'')" by (metis prod_cases3)
      have "length t' < length t" using a by (rule stream_request_shorter)
      then obtain resp' where "stream_loop handle t' resp1 s1 = (e', resp', s'')"
          "sent resp' = sent resp1 @ map response_text rs'"
        using "1.IH" r1 sv by blast
      with "1.prems"(3) a an h r1 sv True show ?thesis
        by (subst stream_loop.simps) (auto simp: serve.simps [of answer t])
    qed
  qed
qed

text \<open>Under write failures the responses are a prefix of these, and a failed write is the last one.\<close>

lemma stream_loop_prefix:
  "\<not> werr resp \<Longrightarrow> serve answer t s = (e, rs, s') \<Longrightarrow> stream_loop handle t resp s = (e', resp', s2) \<Longrightarrow>
     \<exists>k \<le> length rs. sent resp' = sent resp @ map response_text (take k rs) \<and>
       (werr resp' \<longleftrightarrow> e' = WriteFailed)"
proof (induction t arbitrary: s resp e rs s' rule: length_induct)
  case (1 t)
  show ?case
  proof (cases "stream_request t")
    case (Inl e1)
    then have "e1 \<noteq> WriteFailed" by (auto dest: stream_request_end)
    with Inl "1.prems" show ?thesis
      by (subst (asm) stream_loop.simps) (auto simp: serve.simps)
  next
    case (Inr a)
    then obtain q ka t' where a: "stream_request t = Inr (q, ka, t')" by (cases a) auto
    obtain code body s1 where an: "answer q s = ((code, body), s1)" by (metis surj_pair)
    define resp1 where "resp1 = writeResponse code body (resp\<lparr>closeAfter := \<not> ka, pendingCode := 0\<rparr>)"
    have h: "handle q (resp\<lparr>closeAfter := \<not> ka, pendingCode := 0\<rparr>) s = (resp1, s1)"
      using an by (simp add: handle_answer resp1_def)
    have r1: "closeAfter resp1 = (\<not> ka)" "sent resp1 = sent resp @ [response_text (code, \<not> ka, body)]"
      using "1.prems"(1) by (simp_all add: resp1_def response_text_def)
    obtain e2 rs2 s2' where sv: "serve answer t' s1 = (e2, rs2, s2')" by (metis prod_cases3)
    have rs: "\<exists>rs0. rs = (code, \<not> ka, body) # rs0 \<and> (ka \<longrightarrow> rs0 = rs2)"
      using "1.prems"(2) a an sv by (auto simp: serve.simps [of answer t] split: if_splits)
    then obtain rs0 where rs0: "rs = (code, \<not> ka, body) # rs0" "ka \<longrightarrow> rs0 = rs2" by blast
    have step: "stream_loop handle t resp s =
        (if werr resp1 then (WriteFailed, resp1, s1)
         else if closeAfter resp1 then (CloseRequested, resp1, s1)
         else stream_loop handle t' resp1 s1)"
      using a h by (subst stream_loop.simps) simp
    show ?thesis
    proof (cases "werr resp1 \<or> closeAfter resp1")
      case True
      then have "resp' = resp1" "werr resp' \<longleftrightarrow> e' = WriteFailed"
        using step "1.prems"(3) by (auto split: if_splits)
      with r1 rs0 show ?thesis
        by (intro exI [of _ 1]) simp
    next
      case False
      then have go: "stream_loop handle t' resp1 s1 = (e', resp', s2)" "ka" "\<not> werr resp1"
        using step "1.prems"(3) r1 by auto
      have "length t' < length t" using a by (rule stream_request_shorter)
      then obtain k where "k \<le> length rs2" "sent resp' = sent resp1 @ map response_text (take k rs2)"
          "werr resp' \<longleftrightarrow> e' = WriteFailed"
        using "1.IH" go sv by blast
      with r1 rs0 go show ?thesis
        by (intro exI [of _ "Suc k"]) simp
    qed
  qed
qed

text \<open>A request that can be read is answered.\<close>

lemma stream_loop_answers:
  assumes r: "stream_request t = Inr (q, ka, t')" and "\<not> werr resp"
  shows "sent (fst (snd (stream_loop handle t resp s))) \<noteq> []"
proof -
  obtain code body s1 where an: "answer q s = ((code, body), s1)" by (metis surj_pair)
  define resp1 where "resp1 = writeResponse code body (resp\<lparr>closeAfter := \<not> ka, pendingCode := 0\<rparr>)"
  have h: "handle q (resp\<lparr>closeAfter := \<not> ka, pendingCode := 0\<rparr>) s = (resp1, s1)"
    using an by (simp add: handle_answer resp1_def)
  have sent1: "sent resp1 \<noteq> []" using assms(2) by (simp add: resp1_def)
  obtain e rs s' where sv: "serve answer t' s1 = (e, rs, s')" by (metis prod_cases3)
  obtain e' resp' s2 where lp: "stream_loop handle t' resp1 s1 = (e', resp', s2)" by (metis prod_cases3)
  have "\<not> werr resp1 \<Longrightarrow> sent resp' \<noteq> []"
    using stream_loop_prefix [OF _ sv lp] sent1 by auto
  then show ?thesis
    using sent1 lp by (subst stream_loop.simps) (simp add: r h)
qed

lemma serve_codes:
  "serve answer t s = (e, rs, s') \<Longrightarrow> r \<in> set rs \<Longrightarrow> 100 \<le> fst r \<and> fst r \<le> 999"
proof (induction t arbitrary: s e rs s' rule: length_induct)
  case (1 t)
  show ?case
  proof (cases "stream_request t")
    case (Inr a)
    then obtain q ka t' where a: "stream_request t = Inr (q, ka, t')" by (cases a) auto
    obtain code body s1 where an: "answer q s = ((code, body), s1)" by (metis surj_pair)
    obtain e2 rs2 s2 where sv: "serve answer t' s1 = (e2, rs2, s2)" by (metis prod_cases3)
    have "length t' < length t" using a by (rule stream_request_shorter)
    then have IH: "r \<in> set rs2 \<Longrightarrow> 100 \<le> fst r \<and> fst r \<le> 999"
      using "1.IH" sv by blast
    have "fst r = code \<or> r \<in> set rs2"
      using "1.prems" a an sv by (auto simp: serve.simps [of answer t] split: if_splits)
    with IH an answer_code [of q s] show ?thesis by auto
  qed (use "1.prems" in \<open>simp add: serve.simps\<close>)
qed

end


section \<open>Requests as a client writes them\<close>

definition target_of :: "request \<Rightarrow> string" where
  "target_of q = Path q @ (if RawQuery q = [] then [] else CHR ''?'' # RawQuery q)"

definition request_head :: "request \<Rightarrow> string list \<Rightarrow> string list" where
  "request_head q hs =
     (Method q @ CHR '' '' # target_of q @ CHR '' '' # ''HTTP/1.1'') # hs"

definition request_text :: "request \<Rightarrow> string list \<Rightarrow> string" where
  "request_text q hs = join_lines (request_head q hs) @ crlf2 @ Body q"

text \<open>A request and its header lines are well formed when the head fits the buffer, the lines are lines, the
  headers announce the body's length, and the body is within the limit; \<open>keep\<close> is what they say about the
  connection.\<close>

definition request_wf :: "request \<Rightarrow> string list \<Rightarrow> bool \<Rightarrow> bool" where
  "request_wf q hs keep \<longleftrightarrow>
     CHR '' '' \<notin> set (Method q) \<and> CHR ''?'' \<notin> set (Path q) \<and>
     CHR 0x0D \<notin> set (Method q) \<and> CHR 0x0D \<notin> set (Path q) \<and> CHR 0x0D \<notin> set (RawQuery q) \<and>
     (\<forall>h \<in> set hs. plain_line h) \<and> header_lines hs (0, True) = Inr (length (Body q), keep) \<and>
     length (join_lines (request_head q hs)) + 4 \<le> rawReadBufSize \<and> length (Body q) \<le> rawBodyLimit"

lemma target_of_split: "CHR ''?'' \<notin> set (Path q) \<Longrightarrow> split_target (target_of q) = Inr (Path q, RawQuery q)"
  by (simp add: target_of_def split_target_query split_target_plain)

lemma stream_request_text:
  assumes "request_wf q hs keep"
  shows "stream_request (request_text q hs @ t) = Inr (q, keep, t)"
proof -
  let ?h = "join_lines (request_head q hs)"
  have plain: "plain_line (Method q @ CHR '' '' # target_of q @ CHR '' '' # ''HTTP/1.1'')"
      "\<forall>h \<in> set hs. plain_line h"
    using assms by (auto simp: request_wf_def plain_line_def target_of_def)
  then have "index_str (?h @ crlf2 @ Body q @ t) crlf2 = Some (length ?h)"
    by (intro index_head_end) (auto simp: request_head_def)
  then have head: "head_end (request_text q hs @ t) = Some (length ?h)"
    using assms by (simp add: head_end_def request_text_def request_wf_def)
  have tk: "take (length ?h) (request_text q hs @ t) = ?h"
      "drop (length ?h + 4) (request_text q hs @ t) = Body q @ t"
    by (simp_all add: request_text_def)
  have rl: "request_line (Method q @ CHR '' '' # target_of q @ CHR '' '' # ''HTTP/1.1'') =
      Inr (Method q, target_of q, ''HTTP/1.1'')"
    using assms by (intro request_line_words) (auto simp: request_wf_def)
  have "parse_head ?h = Inr \<lparr>hd_method = Method q, hd_path = Path q, hd_query = RawQuery q,
      hd_length = length (Body q), hd_keep_alive = keep\<rparr>"
    unfolding request_head_def parse_head_lines [OF plain] rl
    using assms by (simp add: version_keep_alive_def request_wf_def target_of_split)
  with head tk assms show ?thesis
    by (simp add: stream_request_def Let_def request_wf_def)
qed

text \<open>A pipeline: the texts of requests one after the other.\<close>

fun pipeline :: "(request \<times> string list \<times> bool) list \<Rightarrow> string" where
  "pipeline [] = []"
| "pipeline ((q, hs, keep) # qs) = request_text q hs @ pipeline qs"

fun serve_all :: "'s answerer \<Rightarrow> (request \<times> string list \<times> bool) list \<Rightarrow> 's \<Rightarrow>
    conn_end \<times> (int \<times> bool \<times> string) list \<times> 's" where
  "serve_all answer [] s = (HeadUnfinished, [], s)"
| "serve_all answer ((q, hs, keep) # qs) s =
     (let ((code, body), s) = answer q s in
      if \<not> keep then (CloseRequested, [(code, True, body)], s)
      else let (e, rs, s) = serve_all answer qs s in (e, (code, False, body) # rs, s))"

lemma stream_request_Nil: "stream_request [] = Inl HeadUnfinished"
  by (simp add: stream_request_def head_end_def crlf2_def crlf_def)

lemma serve_pipeline:
  "\<forall>(q, hs, keep) \<in> set qs. request_wf q hs keep \<Longrightarrow> serve answer (pipeline qs) s = serve_all answer qs s"
proof (induction qs arbitrary: s)
  case Nil
  show ?case by (simp add: serve.simps stream_request_Nil)
next
  case (Cons x qs)
  obtain q hs keep where x: "x = (q, hs, keep)" by (cases x)
  with Cons.prems have r: "stream_request (request_text q hs @ pipeline qs) = Inr (q, keep, pipeline qs)"
    by (intro stream_request_text) auto
  show ?case
    using Cons x by (simp add: serve.simps [of answer "request_text q hs @ pipeline qs"] r split_beta Let_def)
qed


section \<open>Requests that are rejected\<close>

lemma stream_loop_no_panic: "fst (stream_loop handle t resp s) \<noteq> Panicked"
proof (induction handle t resp s rule: stream_loop.induct)
  case (1 handle t resp s)
  show ?case
  proof (cases "stream_request t")
    case (Inl e)
    then have "e \<noteq> Panicked" using stream_request_end by blast
    with Inl show ?thesis by (simp add: stream_loop.simps)
  next
    case (Inr a)
    then obtain q ka t' where a: "stream_request t = Inr (q, ka, t')" by (cases a) auto
    obtain resp' s' where h: "handle q (resp\<lparr>closeAfter := \<not> ka, pendingCode := 0\<rparr>) s = (resp', s')"
      by (metis surj_pair)
    show ?thesis
      using "1.IH" [OF a refl refl h [symmetric] refl] by (subst stream_loop.simps) (simp add: a h)
  qed
qed

lemma stream_loop_rejected: "stream_request t = Inl e \<Longrightarrow> stream_loop handle t resp s = (e, resp, s)"
  by (simp add: stream_loop.simps)

end
