(* ===== verification/Go_Float.thy ===== *)
theory Go_Float
  imports Complex_Main
begin

text \<open>
  Go's \<open>float64\<close>, abstractly: its arithmetic, its comparisons, its texts and its parsing are the fields of a
  record, which the definitions that compute with floats take as an argument. What \<open>strconv\<close> and
  \<open>encoding/json\<close> document about the texts is \<open>float_contract\<close> in \<open>Price_Store\<close>; \<open>exact_float\<close> is the
  arithmetic of the reals.
\<close>

text \<open>\<open>flit\<close> rounds an exact constant or integer; \<open>g_text\<close> is \<open>strconv.AppendFloat(_, 'g', -1, 64)\<close>, \<open>json_text\<close>
  what \<open>json.Marshal\<close> writes for a finite number, \<open>parse_json\<close> the conversion of a JSON number (\<open>None\<close> when out
  of range).\<close>

record 'f float64 =
  fadd :: "'f \<Rightarrow> 'f \<Rightarrow> 'f"
  fsub :: "'f \<Rightarrow> 'f \<Rightarrow> 'f"
  fmul :: "'f \<Rightarrow> 'f \<Rightarrow> 'f"
  fdiv :: "'f \<Rightarrow> 'f \<Rightarrow> 'f"
  fless :: "'f \<Rightarrow> 'f \<Rightarrow> bool"
  fleq :: "'f \<Rightarrow> 'f \<Rightarrow> bool"
  fsqrt :: "'f \<Rightarrow> 'f"
  fsin :: "'f \<Rightarrow> 'f"
  flit :: "rat \<Rightarrow> 'f"
  ffinite :: "'f \<Rightarrow> bool"
  g_text :: "'f \<Rightarrow> string"
  json_text :: "'f \<Rightarrow> string"
  parse_json :: "string \<Rightarrow> 'f option"

text \<open>Exact arithmetic: the operations of the reals, with any texts.\<close>

definition exact_float :: "real float64 \<Rightarrow> bool" where
  "exact_float F \<longleftrightarrow>
     fadd F = (+) \<and> fsub F = (-) \<and> fmul F = (*) \<and> fdiv F = (/) \<and> fless F = (<) \<and> fleq F = (\<le>) \<and>
     fsqrt F = sqrt \<and> flit F = real_of_rat"

end
