(* ===== verification/Go_Utf8.thy ===== *)
theory Go_Utf8
  imports Go_Strings
begin

text \<open>
  What \<open>encoding/json\<close> uses of \<open>unicode/utf8\<close> and \<open>unicode/utf16\<close>: how many bytes of a valid sequence a string
  starts with, the encoding of a code point, surrogate pairs.
\<close>

abbreviation ord_of :: "char \<Rightarrow> nat" where
  "ord_of c \<equiv> of_char c"

definition in_range :: "nat \<Rightarrow> nat \<Rightarrow> char \<Rightarrow> bool" where
  "in_range lo hi c \<longleftrightarrow> lo \<le> ord_of c \<and> ord_of c \<le> hi"

definition is_cont :: "char \<Rightarrow> bool" where
  "is_cont c \<longleftrightarrow> in_range 128 191 c"

text \<open>The bytes of the multi-byte sequence at the head, if it is valid; \<open>utf8.DecodeRune\<close> reports
  \<open>RuneError\<close> with size 1 where this is \<open>None\<close>.\<close>

definition multi_len :: "string \<Rightarrow> nat option" where
  "multi_len s =
     (case s of
        a # b # t \<Rightarrow>
          if in_range 194 223 a then (if is_cont b then Some 2 else None)
          else if in_range 224 239 a then
            (let lo = (if ord_of a = 224 then 160 else 128); hi = (if ord_of a = 237 then 159 else 191) in
             case t of
               c # _ \<Rightarrow> if in_range lo hi b \<and> is_cont c then Some 3 else None
             | [] \<Rightarrow> None)
          else if in_range 240 244 a then
            (let lo = (if ord_of a = 240 then 144 else 128); hi = (if ord_of a = 244 then 143 else 191) in
             case t of
               c # d # _ \<Rightarrow> if in_range lo hi b \<and> is_cont c \<and> is_cont d then Some 4 else None
             | _ \<Rightarrow> None)
          else None
      | _ \<Rightarrow> None)"

lemma multi_len_bounds: "multi_len s = Some n \<Longrightarrow> 2 \<le> n \<and> n \<le> length s"
  by (auto simp: multi_len_def Let_def split: list.splits if_splits)

function valid_utf8 :: "string \<Rightarrow> bool" where
  "valid_utf8 [] = True"
| "valid_utf8 (c # cs) =
     (if ord_of c < 128 then valid_utf8 cs
      else case multi_len (c # cs) of None \<Rightarrow> False | Some n \<Rightarrow> valid_utf8 (drop (n - 1) cs))"
  by pat_completeness auto
termination
  by (relation "measure length") auto

text \<open>\<open>utf8.AppendRune\<close>: invalid code points become U+FFFD.\<close>

definition encode_rune :: "nat \<Rightarrow> string" where
  "encode_rune r =
     (if r < 128 then [char_of r]
      else if r < 2048 then [char_of (192 + r div 64), char_of (128 + r mod 64)]
      else if r \<ge> 1114112 \<or> 55296 \<le> r \<and> r \<le> 57343 then [CHR 0xEF, CHR 0xBF, CHR 0xBD]
      else if r < 65536 then
        [char_of (224 + r div 4096), char_of (128 + r div 64 mod 64), char_of (128 + r mod 64)]
      else
        [char_of (240 + r div 262144), char_of (128 + r div 4096 mod 64), char_of (128 + r div 64 mod 64),
         char_of (128 + r mod 64)])"

text \<open>\<open>utf16.IsSurrogate\<close> and \<open>utf16.DecodeRune\<close> (\<open>None\<close> for \<open>unicode.ReplacementChar\<close>).\<close>

definition is_surrogate :: "nat \<Rightarrow> bool" where
  "is_surrogate r \<longleftrightarrow> 55296 \<le> r \<and> r < 57344"

definition surrogate_pair :: "nat \<Rightarrow> nat \<Rightarrow> nat option" where
  "surrogate_pair r1 r2 =
     (if 55296 \<le> r1 \<and> r1 < 56320 \<and> 56320 \<le> r2 \<and> r2 < 57344
      then Some ((r1 - 55296) * 1024 + (r2 - 56320) + 65536)
      else None)"

definition replacement_char :: string where
  "replacement_char = [CHR 0xEF, CHR 0xBF, CHR 0xBD]"

section \<open>Lemmas\<close>

lemma code_char_of [simp]: "n < 256 \<Longrightarrow> ord_of (char_of n) = n"
  by (simp add: of_char_of)

lemma code_less: "ord_of c < 256"
  by (rule nat_of_char_less_256)

lemma valid_utf8_ascii: "ord_of c < 128 \<Longrightarrow> valid_utf8 (c # cs) = valid_utf8 cs"
  by simp

lemma multi_len_append: "multi_len s = Some n \<Longrightarrow> multi_len (s @ t) = Some n"
  by (auto simp: multi_len_def Let_def split: list.splits if_splits)

lemma valid_utf8_append: "valid_utf8 s \<Longrightarrow> valid_utf8 (s @ t) = valid_utf8 t"
proof (induction s rule: valid_utf8.induct)
  case (2 c cs)
  show ?case
  proof (cases "ord_of c < 128")
    case False
    with "2.prems" obtain n where n: "multi_len (c # cs) = Some n" "valid_utf8 (drop (n - 1) cs)"
      by (auto split: option.splits)
    have "multi_len (c # cs @ t) = Some n"
      using multi_len_append [OF n(1), of t] by simp
    moreover have "n - 1 \<le> length cs"
      using multi_len_bounds [OF n(1)] by auto
    ultimately show ?thesis
      using False n "2.IH"(2) [OF False n(1)] by simp
  qed (use 2 in simp)
qed simp

lemma valid_utf8_replacement: "valid_utf8 replacement_char"
  by (simp add: replacement_char_def multi_len_def in_range_def is_cont_def)

lemma valid_utf8_encode_rune: "valid_utf8 (encode_rune r)"
proof -
  consider "r < 128" | "128 \<le> r" "r < 2048" | "2048 \<le> r" "r \<ge> 1114112 \<or> 55296 \<le> r \<and> r \<le> 57343"
    | "2048 \<le> r" "r < 65536" "\<not> (55296 \<le> r \<and> r \<le> 57343)" | "65536 \<le> r" "r < 1114112"
    by linarith
  then show ?thesis
  proof cases
    case 1
    then show ?thesis by (simp add: encode_rune_def)
  next
    case 2
    then have "2 \<le> r div 64" "r div 64 < 32" by auto
    with 2 show ?thesis by (simp add: encode_rune_def multi_len_def in_range_def is_cont_def)
  next
    case 3
    then have "encode_rune r = replacement_char"
      by (auto simp: encode_rune_def replacement_char_def)
    then show ?thesis by (simp add: valid_utf8_replacement)
  next
    case 4
    have d: "r div 4096 < 16" "r div 64 = 64 * (r div 4096) + r div 64 mod 64"
      using 4 by (auto simp: div_mult2_eq [of r 64 64, simplified])
    have lo: "32 \<le> r div 64 mod 64" if "r div 4096 = 0"
      using d(2) 4 that by auto
    have hi: "r div 64 mod 64 < 32" if "r div 4096 = 13"
      using d(2) 4 that by auto
    show ?thesis
      using 4 d(1) lo hi by (auto simp: encode_rune_def multi_len_def in_range_def is_cont_def)
  next
    case 5
    have d: "r div 262144 < 5" "r div 4096 = 64 * (r div 262144) + r div 4096 mod 64"
      using 5 by (auto simp: div_mult2_eq [of r 4096 64, simplified])
    have lo: "16 \<le> r div 4096 mod 64" if "r div 262144 = 0"
      using d(2) 5 that by auto
    have hi: "r div 4096 mod 64 < 16" if "r div 262144 = 4"
      using d(2) 5 that by auto
    show ?thesis
      using 5 d(1) lo hi by (auto simp: encode_rune_def multi_len_def in_range_def is_cont_def)
  qed
qed


lemma multi_len_cases:
  assumes "multi_len s = Some n"
  obtains (two) a b u where "s = a # b # u" "n = 2"
  | (three) a b c u where "s = a # b # c # u" "n = 3"
  | (four) a b c d u where "s = a # b # c # d # u" "n = 4"
  using assms by (auto simp: multi_len_def Let_def split: list.splits if_splits)

lemma multi_len_take:
  assumes "multi_len s = Some n"
  shows "multi_len (take n s @ t) = Some n"
  using assms
proof (cases rule: multi_len_cases)
  case (two a b u)
  with assms show ?thesis by (auto simp: multi_len_def Let_def split: list.splits if_splits)
next
  case (three a b c u)
  with assms show ?thesis by (auto simp: multi_len_def Let_def split: list.splits if_splits)
next
  case (four a b c d u)
  with assms show ?thesis by (auto simp: multi_len_def Let_def split: list.splits if_splits)
qed

end
