(* ===== verification/Go_Url.thy ===== *)
theory Go_Url
  imports Go_Strings
begin

text \<open>
  What the program uses of \<open>net/url\<close>: \<open>URL.Query().Get\<close>, that is \<open>ParseQuery\<close> (pairs with a semicolon or a
  bad escape are dropped) and the first value of a key; and the program's shortcut \<open>symbolParam\<close>
  (\<open>src/app/main.go\<close>), which must agree with it. The limit of \<open>ParseQuery\<close> on the number of pairs is above what
  fits in the read buffer and left out.
\<close>

definition unhex :: "char \<Rightarrow> nat option" where
  "unhex c =
     (let n = (of_char c :: nat) in
      if 48 \<le> n \<and> n \<le> 57 then Some (n - 48)
      else if 97 \<le> n \<and> n \<le> 102 then Some (n - 97 + 10)
      else if 65 \<le> n \<and> n \<le> 70 then Some (n - 65 + 10)
      else None)"

text \<open>\<open>url.QueryUnescape\<close>; \<open>None\<close> is an escape error.\<close>

fun query_unescape :: "string \<Rightarrow> string option" where
  "query_unescape [] = Some []"
| "query_unescape (c # cs) =
     (if c = CHR ''%'' then
        (case cs of
           a # b # rest \<Rightarrow>
             (case (unhex a, unhex b) of
                (Some x, Some y) \<Rightarrow> map_option (\<lambda>s. char_of (16 * x + y) # s) (query_unescape rest)
              | _ \<Rightarrow> None)
         | _ \<Rightarrow> None)
      else map_option (\<lambda>s. (if c = CHR ''+'' then CHR '' '' else c) # s) (query_unescape cs))"

text \<open>\<open>strings.Cut\<close> at a byte.\<close>

definition cut :: "char \<Rightarrow> string \<Rightarrow> string \<times> string" where
  "cut c s = (case index_byte s c of Some i \<Rightarrow> (take i s, drop (i + 1) s) | None \<Rightarrow> (s, []))"

definition query_pair :: "string \<Rightarrow> (string \<times> string) option" where
  "query_pair p =
     (if CHR '';'' \<in> set p \<or> p = [] then None
      else case (query_unescape (fst (cut (CHR ''='') p)), query_unescape (snd (cut (CHR ''='') p))) of
             (Some k, Some v) \<Rightarrow> Some (k, v)
           | _ \<Rightarrow> None)"

definition parse_query :: "string \<Rightarrow> (string \<times> string) list" where
  "parse_query q = List.map_filter query_pair (split_byte (CHR ''&'') q)"

definition query_get :: "string \<Rightarrow> string \<Rightarrow> string" where
  "query_get q k = (case map_of (parse_query q) k of Some v \<Rightarrow> v | None \<Rightarrow> [])"

definition symbolParam :: "string \<Rightarrow> string" where
  "symbolParam q =
     (if has_prefix q ''symbol='' then
        let v = drop (length ''symbol='') q in
        if list_ex (\<lambda>c. c = CHR ''&'' \<or> c = CHR ''%'' \<or> c = CHR ''+'') v
        then query_get q ''symbol''
        else v
      else query_get q ''symbol'')"

section \<open>Lemmas\<close>

lemma query_unescape_plain:
  "CHR ''%'' \<notin> set s \<Longrightarrow> CHR ''+'' \<notin> set s \<Longrightarrow> query_unescape s = Some s"
  by (induction s) auto

lemma cut_first: "c \<notin> set k \<Longrightarrow> cut c (k @ c # v) = (k, v)"
proof -
  assume "c \<notin> set k"
  then have "index_byte (k @ c # v) c = Some (length k)" by (simp add: index_byte_Some)
  then show ?thesis by (simp add: cut_def)
qed

lemma query_pair_plain:
  assumes "CHR ''='' \<notin> set k" "\<forall>c \<in> set k \<union> set v. c \<noteq> CHR ''%'' \<and> c \<noteq> CHR ''+'' \<and> c \<noteq> CHR '';''"
  shows "query_pair (k @ CHR ''='' # v) = Some (k, v)"
proof -
  have "query_unescape k = Some k" "query_unescape v = Some v"
    using assms(2) by (auto intro!: query_unescape_plain)
  moreover have "CHR '';'' \<notin> set (k @ CHR ''='' # v)" using assms(2) by auto
  ultimately show ?thesis
    using assms by (simp add: query_pair_def cut_first)
qed

lemma parse_query_single:
  "CHR ''&'' \<notin> set p \<Longrightarrow> parse_query p = (case query_pair p of Some kv \<Rightarrow> [kv] | None \<Rightarrow> [])"
  by (simp add: parse_query_def split_byte_line List.map_filter_def split: option.splits)

text \<open>Without a semicolon the shortcut is the full parse.\<close>

lemma symbolParam_query:
  assumes "CHR '';'' \<notin> set q"
  shows "symbolParam q = query_get q ''symbol''"
proof (cases "has_prefix q ''symbol=''")
  case True
  then obtain v where q: "q = ''symbol'' @ CHR ''='' # v"
    by (auto simp: has_prefix_iff)
  show ?thesis
  proof (cases "list_ex (\<lambda>c. c = CHR ''&'' \<or> c = CHR ''%'' \<or> c = CHR ''+'') v")
    case True
    with q show ?thesis by (simp add: symbolParam_def)
  next
    case False
    then have "query_pair (''symbol'' @ CHR ''='' # v) = Some (''symbol'', v)"
      using assms q by (intro query_pair_plain) (auto simp: list_ex_iff)
    moreover have "CHR ''&'' \<notin> set q"
      using False q by (auto simp: list_ex_iff)
    ultimately have "query_get q ''symbol'' = v"
      by (simp add: query_get_def parse_query_single q)
    with False q show ?thesis by (simp add: symbolParam_def)
  qed
qed (simp add: symbolParam_def)


text \<open>With one they differ: the full parse drops the pair.\<close>

lemma symbolParam_semicolon:
  "symbolParam ''symbol=A;B'' = ''A;B''" "query_get ''symbol=A;B'' ''symbol'' = []"
  by (simp_all add: symbolParam_def query_get_def parse_query_single query_pair_def)

end
