(* ===== verification/Go_Json.thy ===== *)
theory Go_Json
  imports Go_Utf8 Go_Url
begin

text \<open>
  \<open>encoding/json\<close> as far as the program uses it: the string encoder behind \<open>json.Marshal\<close> (with its HTML
  escaping), the byte-at-a-time scanner behind \<open>Unmarshal\<close> and \<open>Decoder.Decode\<close> as a stack machine that also
  builds the value, and \<open>unquote\<close>. Numbers stay literals here; their conversion belongs to \<open>strconv\<close>.
\<close>

section \<open>Encoding strings\<close>

definition hex_char :: "nat \<Rightarrow> char" where
  "hex_char d = (if d < 10 then char_of (48 + d) else char_of (87 + d))"

text \<open>One byte below \<open>utf8.RuneSelf\<close>.\<close>

definition escape_ascii :: "char \<Rightarrow> string" where
  "escape_ascii c =
     (if c = CHR 0x5C \<or> c = CHR 0x22 then [CHR 0x5C, c]
      else if c = CHR 0x08 then [CHR 0x5C, CHR ''b'']
      else if c = CHR 0x0C then [CHR 0x5C, CHR ''f'']
      else if c = CHR 0x0A then [CHR 0x5C, CHR ''n'']
      else if c = CHR 0x0D then [CHR 0x5C, CHR ''r'']
      else if c = CHR 0x09 then [CHR 0x5C, CHR ''t'']
      else if ord_of c < 32 \<or> c = CHR ''<'' \<or> c = CHR ''>'' \<or> c = CHR ''&''
      then CHR 0x5C # ''u00'' @ [hex_char (ord_of c div 16), hex_char (ord_of c mod 16)]
      else [c])"

function escape :: "string \<Rightarrow> string" where
  "escape [] = []"
| "escape (c # cs) =
     (if ord_of c < 128 then escape_ascii c @ escape cs
      else case multi_len (c # cs) of
             None \<Rightarrow> CHR 0x5C # ''ufffd'' @ escape cs
           | Some n \<Rightarrow>
               (if take n (c # cs) = [CHR 0xE2, CHR 0x80, CHR 0xA8] then CHR 0x5C # ''u2028''
                else if take n (c # cs) = [CHR 0xE2, CHR 0x80, CHR 0xA9] then CHR 0x5C # ''u2029''
                else take n (c # cs)) @ escape (drop (n - 1) cs))"
  by pat_completeness auto
termination
  by (relation "measure length") auto

definition json_string :: "string \<Rightarrow> string" where
  "json_string s = CHR 0x22 # escape s @ [CHR 0x22]"

section \<open>Unquoting\<close>

definition hex4 :: "char \<Rightarrow> char \<Rightarrow> char \<Rightarrow> char \<Rightarrow> nat option" where
  "hex4 a b c d =
     (case (unhex a, unhex b, unhex c, unhex d) of
        (Some w, Some x, Some y, Some z) \<Rightarrow> Some (4096 * w + 256 * x + 16 * y + z)
      | _ \<Rightarrow> None)"

text \<open>The second half of a surrogate pair, if the text goes on with one.\<close>

definition low_surrogate :: "string \<Rightarrow> nat option" where
  "low_surrogate s =
     (case s of
        b # u # a' # b' # c' # d' # _ \<Rightarrow> if b = CHR 0x5C \<and> u = CHR ''u'' then hex4 a' b' c' d' else None
      | _ \<Rightarrow> None)"

text \<open>The bytes a \<open>\u\<close> escape with value \<open>r\<close> stands for when \<open>rest\<close> follows it, and how many bytes of
  \<open>rest\<close> it uses.\<close>

definition decode_u :: "nat \<Rightarrow> string \<Rightarrow> string \<times> nat" where
  "decode_u r rest =
     (if is_surrogate r then
        (case Option.bind (low_surrogate rest) (surrogate_pair r) of
           Some r' \<Rightarrow> (encode_rune r', 6)
         | None \<Rightarrow> (replacement_char, 0))
      else (encode_rune r, 0))"

definition unescape_char :: "char \<Rightarrow> char option" where
  "unescape_char c =
     (if c = CHR ''b'' then Some (CHR 0x08)
      else if c = CHR ''f'' then Some (CHR 0x0C)
      else if c = CHR ''n'' then Some (CHR 0x0A)
      else if c = CHR ''r'' then Some (CHR 0x0D)
      else if c = CHR ''t'' then Some (CHR 0x09)
      else if c = CHR 0x22 \<or> c = CHR 0x5C \<or> c = CHR ''/'' \<or> c = CHR 0x27 then Some c
      else None)"

text \<open>\<open>unquote\<close> on the text between the quotes, which the scanner has checked (a malformed escape does not arise;
  where Go would report failure the rest is dropped).\<close>

function unquote :: "string \<Rightarrow> string" where
  "unquote [] = []"
| "unquote (c # cs) =
     (if c = CHR 0x5C then
        (case cs of
           [] \<Rightarrow> []
         | e # rest \<Rightarrow>
             if e = CHR ''u'' then
               (case rest of
                  x # y # z # w # rest' \<Rightarrow>
                    (case hex4 x y z w of
                       None \<Rightarrow> []
                     | Some r \<Rightarrow>
                         fst (decode_u r rest') @ unquote (drop (snd (decode_u r rest')) rest'))
                | _ \<Rightarrow> [])
             else case unescape_char e of None \<Rightarrow> [] | Some u \<Rightarrow> u # unquote rest)
      else if ord_of c < 128 then c # unquote cs
      else case multi_len (c # cs) of
             None \<Rightarrow> replacement_char @ unquote cs
           | Some n \<Rightarrow> take n (c # cs) @ unquote (drop (n - 1) cs))"
  by pat_completeness auto
termination
  by (relation "measure length") auto

section \<open>The scanner\<close>

datatype json =
    JNull | JBool bool | JNum string | JStr string | JArr "json list" | JObj "(string \<times> json) list"

text \<open>What an open array or object has so far; an object also remembers the key whose value is being
  read.\<close>

datatype jframe = FArr "json list" | FObj "(string \<times> json) list" "string option"

datatype num_state = NNeg | NZero | NInt | NDot | NFrac | NExp | NExpSign | NExpDigits

datatype jmode =
    MValue | MValueOrEnd | MKeyOrEnd | MKey | MColon | MAfter
  | MString string | MEscape string | MHex nat string
  | MNumber num_state string | MLiteral string json
  | MDone json | MFail

type_synonym jstate = "jmode \<times> jframe list"

definition is_json_space :: "char \<Rightarrow> bool" where
  "is_json_space c \<longleftrightarrow> c = CHR '' '' \<or> c = CHR 0x09 \<or> c = CHR 0x0D \<or> c = CHR 0x0A"

definition maxNestingDepth :: nat where
  "maxNestingDepth = 10000"

definition push :: "jmode \<Rightarrow> jframe \<Rightarrow> jframe list \<Rightarrow> jstate" where
  "push m f st = (if length st < maxNestingDepth then (m, f # st) else (MFail, st))"

text \<open>A value is complete.\<close>

definition finish :: "json \<Rightarrow> jframe list \<Rightarrow> jstate" where
  "finish v st =
     (case st of
        [] \<Rightarrow> (MDone v, [])
      | FArr vs # st \<Rightarrow> (MAfter, FArr (vs @ [v]) # st)
      | FObj ms (Some k) # st \<Rightarrow> (MAfter, FObj (ms @ [(k, v)]) None # st)
      | FObj ms None # st \<Rightarrow> (MFail, st))"

definition finish_string :: "string \<Rightarrow> jframe list \<Rightarrow> jstate" where
  "finish_string raw st =
     (case st of
        FObj ms None # st \<Rightarrow> (MColon, FObj ms (Some (unquote raw)) # st)
      | _ \<Rightarrow> finish (JStr (unquote raw)) st)"

definition begin_value :: "char \<Rightarrow> jframe list \<Rightarrow> jstate" where
  "begin_value c st =
     (if c = CHR ''{'' then push MKeyOrEnd (FObj [] None) st
      else if c = CHR ''['' then push MValueOrEnd (FArr []) st
      else if c = CHR 0x22 then (MString [], st)
      else if c = CHR ''-'' then (MNumber NNeg [c], st)
      else if c = CHR ''0'' then (MNumber NZero [c], st)
      else if is_digit c then (MNumber NInt [c], st)
      else if c = CHR ''t'' then (MLiteral ''rue'' (JBool True), st)
      else if c = CHR ''f'' then (MLiteral ''alse'' (JBool False), st)
      else if c = CHR ''n'' then (MLiteral ''ull'' JNull, st)
      else (MFail, st))"

definition after_value :: "char \<Rightarrow> jframe list \<Rightarrow> jstate" where
  "after_value c st =
     (case st of
        FArr vs # st' \<Rightarrow>
          if c = CHR '','' then (MValue, st) else if c = CHR '']'' then finish (JArr vs) st'
          else (MFail, st)
      | FObj ms _ # st' \<Rightarrow>
          if c = CHR '','' then (MKey, st) else if c = CHR ''}'' then finish (JObj ms) st'
          else (MFail, st)
      | [] \<Rightarrow> (MFail, st))"

definition num_next :: "num_state \<Rightarrow> char \<Rightarrow> num_state option" where
  "num_next n c =
     (let exp = c = CHR ''e'' \<or> c = CHR ''E''; dot = c = CHR ''.'' in
      case n of
        NNeg \<Rightarrow> if c = CHR ''0'' then Some NZero else if is_digit c then Some NInt else None
      | NZero \<Rightarrow> if dot then Some NDot else if exp then Some NExp else None
      | NInt \<Rightarrow> if is_digit c then Some NInt else if dot then Some NDot else if exp then Some NExp else None
      | NDot \<Rightarrow> if is_digit c then Some NFrac else None
      | NFrac \<Rightarrow> if is_digit c then Some NFrac else if exp then Some NExp else None
      | NExp \<Rightarrow> if c = CHR ''+'' \<or> c = CHR ''-'' then Some NExpSign
                else if is_digit c then Some NExpDigits else None
      | NExpSign \<Rightarrow> if is_digit c then Some NExpDigits else None
      | NExpDigits \<Rightarrow> if is_digit c then Some NExpDigits else None)"

definition num_ends :: "num_state \<Rightarrow> bool" where
  "num_ends n \<longleftrightarrow> n \<in> {NZero, NInt, NFrac, NExpDigits}"

text \<open>A byte after a complete value: white space, or the punctuation of the enclosing array or object; at
  the top level only white space.\<close>

definition step_end :: "jstate \<Rightarrow> char \<Rightarrow> jstate" where
  "step_end s c =
     (if is_json_space c then s
      else case s of (MAfter, st) \<Rightarrow> after_value c st | (_, st) \<Rightarrow> (MFail, st))"

fun jstep :: "jstate \<Rightarrow> char \<Rightarrow> jstate" where
  "jstep (MValue, st) c = (if is_json_space c then (MValue, st) else begin_value c st)"
| "jstep (MValueOrEnd, st) c =
     (if is_json_space c then (MValueOrEnd, st)
      else if c = CHR '']'' then after_value c st else begin_value c st)"
| "jstep (MKeyOrEnd, st) c =
     (if is_json_space c then (MKeyOrEnd, st)
      else if c = CHR ''}'' then after_value c st
      else if c = CHR 0x22 then (MString [], st) else (MFail, st))"
| "jstep (MKey, st) c =
     (if is_json_space c then (MKey, st) else if c = CHR 0x22 then (MString [], st) else (MFail, st))"
| "jstep (MColon, st) c =
     (if is_json_space c then (MColon, st) else if c = CHR '':'' then (MValue, st) else (MFail, st))"
| "jstep (MAfter, st) c = step_end (MAfter, st) c"
| "jstep (MString raw, st) c =
     (if c = CHR 0x22 then finish_string raw st
      else if c = CHR 0x5C then (MEscape (raw @ [c]), st)
      else if ord_of c < 32 then (MFail, st)
      else (MString (raw @ [c]), st))"
| "jstep (MEscape raw, st) c =
     (if c = CHR ''u'' then (MHex 4 (raw @ [c]), st)
      else if c \<in> set (''bfnrt/'' @ [CHR 0x5C, CHR 0x22]) then (MString (raw @ [c]), st)
      else (MFail, st))"
| "jstep (MHex n raw, st) c =
     (if unhex c = None then (MFail, st)
      else if n \<le> 1 then (MString (raw @ [c]), st) else (MHex (n - 1) (raw @ [c]), st))"
| "jstep (MNumber n raw, st) c =
     (case num_next n c of
        Some n' \<Rightarrow> (MNumber n' (raw @ [c]), st)
      | None \<Rightarrow> if num_ends n then step_end (finish (JNum raw) st) c else (MFail, st))"
| "jstep (MLiteral (l # ls) v, st) c =
     (if c = l then (if ls = [] then finish v st else (MLiteral ls v, st)) else (MFail, st))"
| "jstep (MLiteral [] v, st) c = (MFail, st)"
| "jstep (MDone v, st) c = step_end (MDone v, st) c"
| "jstep (MFail, st) c = (MFail, st)"

definition jrun :: "jstate \<Rightarrow> string \<Rightarrow> jstate" where
  "jrun s cs = foldl jstep s cs"

text \<open>The value of a finished input.\<close>

definition jvalue :: "jstate \<Rightarrow> json option" where
  "jvalue s =
     (case s of
        (MDone v, _) \<Rightarrow> Some v
      | (MNumber n raw, []) \<Rightarrow> if num_ends n then Some (JNum raw) else None
      | _ \<Rightarrow> None)"

text \<open>\<open>json.Unmarshal\<close>: the whole text is one value. \<open>Decoder.Decode\<close>: the first value of the text; what
  follows a complete array or object is not looked at.\<close>

definition json_whole :: "string \<Rightarrow> json option" where
  "json_whole s = jvalue (jrun (MValue, []) s)"

fun json_first_from :: "jstate \<Rightarrow> string \<Rightarrow> json option" where
  "json_first_from s [] = jvalue s"
| "json_first_from s (c # cs) =
     (case s of (MDone v, _) \<Rightarrow> Some v | _ \<Rightarrow> json_first_from (jstep s c) cs)"

definition json_first :: "string \<Rightarrow> json option" where
  "json_first s = json_first_from (MValue, []) s"


section \<open>Strings round trip\<close>

declare unquote.simps(2) [simp del]

lemma unquote_plain: "c \<noteq> CHR 0x5C \<Longrightarrow> ord_of c < 128 \<Longrightarrow> unquote (c # cs) = c # unquote cs"
  by (simp add: unquote.simps(2))

lemma unquote_simple:
  "e \<noteq> CHR ''u'' \<Longrightarrow> unescape_char e = Some u \<Longrightarrow> unquote (CHR 0x5C # e # cs) = u # unquote cs"
  by (simp add: unquote.simps(2))

lemma unhex_char: "d < 16 \<Longrightarrow> unhex (hex_char d) = Some d"
  by (auto simp: unhex_def hex_char_def Let_def)

lemma unhex_0: "unhex (CHR ''0'') = Some 0"
  by (simp add: unhex_def)

lemma hex4_ascii: "n < 128 \<Longrightarrow> hex4 (CHR ''0'') (CHR ''0'') (hex_char (n div 16)) (hex_char (n mod 16)) = Some n"
  by (simp add: hex4_def unhex_0 unhex_char)

lemma encode_rune_code: "ord_of c < 128 \<Longrightarrow> encode_rune (ord_of c) = [c]"
  by (simp add: encode_rune_def)

lemma decode_u_plain: "\<not> is_surrogate r \<Longrightarrow> decode_u r rest = (encode_rune r, 0)"
  by (simp add: decode_u_def)

lemma unquote_u:
  "hex4 x y z w = Some r \<Longrightarrow> \<not> is_surrogate r \<Longrightarrow>
     unquote (CHR 0x5C # CHR ''u'' # x # y # z # w # t) = encode_rune r @ unquote t"
  by (subst unquote.simps(2)) (simp add: decode_u_plain)

lemma unquote_escape_ascii:
  assumes "ord_of c < 128"
  shows "unquote (escape_ascii c @ t) = c # unquote t"
proof -
  have u: "unquote (CHR 0x5C # CHR ''u'' # CHR ''0'' # CHR ''0'' # hex_char (ord_of c div 16) #
      hex_char (ord_of c mod 16) # t) = c # unquote t"
    using unquote_u [OF hex4_ascii [OF assms], of t] assms
    by (simp add: is_surrogate_def encode_rune_code)
  consider "c = CHR 0x5C \<or> c = CHR 0x22" | "c \<in> {CHR 0x08, CHR 0x0C, CHR 0x0A, CHR 0x0D, CHR 0x09}"
    | "c \<notin> {CHR 0x5C, CHR 0x22, CHR 0x08, CHR 0x0C, CHR 0x0A, CHR 0x0D, CHR 0x09}" by blast
  then show ?thesis
  proof cases
    case 1
    then show ?thesis by (auto simp: escape_ascii_def unescape_char_def unquote_simple)
  next
    case 2
    then show ?thesis by (auto simp: escape_ascii_def unescape_char_def unquote_simple)
  next
    case 3
    then show ?thesis using u assms by (simp add: escape_ascii_def unquote_plain)
  qed
qed

lemma unquote_2028:
  "unquote (CHR 0x5C # ''u2028'' @ t) = [CHR 0xE2, CHR 0x80, CHR 0xA8] @ unquote t"
  "unquote (CHR 0x5C # ''u2029'' @ t) = [CHR 0xE2, CHR 0x80, CHR 0xA9] @ unquote t"
proof -
  have h: "hex4 (CHR ''2'') (CHR ''0'') (CHR ''2'') (CHR ''8'') = Some 8232"
    "hex4 (CHR ''2'') (CHR ''0'') (CHR ''2'') (CHR ''9'') = Some 8233"
    by (simp_all add: hex4_def unhex_def)
  have e: "encode_rune 8232 = [CHR 0xE2, CHR 0x80, CHR 0xA8]" "encode_rune 8233 = [CHR 0xE2, CHR 0x80, CHR 0xA9]"
    by (simp add: encode_rune_def, code_simp)+
  have n: "\<not> is_surrogate 8232" "\<not> is_surrogate 8233"
    by (simp_all add: is_surrogate_def)
  show "unquote (CHR 0x5C # ''u2028'' @ t) = [CHR 0xE2, CHR 0x80, CHR 0xA8] @ unquote t"
    unfolding append.simps unquote_u [OF h(1) n(1)] e(1) ..
  show "unquote (CHR 0x5C # ''u2029'' @ t) = [CHR 0xE2, CHR 0x80, CHR 0xA9] @ unquote t"
    unfolding append.simps unquote_u [OF h(2) n(2)] e(2) ..
qed

lemma unquote_multi:
  assumes "\<not> ord_of c < 128" "multi_len (c # cs) = Some n"
  shows "unquote (take n (c # cs) @ t) = take n (c # cs) @ unquote t"
proof -
  obtain k where k: "n = Suc k" "k \<le> length cs" "take n (c # cs) = c # take k cs"
    using multi_len_bounds [OF assms(2)] by (cases n) auto
  have "c \<noteq> CHR 0x5C" using assms(1) by auto
  moreover have "multi_len (c # take k cs @ t) = Some (Suc k)"
    using multi_len_take [OF assms(2), of t] k by simp
  ultimately show ?thesis
    using assms(1) k(2) unfolding k(3) by (simp add: unquote.simps(2))
qed

lemma unquote_escape: "valid_utf8 s \<Longrightarrow> unquote (escape s @ t) = s @ unquote t"
proof (induction s rule: escape.induct)
  case (2 c cs)
  show ?case
  proof (cases "ord_of c < 128")
    case True
    with 2 show ?thesis by (simp add: unquote_escape_ascii)
  next
    case False
    with "2.prems" obtain n where n: "multi_len (c # cs) = Some n" "valid_utf8 (drop (n - 1) cs)"
      by (auto split: option.splits)
    note IH = "2.IH"(3) [OF False n(1,2)]
    have split: "c # cs = take n (c # cs) @ drop (n - 1) cs"
      using multi_len_bounds [OF n(1)] by (cases n) auto
    show ?thesis
      using False n IH unquote_multi [OF False n(1)] unquote_2028 split
      by auto
  qed
qed simp


lemma multi_len_high:
  assumes "multi_len s = Some n" "c \<in> set (take n s)"
  shows "128 \<le> ord_of c"
  using assms(1)
proof (cases rule: multi_len_cases)
  case (two a b u)
  with assms show ?thesis
    by (auto simp: multi_len_def in_range_def is_cont_def Let_def split: list.splits if_splits)
next
  case (three a b c u)
  with assms show ?thesis
    by (auto simp: multi_len_def in_range_def is_cont_def Let_def split: list.splits if_splits)
next
  case (four a b c d u)
  with assms show ?thesis
    by (auto simp: multi_len_def in_range_def is_cont_def Let_def split: list.splits if_splits)
qed

text \<open>What \<open>unquote\<close> returns is valid UTF-8, whatever the bytes of the literal.\<close>

lemma decode_u_valid: "valid_utf8 (fst (decode_u r rest))"
  by (auto simp: decode_u_def valid_utf8_encode_rune valid_utf8_replacement split: option.splits)

lemma multi_len_valid: "multi_len (c # cs) = Some n \<Longrightarrow> valid_utf8 (take n (c # cs))"
proof -
  assume n: "multi_len (c # cs) = Some n"
  obtain k where k: "n = Suc k" using multi_len_bounds [OF n] by (cases n) auto
  have c: "128 \<le> ord_of c" using multi_len_high [OF n, of c] k by simp
  have "multi_len (c # take k cs) = Some (Suc k)"
    using multi_len_take [OF n, of "[]"] k by simp
  with c k show ?thesis by simp
qed

lemma unescape_char_ascii: "unescape_char e = Some u \<Longrightarrow> ord_of u < 128"
proof -
  have "case unescape_char e of None \<Rightarrow> True | Some u \<Rightarrow> ord_of u < 128"
    unfolding unescape_char_def by (auto split: if_split)
  then show "unescape_char e = Some u \<Longrightarrow> ord_of u < 128" by simp
qed

lemma valid_utf8_unquote: "valid_utf8 (unquote raw)"
proof (induction raw rule: unquote.induct)
  case (2 c cs)
  show ?case
  proof (cases "c = CHR 0x5C")
    case True
    show ?thesis
    proof (cases cs)
      case Nil
      with True show ?thesis by (simp add: unquote.simps(2))
    next
      case (Cons e rest)
      show ?thesis
      proof (cases "e = CHR ''u''")
        case u: True
        show ?thesis
        proof (cases "\<exists>x y z w rest' r. rest = x # y # z # w # rest' \<and> hex4 x y z w = Some r")
          case True
          then obtain x y z w rest' r where r: "rest = x # y # z # w # rest'" "hex4 x y z w = Some r" by blast
          have "valid_utf8 (unquote (drop (snd (decode_u r rest')) rest'))"
            using "2.IH"(1) [OF \<open>c = CHR 0x5C\<close> Cons u r(1) _ _ _ r(2)] r by simp
          with r Cons u \<open>c = CHR 0x5C\<close> show ?thesis
            by (simp add: unquote.simps(2) valid_utf8_append decode_u_valid)
        next
          case False
          with Cons u \<open>c = CHR 0x5C\<close> have "unquote (c # cs) = []"
            by (auto simp: unquote.simps(2) split: list.splits option.splits)
          then show ?thesis by simp
        qed
      next
        case False
        with Cons True 2 show ?thesis
          by (auto simp: unquote.simps(2) unescape_char_ascii split: option.splits)
      qed
    qed
  next
    case False
    with 2 show ?thesis
      by (auto simp: unquote.simps(2) valid_utf8_append valid_utf8_replacement multi_len_valid
          simp del: take_Suc_Cons split: option.splits)
  qed
qed simp

section \<open>The scanner on encoded text\<close>

lemma jrun_simps [simp]:
  "jrun s [] = s"
  "jrun s (c # cs) = jrun (jstep s c) cs"
  "jrun s (cs @ ds) = jrun (jrun s cs) ds"
  by (simp_all add: jrun_def)

lemma jrun_fail [simp]: "jrun (MFail, st) cs = (MFail, st)"
  by (induction cs) simp_all

lemma jrun_plain:
  "\<forall>c \<in> set cs. c \<noteq> CHR 0x22 \<and> c \<noteq> CHR 0x5C \<and> 32 \<le> ord_of c \<Longrightarrow>
     jrun (MString raw, st) cs = (MString (raw @ cs), st)"
  by (induction cs arbitrary: raw) auto

lemma jrun_u:
  assumes "unhex x \<noteq> None" "unhex y \<noteq> None" "unhex z \<noteq> None" "unhex w \<noteq> None"
  shows "jrun (MString raw, st) [CHR 0x5C, CHR ''u'', x, y, z, w] =
    (MString (raw @ [CHR 0x5C, CHR ''u'', x, y, z, w]), st)"
  using assms by auto

lemma jrun_escape_ascii:
  assumes "ord_of c < 128"
  shows "jrun (MString raw, st) (escape_ascii c) = (MString (raw @ escape_ascii c), st)"
proof -
  have u: "jrun (MString raw, st) (CHR 0x5C # ''u00'' @ [hex_char (ord_of c div 16), hex_char (ord_of c mod 16)]) =
      (MString (raw @ CHR 0x5C # ''u00'' @ [hex_char (ord_of c div 16), hex_char (ord_of c mod 16)]), st)"
    using assms by (auto simp: unhex_0 unhex_char)
  consider "c = CHR 0x5C \<or> c = CHR 0x22" | "c \<in> {CHR 0x08, CHR 0x0C, CHR 0x0A, CHR 0x0D, CHR 0x09}"
    | "c \<notin> {CHR 0x5C, CHR 0x22, CHR 0x08, CHR 0x0C, CHR 0x0A, CHR 0x0D, CHR 0x09}" by blast
  then show ?thesis
  proof cases
    case 1
    then show ?thesis by (auto simp: escape_ascii_def)
  next
    case 2
    then show ?thesis by (auto simp: escape_ascii_def)
  next
    case 3
    then show ?thesis
      using u by (cases "ord_of c < 32 \<or> c = CHR ''<'' \<or> c = CHR ''>'' \<or> c = CHR ''&''")
        (simp_all add: escape_ascii_def del: jrun_simps, simp)
  qed
qed

lemma jrun_multi:
  assumes "multi_len s = Some n"
  shows "jrun (MString raw, st) (take n s) = (MString (raw @ take n s), st)"
proof (rule jrun_plain, intro ballI)
  fix c assume "c \<in> set (take n s)"
  then have "128 \<le> ord_of c" using multi_len_high [OF assms] by blast
  then show "c \<noteq> CHR 0x22 \<and> c \<noteq> CHR 0x5C \<and> 32 \<le> ord_of c" by auto
qed

lemma jrun_fixed_escapes:
  "jrun (MString raw, st) (CHR 0x5C # ''ufffd'') = (MString (raw @ CHR 0x5C # ''ufffd''), st)"
  "jrun (MString raw, st) (CHR 0x5C # ''u2028'') = (MString (raw @ CHR 0x5C # ''u2028''), st)"
  "jrun (MString raw, st) (CHR 0x5C # ''u2029'') = (MString (raw @ CHR 0x5C # ''u2029''), st)"
  by (simp_all add: unhex_def)

lemma jrun_escape: "jrun (MString raw, st) (escape s) = (MString (raw @ escape s), st)"
proof (induction s arbitrary: raw rule: escape.induct)
  case (2 c cs)
  show ?case
  proof (cases "ord_of c < 128")
    case True
    with 2 show ?thesis by (simp add: jrun_escape_ascii)
  next
    case False
    show ?thesis
    proof (cases "multi_len (c # cs)")
      case None
      have "jrun (MString raw, st) ((CHR 0x5C # ''ufffd'') @ escape cs) =
          (MString (raw @ (CHR 0x5C # ''ufffd'') @ escape cs), st)"
        unfolding jrun_simps(3) jrun_fixed_escapes "2.IH"(2) [OF False None] by simp
      with None False show ?thesis by simp
    next
      case (Some n)
      have "jrun (MString raw, st) (p @ escape (drop (n - 1) cs)) =
          (MString (raw @ p @ escape (drop (n - 1) cs)), st)"
        if "p \<in> {CHR 0x5C # ''u2028'', CHR 0x5C # ''u2029'', take n (c # cs)}" for p
        using that jrun_multi [OF Some] jrun_fixed_escapes "2.IH"(3) [OF False Some]
        by (auto simp del: jrun_simps(2) take_Suc_Cons)
      with Some False show ?thesis by (simp del: jrun_simps)
    qed
  qed
qed simp

lemma jrun_json_string:
  "m \<in> {MValue, MValueOrEnd, MKey, MKeyOrEnd} \<Longrightarrow>
     jrun (m, st) (json_string s) = finish_string (escape s) st"
  by (auto simp: json_string_def is_json_space_def begin_value_def is_digit_def digit_val_def jrun_escape)

section \<open>Numbers\<close>

definition num_first :: "char \<Rightarrow> num_state option" where
  "num_first c =
     (if c = CHR ''-'' then Some NNeg else if c = CHR ''0'' then Some NZero
      else if is_digit c then Some NInt else None)"

fun num_run :: "num_state \<Rightarrow> string \<Rightarrow> num_state option" where
  "num_run n [] = Some n"
| "num_run n (c # cs) = Option.bind (num_next n c) (\<lambda>n'. num_run n' cs)"

lemma is_digit_not:
  "is_digit c \<Longrightarrow> c \<notin> {CHR '' '', CHR 0x09, CHR 0x0D, CHR 0x0A, CHR ''{'', CHR ''['', CHR 0x22, CHR '','',
     CHR ''}'', CHR '']'', CHR ''e'', CHR ''E'', CHR ''.'', CHR 0x5C}"
  by (auto simp: is_digit_def digit_val_def)

text \<open>The literals the scanner takes as numbers.\<close>

definition json_number :: "string \<Rightarrow> bool" where
  "json_number s \<longleftrightarrow>
     (case s of
        [] \<Rightarrow> False
      | c # cs \<Rightarrow> (case Option.bind (num_first c) (\<lambda>n. num_run n cs) of Some n \<Rightarrow> num_ends n | None \<Rightarrow> False))"

lemma jrun_num_run: "num_run n cs = Some n' \<Longrightarrow> jrun (MNumber n raw, st) cs = (MNumber n' (raw @ cs), st)"
proof (induction cs arbitrary: n raw)
  case (Cons c cs)
  then obtain n1 where "num_next n c = Some n1" "num_run n1 cs = Some n'"
    by (auto simp: bind_eq_Some_conv)
  with Cons.IH [of n1 "raw @ [c]"] show ?case by simp
qed simp

lemma jrun_number:
  assumes "json_number s"
  obtains n where "jrun (MValue, st) s = (MNumber n s, st)" "num_ends n"
proof -
  obtain c cs n0 n where s: "s = c # cs" "num_first c = Some n0" "num_run n0 cs = Some n" "num_ends n"
    using assms by (auto simp: json_number_def bind_eq_Some_conv split: list.splits option.splits)
  have "begin_value c st = (MNumber n0 [c], st)" "\<not> is_json_space c"
    using s(2) is_digit_not [of c]
    by (auto simp: num_first_def begin_value_def is_json_space_def split: if_splits)
  then have "jrun (MValue, st) s = jrun (MNumber n0 [c], st) cs"
    unfolding s(1) by simp
  also have "\<dots> = (MNumber n ([c] @ cs), st)"
    using s(3) by (rule jrun_num_run)
  finally have "jrun (MValue, st) s = (MNumber n s, st)"
    by (simp add: s(1))
  then show thesis using s(4) by (rule that)
qed

lemma jstep_number_end:
  assumes "num_ends n" "c \<in> {CHR '','', CHR ''}'', CHR '']''}"
  shows "jstep (MNumber n raw, st) c = step_end (finish (JNum raw) st) c"
proof -
  have "\<not> is_digit (CHR '','')" "\<not> is_digit (CHR ''}'')" "\<not> is_digit (CHR '']'')"
    by (simp_all add: is_digit_def digit_val_def)
  with assms(2) have "\<not> is_digit c" "c \<noteq> CHR ''.''" "c \<noteq> CHR ''e''" "c \<noteq> CHR ''E''"
    by (elim insertE emptyE; simp)+
  then have "num_next n c = None"
    using assms(1) by (cases n) (simp_all add: num_ends_def num_next_def Let_def)
  with assms(1) show ?thesis by simp
qed

end
