(* ===== verification/Governor.thy ===== *)
theory Governor
  imports Go_Strings
begin

text \<open>
  The shed-budget governor of \<open>app/main.go\<close>: the response counters, \<open>initShedBudget\<close>, and
  \<open>shedReserveError\<close> as the program runs it, a load of \<open>respOK\<close>, then a compare-and-swap loop on
  \<open>respErr\<close>, with any number of goroutines interleaved at every atomic access. The counters are
  64-bit in the program; they are integers here, since 2^63 / 10000 responses are out of reach.
\<close>

section \<open>The budget\<close>

text \<open>\<open>initShedBudget\<close> on the values of \<open>RISK_ERR_GATE_BP\<close> and \<open>RISK_SHED_BUDGET_BP\<close>.\<close>

definition gateBP :: "string \<Rightarrow> int" where
  "gateBP gate =
     (if gate = '''' then 100
      else case go_atoi gate of
             Some v \<Rightarrow> if 10 \<le> v \<and> v \<le> 1000 then v else 100
           | None \<Rightarrow> 100)"

definition initShedBudget :: "string \<Rightarrow> string \<Rightarrow> int" where
  "initShedBudget gate budget =
     (let g = gateBP gate;
          bp = (g * 88) sdiv 100;
          bp = (if budget = '''' then bp
                else case go_atoi budget of
                       Some v \<Rightarrow> if 0 \<le> v then v else bp
                     | None \<Rightarrow> bp);
          mx = (g * 95) sdiv 100
      in if mx < bp then mx else bp)"

section \<open>The reservation\<close>

record counters =
  respOK :: int
  respErr :: int

text \<open>The test the loop makes on the two values it has loaded.\<close>

definition shed_admit :: "int \<Rightarrow> int \<Rightarrow> int \<Rightarrow> bool" where
  "shed_admit bp ok er =
     (let total = ok + er in \<not> total < 500 \<and> \<not> (er + 1) * 10000 > total * bp)"

text \<open>Where a goroutine is inside \<open>shedReserveError\<close>: before loading \<open>respOK\<close>; before loading \<open>respErr\<close>
  (again); before the compare-and-swap; returned.\<close>

datatype shed_pc = LoadOK | LoadErr int | Cas int int | Returned bool

fun shed_step :: "int \<Rightarrow> shed_pc \<Rightarrow> counters \<Rightarrow> shed_pc \<times> counters" where
  "shed_step bp LoadOK c = (LoadErr (respOK c), c)"
| "shed_step bp (LoadErr ok) c =
     (if shed_admit bp ok (respErr c) then (Cas ok (respErr c), c) else (Returned False, c))"
| "shed_step bp (Cas ok er) c =
     (if respErr c = er then (Returned True, c\<lparr>respErr := er + 1\<rparr>) else (LoadErr ok, c))"
| "shed_step bp (Returned b) c = (Returned b, c)"

text \<open>The whole call when nothing interferes.\<close>

definition shedReserveError :: "int \<Rightarrow> counters \<Rightarrow> bool \<times> counters" where
  "shedReserveError bp c =
     (if shed_admit bp (respOK c) (respErr c) then (True, c\<lparr>respErr := respErr c + 1\<rparr>)
      else (False, c))"

text \<open>\<open>writeJSON\<close> counts a response by its status.\<close>

definition count_response :: "int \<Rightarrow> counters \<Rightarrow> counters" where
  "count_response code c =
     (if code < 400 then c\<lparr>respOK := respOK c + 1\<rparr> else c\<lparr>respErr := respErr c + 1\<rparr>)"

text \<open>A run interleaves steps of goroutines inside \<open>shedReserveError\<close> with responses counted by the
  rest of the program.\<close>

datatype gov_event = Shed nat | Count int

fun gov_exec :: "int \<Rightarrow> gov_event \<Rightarrow> shed_pc list \<times> counters \<Rightarrow> shed_pc list \<times> counters" where
  "gov_exec bp (Shed i) (pcs, c) =
     (if i < length pcs
      then let (pc, c) = shed_step bp (pcs ! i) c in (pcs[i := pc], c)
      else (pcs, c))"
| "gov_exec bp (Count code) (pcs, c) = (pcs, count_response code c)"

definition gov_run :: "int \<Rightarrow> gov_event list \<Rightarrow> shed_pc list \<times> counters \<Rightarrow> shed_pc list \<times> counters" where
  "gov_run bp es s = foldl (\<lambda>s e. gov_exec bp e s) s es"

section \<open>The interface the admission gate relies on\<close>

text \<open>\<open>admit ok er\<close>: may one more error be charged when \<open>ok\<close> successes and \<open>er\<close> errors have been seen?
  A grant never takes the errors past the budget, and a grant decided on an older (smaller) count of
  successes is still within it.\<close>

locale shed_budget =
  fixes bp :: int and admit :: "int \<Rightarrow> int \<Rightarrow> bool"
  assumes bp_nonneg: "0 \<le> bp"
    and admit_fits: "admit ok er \<Longrightarrow> (er + 1) * 10000 \<le> (ok + er) * bp"
    and admit_mono: "admit ok er \<Longrightarrow> ok \<le> ok' \<Longrightarrow> admit ok' er"
begin

definition within :: "int \<Rightarrow> int \<Rightarrow> bool" where
  "within ok er \<longleftrightarrow> er * 10000 \<le> (ok + er) * bp"

lemma grant_within: "admit ok er \<Longrightarrow> ok \<le> ok' \<Longrightarrow> within ok' (er + 1)"
proof -
  assume "admit ok er" "ok \<le> ok'"
  then have "(er + 1) * 10000 \<le> (ok' + er) * bp"
    by (blast intro: admit_fits admit_mono)
  also have "\<dots> \<le> (ok' + (er + 1)) * bp"
    using bp_nonneg by (simp add: distrib_right)
  finally show ?thesis by (simp add: within_def)
qed

lemma ok_within: "within ok er \<Longrightarrow> ok \<le> ok' \<Longrightarrow> within ok' er"
proof -
  assume w: "within ok er" and "ok \<le> ok'"
  then have "(ok + er) * bp \<le> (ok' + er) * bp"
    using bp_nonneg by (intro mult_right_mono) auto
  with w show ?thesis by (simp add: within_def)
qed

end

section \<open>Facts about the budget\<close>

lemma gateBP_range: "10 \<le> gateBP gate \<and> gateBP gate \<le> 1000"
  by (simp add: gateBP_def split: option.split)

lemma sdiv_pos: "0 \<le> a \<Longrightarrow> 0 < b \<Longrightarrow> a sdiv b = a div b" for a b :: int
  by (auto simp: signed_divide_int_def sgn_if)

lemma initShedBudget_range:
  "0 \<le> initShedBudget gate budget \<and> initShedBudget gate budget \<le> gateBP gate * 95 div 100"
  using gateBP_range [of gate]
  by (auto simp: initShedBudget_def Let_def sdiv_pos split: option.split)

lemma initShedBudget_derived:
  assumes "go_atoi budget = None \<or> budget = '''' \<or> (\<exists>v. go_atoi budget = Some v \<and> v < 0)"
  shows "initShedBudget gate budget = gateBP gate * 88 div 100"
  using assms gateBP_range [of gate]
  by (auto simp: initShedBudget_def Let_def sdiv_pos not_less split: option.split
      intro: order_trans [OF zdiv_mono1])

lemma initShedBudget_override:
  assumes "go_atoi budget = Some v" "0 \<le> v"
  shows "initShedBudget gate budget = min v (gateBP gate * 95 div 100)"
proof -
  have "budget \<noteq> ''''" using assms(1) by (auto simp: go_atoi_def)
  then show ?thesis
    using assms gateBP_range [of gate] by (auto simp: initShedBudget_def Let_def sdiv_pos)
qed

interpretation shed: shed_budget "initShedBudget gate budget" "shed_admit (initShedBudget gate budget)"
  for gate budget
proof unfold_locales
  let ?bp = "initShedBudget gate budget"
  show bp: "0 \<le> ?bp" using initShedBudget_range by blast
  fix ok er ok' :: int
  assume adm: "shed_admit ?bp ok er"
  then show "(er + 1) * 10000 \<le> (ok + er) * ?bp"
    by (simp add: shed_admit_def Let_def)
  assume le: "ok \<le> ok'"
  then have "(ok + er) * ?bp \<le> (ok' + er) * ?bp"
    using bp by (intro mult_right_mono) auto
  with adm le show "shed_admit ?bp ok' er"
    by (simp add: shed_admit_def Let_def)
qed

section \<open>The compare-and-swap loop under interleaving\<close>

text \<open>What a goroutine has loaded never exceeds the number of successes, and a goroutine about to swap
  has tested the value it will write.\<close>

definition pc_ok :: "int \<Rightarrow> counters \<Rightarrow> shed_pc \<Rightarrow> bool" where
  "pc_ok bp c pc =
     (case pc of
        LoadOK \<Rightarrow> True
      | LoadErr ok \<Rightarrow> ok \<le> respOK c
      | Cas ok er \<Rightarrow> ok \<le> respOK c \<and> shed_admit bp ok er
      | Returned _ \<Rightarrow> True)"

definition granted :: "shed_pc list \<Rightarrow> int" where
  "granted pcs = sum_list (map (\<lambda>pc. if pc = Returned True then 1 else 0) pcs)"

fun errors_counted :: "gov_event list \<Rightarrow> int" where
  "errors_counted [] = 0"
| "errors_counted (Count code # es) = (if code < 400 then 0 else 1) + errors_counted es"
| "errors_counted (Shed i # es) = errors_counted es"

lemma shed_step_OK [simp]: "respOK (snd (shed_step bp pc c)) = respOK c"
  by (cases pc) auto

lemma shed_step_pc: "pc_ok bp c pc \<Longrightarrow> pc_ok bp (snd (shed_step bp pc c)) (fst (shed_step bp pc c))"
  by (cases pc) (auto simp: pc_ok_def)

lemma pc_ok_cong: "pc_ok bp c pc \<Longrightarrow> respOK c \<le> respOK c' \<Longrightarrow> pc_ok bp c' pc"
  by (auto simp: pc_ok_def split: shed_pc.splits)

lemma count_response_OK: "respOK c \<le> respOK (count_response code c)"
  by (simp add: count_response_def)

lemma gov_exec_pcs:
  assumes "\<forall>pc \<in> set (fst s). pc_ok bp (snd s) pc"
  shows "\<forall>pc \<in> set (fst (gov_exec bp e s)). pc_ok bp (snd (gov_exec bp e s)) pc"
proof (cases e)
  case (Shed i)
  obtain pcs c where s: "s = (pcs, c)" by force
  let ?r = "shed_step bp (pcs ! i) c"
  show ?thesis
  proof (cases "i < length pcs")
    case True
    have "pc_ok bp (snd ?r) pc" if "pc \<in> set (pcs[i := fst ?r])" for pc
    proof -
      from that consider "pc = fst ?r" | "pc \<in> set pcs"
        using set_update_subset_insert by fastforce
      then show ?thesis
        using assms True s by cases (auto intro: shed_step_pc pc_ok_cong)
    qed
    with True s Shed show ?thesis by (simp add: split_beta)
  qed (use assms s Shed in simp)
next
  case (Count code)
  then show ?thesis
    using assms by (cases s) (auto intro: pc_ok_cong count_response_OK)
qed

lemma granted_update:
  "i < length pcs \<Longrightarrow> granted (pcs[i := pc]) =
     granted pcs + (if pc = Returned True then 1 else 0) - (if pcs ! i = Returned True then 1 else 0)"
  by (simp add: granted_def sum_map_update_int)

lemma shed_step_charge:
  "respErr (snd (shed_step bp pc c)) = respErr c
     + (if fst (shed_step bp pc c) = Returned True then 1 else 0) - (if pc = Returned True then 1 else 0)"
  by (cases pc) auto

text \<open>Every reservation is charged exactly once, and nothing else but a counted error charges.\<close>

lemma gov_exec_charge:
  "respErr (snd (gov_exec bp e s)) - granted (fst (gov_exec bp e s)) =
     respErr (snd s) - granted (fst s) + errors_counted [e]"
proof (cases e)
  case (Shed i)
  then show ?thesis
    by (cases s) (simp add: split_beta granted_update shed_step_charge)
next
  case (Count code)
  then show ?thesis by (cases s) (simp add: count_response_def)
qed

lemma gov_run_charge:
  "respErr (snd (gov_run bp es s)) - granted (fst (gov_run bp es s)) =
     respErr (snd s) - granted (fst s) + errors_counted es"
proof (induction es arbitrary: s)
  case (Cons e es)
  have "errors_counted (e # es) = errors_counted [e] + errors_counted es"
    by (cases e) auto
  with Cons [of "gov_exec bp e s"] show ?case
    by (simp add: gov_run_def gov_exec_charge)
qed (simp add: gov_run_def)

text \<open>The grant itself: the reservation is within the budget of the counters it leaves, and whatever
  else happens short of a counted error keeps the budget.\<close>

lemma shed_step_grant:
  assumes "pc_ok bp c pc" "pc \<noteq> Returned True" "fst (shed_step bp pc c) = Returned True"
  obtains ok where "ok \<le> respOK c" "shed_admit bp ok (respErr c)"
    "respErr (snd (shed_step bp pc c)) = respErr c + 1"
  using assms by (cases pc) (auto simp: pc_ok_def split: if_splits)

lemma shed_step_within:
  assumes bp: "bp = initShedBudget gate budget" and "pc_ok bp c pc"
    and "shed.within gate budget (respOK c) (respErr c)"
  shows "shed.within gate budget (respOK (snd (shed_step bp pc c))) (respErr (snd (shed_step bp pc c)))"
proof (cases "pc \<noteq> Returned True \<and> fst (shed_step bp pc c) = Returned True")
  case True
  then obtain ok where "ok \<le> respOK c" "shed_admit bp ok (respErr c)"
      "respErr (snd (shed_step bp pc c)) = respErr c + 1"
    using shed_step_grant [OF assms(2)] by auto
  then show ?thesis
    using shed.grant_within bp by simp
next
  case False
  then have "respErr (snd (shed_step bp pc c)) = respErr c"
    by (auto simp: shed_step_charge)
  with assms(3) show ?thesis by simp
qed

lemma gov_run_within:
  assumes bp: "bp = initShedBudget gate budget"
    and "\<forall>pc \<in> set (fst s). pc_ok bp (snd s) pc"
    and "shed.within gate budget (respOK (snd s)) (respErr (snd s))"
    and "errors_counted es = 0"
  shows "shed.within gate budget (respOK (snd (gov_run bp es s))) (respErr (snd (gov_run bp es s)))"
  using assms(2-4)
proof (induction es arbitrary: s)
  case (Cons e es)
  obtain pcs c where s: "s = (pcs, c)" by force
  have nonneg: "0 \<le> errors_counted es'" for es'
    by (induction es' rule: errors_counted.induct) auto
  have zero: "errors_counted [e] = 0" "errors_counted es = 0"
    using Cons.prems(3) nonneg [of es] by (cases e; simp split: if_splits)+
  have "shed.within gate budget (respOK (snd (gov_exec bp e s))) (respErr (snd (gov_exec bp e s)))"
  proof (cases e)
    case (Shed i)
    have "shed.within gate budget (respOK (snd (shed_step bp (pcs ! i) c)))
        (respErr (snd (shed_step bp (pcs ! i) c)))" if "i < length pcs"
      using Cons.prems(1,2) s that by (intro shed_step_within [OF bp]) auto
    with Cons.prems(2) Shed s show ?thesis by (simp add: split_beta)
  next
    case (Count code)
    with zero(1) have "code < 400" by (simp split: if_splits)
    with Count Cons.prems(2) s show ?thesis
      by (auto simp: count_response_def intro: shed.ok_within)
  qed
  moreover have "\<forall>pc \<in> set (fst (gov_exec bp e s)). pc_ok bp (snd (gov_exec bp e s)) pc"
    using Cons.prems(1) by (rule gov_exec_pcs)
  ultimately show ?case
    using Cons.IH [of "gov_exec bp e s"] zero by (simp add: gov_run_def)
qed (simp add: gov_run_def)

text \<open>Alone, a call returns in three steps with the verdict of the whole-call function; and when it
  refuses, one more error would not fit (or fewer than 500 responses have been seen).\<close>

lemma shed_alone:
  "(let (pc1, c1) = shed_step bp LoadOK c; (pc2, c2) = shed_step bp pc1 c1
    in shed_step bp pc2 c2) =
   (Returned (fst (shedReserveError bp c)), snd (shedReserveError bp c))"
  by (auto simp: shedReserveError_def Let_def)

lemma shed_refused:
  "\<not> fst (shedReserveError bp c) \<longleftrightarrow>
     respOK c + respErr c < 500 \<or>
     (respOK c + respErr c) * bp < (respErr c + 1) * 10000"
  by (auto simp: shedReserveError_def shed_admit_def Let_def)

text \<open>A swap fails only when some other goroutine has changed the counter since it was loaded.\<close>

lemma cas_fails: "fst (shed_step bp (Cas ok er) c) = LoadErr ok \<longleftrightarrow> respErr c \<noteq> er"
  by simp

section \<open>A call on its own\<close>

text \<open>Without interference a call takes one pass of the loop and decides exactly the documented test:
  at least 500 responses seen, and one more error still within the budget of the responses seen.\<close>

theorem shedReserveError_alone:
  "(let (pc1, c1) = shed_step bp LoadOK c; (pc2, c2) = shed_step bp pc1 c1 in shed_step bp pc2 c2) =
     (Returned (fst (shedReserveError bp c)), snd (shedReserveError bp c)) \<and>
   (fst (shedReserveError bp c) \<longleftrightarrow>
     500 \<le> respOK c + respErr c \<and> (respErr c + 1) * 10000 \<le> (respOK c + respErr c) * bp) \<and>
   snd (shedReserveError bp c) =
     (if fst (shedReserveError bp c) then c\<lparr>respErr := respErr c + 1\<rparr> else c)"
proof -
  have "fst (shedReserveError bp c) \<longleftrightarrow>
      500 \<le> respOK c + respErr c \<and> (respErr c + 1) * 10000 \<le> (respOK c + respErr c) * bp"
    using shed_refused [of bp c] by auto
  moreover have "snd (shedReserveError bp c) =
      (if fst (shedReserveError bp c) then c\<lparr>respErr := respErr c + 1\<rparr> else c)"
    by (simp add: shedReserveError_def)
  ultimately show ?thesis using shed_alone by blast
qed

end
