(* ===== verification/Price_Store.thy ===== *)
theory Price_Store
  imports Go_Float Go_Json Governor Raw_Response
begin

text \<open>
  The price table and its write-ahead log (\<open>src/app/main.go\<close>): the tables \<open>init\<close> builds, the prebuilt
  responses, the log's lines, \<open>appendWAL\<close> with a file that can fail, and the replay of \<open>initPriceWAL\<close>.
  \<open>float_contract\<close> states what \<open>strconv\<close> and \<open>encoding/json\<close> document about them.
\<close>

section \<open>Floating point\<close>

text \<open>The shortest texts are JSON numbers that parse back; parsing yields finite numbers only, and the
  program's constants are finite.\<close>

definition float_contract :: "'f float64 \<Rightarrow> bool" where
  "float_contract F \<longleftrightarrow>
     (\<forall>x. ffinite F x \<longrightarrow>
        json_number (json_text F x) \<and> parse_json F (json_text F x) = Some x \<and>
        json_number (g_text F x) \<and> parse_json F (g_text F x) = Some x) \<and>
     (\<forall>s x. parse_json F s = Some x \<longrightarrow> ffinite F x) \<and> (\<forall>q. ffinite F (flit F q))"

section \<open>The tables\<close>

text \<open>What happens to one append to the log file.\<close>

datatype fault = NoFault | ShortWrite nat | SyncFails

text \<open>The log file: its bytes, how many of them are durable, and the faults to come.\<close>

record wal_file =
  wal_data :: string
  wal_synced :: nat
  wal_faults :: "fault list"

record 'f app =
  prices :: "string \<rightharpoonup> 'f"
  priceResp :: "string \<rightharpoonup> string"
  series :: "string \<rightharpoonup> 'f list"
  resp_counters :: counters
  walFile :: "wal_file option"

text \<open>\<open>"k":\<close> as the handlers and the JSON encoder write it.\<close>

definition json_key :: "string \<Rightarrow> string" where
  "json_key k = CHR 0x22 # k @ [CHR 0x22, CHR '':'']"

definition buildPriceResp :: "'f float64 \<Rightarrow> string \<Rightarrow> 'f \<Rightarrow> string" where
  "buildPriceResp F symb p =
     CHR ''{'' # json_key ''symbol'' @ CHR 0x22 # symb @ CHR 0x22 # CHR '','' # json_key ''price'' @
     g_text F p @ ''}''"

definition basePrices :: "(string \<times> rat) list" where
  "basePrices =
     [(''AAPL'', 18742 / 100), (''GOOG'', 14180 / 100), (''MSFT'', 41230 / 100), (''AMZN'', 17810 / 100),
      (''NVDA'', 12015 / 100), (''META'', 50260 / 100), (''TSLA'', 24470 / 100), (''JPM'', 19835 / 100)]"

definition series_point :: "'f float64 \<Rightarrow> 'f \<Rightarrow> nat \<Rightarrow> 'f" where
  "series_point F base i =
     fmul F base (fadd F (flit F 1) (fdiv F (fsin F (flit F (of_nat i))) (flit F 50)))"

definition set_price :: "'f float64 \<Rightarrow> string \<Rightarrow> 'f \<Rightarrow> 'f app \<Rightarrow> 'f app" where
  "set_price F symb p s =
     s\<lparr>prices := (prices s)(symb \<mapsto> p), priceResp := (priceResp s)(symb \<mapsto> buildPriceResp F symb p)\<rparr>"

definition init_symbol :: "'f float64 \<Rightarrow> string \<times> rat \<Rightarrow> 'f app \<Rightarrow> 'f app" where
  "init_symbol F e s =
     (let base = flit F (snd e); s = set_price F (fst e) base s in
      s\<lparr>series := (series s)(fst e \<mapsto> map (series_point F base) [0..<500])\<rparr>)"

definition init_app :: "'f float64 \<Rightarrow> 'f app" where
  "init_app F =
     fold (init_symbol F) basePrices
       \<lparr>prices = Map.empty, priceResp = Map.empty, series = Map.empty,
         resp_counters = \<lparr>respOK = 0, respErr = 0\<rparr>, walFile = None\<rparr>"

section \<open>Decoding\<close>

text \<open>Field names match without regard to case; of the other letters only U+017F folds to one of
  these names' letters.\<close>

definition upper_byte :: "char \<Rightarrow> char" where
  "upper_byte c = (if in_range 97 122 c then char_of (ord_of c - 32) else c)"

fun fold_key :: "string \<Rightarrow> string" where
  "fold_key [] = []"
| "fold_key [c] = [upper_byte c]"
| "fold_key (a # b # cs) =
     (if a = CHR 0xC5 \<and> b = CHR 0xBF then CHR ''S'' # fold_key cs else upper_byte a # fold_key (b # cs))"

text \<open>The struct being filled: symbol, price (\<open>None\<close> is the nil pointer), and whether some member had the
  wrong type or a number was out of range.\<close>

record 'f entry =
  entry_symbol :: string
  entry_price :: "'f option"
  entry_error :: bool

text \<open>\<open>null\<close> sets a pointer to nil and leaves a plain field alone.\<close>

definition decode_member :: "'f float64 \<Rightarrow> bool \<Rightarrow> 'f entry \<Rightarrow> string \<times> json \<Rightarrow> 'f entry" where
  "decode_member F pointer e m =
     (if fold_key (fst m) = ''SYMBOL'' then
        (case snd m of
           JStr s \<Rightarrow> e\<lparr>entry_symbol := s\<rparr>
         | JNull \<Rightarrow> e
         | _ \<Rightarrow> e\<lparr>entry_error := True\<rparr>)
      else if fold_key (fst m) = ''PRICE'' then
        (case snd m of
           JNum raw \<Rightarrow>
             (case parse_json F raw of
                Some x \<Rightarrow> e\<lparr>entry_price := Some x\<rparr>
              | None \<Rightarrow> e\<lparr>entry_error := True\<rparr>)
         | JNull \<Rightarrow> if pointer then e\<lparr>entry_price := None\<rparr> else e
         | _ \<Rightarrow> e\<lparr>entry_error := True\<rparr>)
      else e)"

definition decode_entry :: "'f float64 \<Rightarrow> bool \<Rightarrow> 'f entry \<Rightarrow> json \<Rightarrow> 'f entry" where
  "decode_entry F pointer e v =
     (case v of
        JObj ms \<Rightarrow> foldl (decode_member F pointer) e ms
      | JNull \<Rightarrow> e
      | _ \<Rightarrow> e\<lparr>entry_error := True\<rparr>)"

text \<open>A line of the log: \<open>json.Unmarshal\<close> into a \<open>walEntry\<close>; \<open>None\<close> is a line the replay skips.\<close>

definition wal_line :: "'f float64 \<Rightarrow> string \<Rightarrow> (string \<times> 'f) option" where
  "wal_line F line =
     (case json_whole line of
        None \<Rightarrow> None
      | Some v \<Rightarrow>
          let e = decode_entry F False \<lparr>entry_symbol = [], entry_price = Some (flit F 0), entry_error = False\<rparr> v
          in if entry_error e \<or> entry_symbol e = [] then None
             else map_option (\<lambda>x. (entry_symbol e, x)) (entry_price e))"

section \<open>The log\<close>

definition marshal_entry :: "'f float64 \<Rightarrow> string \<Rightarrow> 'f \<Rightarrow> string" where
  "marshal_entry F symb p =
     (if ffinite F p
      then CHR ''{'' # json_key ''symbol'' @ json_string symb @ CHR '','' # json_key ''price'' @
        json_text F p @ ''}''
      else [])"

definition replay_line :: "'f float64 \<Rightarrow> string \<Rightarrow> 'f app \<Rightarrow> 'f app" where
  "replay_line F line s =
     (if line = [] then s
      else case wal_line F line of None \<Rightarrow> s | Some (symb, p) \<Rightarrow> set_price F symb p s)"

text \<open>\<open>disk\<close> is what the path holds: \<open>None\<close> when it cannot be opened, else the bytes (none, for a file just
  created) and whether reading them works. The bytes are those that survived the last crash of the machine, so they
  count as durable; the code does not sync them, and when only the process was restarted a tail that no \<open>Sync\<close> has
  covered is durable from the next one on.\<close>

definition initPriceWAL :: "'f float64 \<Rightarrow> string \<Rightarrow> (string \<times> bool) option \<Rightarrow> fault list \<Rightarrow> 'f app \<Rightarrow> 'f app" where
  "initPriceWAL F path disk faults s =
     (if path = [] then s
      else case disk of
             None \<Rightarrow> s
           | Some (data, readable) \<Rightarrow>
               let s = (if readable then fold (replay_line F) (split_byte (CHR 0x0A) data) s else s) in
               s\<lparr>walFile := Some \<lparr>wal_data = data, wal_synced = length data, wal_faults = faults\<rparr>\<rparr>)"

text \<open>\<open>Write\<close> then \<open>Sync\<close>; the result is whether both succeeded. A short write leaves its bytes in the
  file.\<close>

definition file_append :: "string \<Rightarrow> wal_file \<Rightarrow> bool \<times> wal_file" where
  "file_append line f =
     (let rest = tl (wal_faults f) in
      case wal_faults f of
        ShortWrite k # _ \<Rightarrow> (False, f\<lparr>wal_data := wal_data f @ take k line, wal_faults := rest\<rparr>)
      | SyncFails # _ \<Rightarrow> (False, f\<lparr>wal_data := wal_data f @ line, wal_faults := rest\<rparr>)
      | _ \<Rightarrow> (True, f\<lparr>wal_data := wal_data f @ line, wal_synced := length (wal_data f @ line),
                  wal_faults := rest\<rparr>))"

definition appendWAL :: "'f float64 \<Rightarrow> string \<Rightarrow> 'f \<Rightarrow> 'f app \<Rightarrow> bool \<times> 'f app" where
  "appendWAL F symb p s =
     (case walFile s of
        None \<Rightarrow> (True, s)
      | Some f \<Rightarrow>
          let (ok, f) = file_append (marshal_entry F symb p @ [CHR 0x0A]) f in
          (ok, s\<lparr>walFile := Some f\<rparr>))"

end
