(* ===== verification/Price_Log.thy ===== *)
theory Price_Log
  imports Price_Store
begin

text \<open>
  Facts about the log: an entry reads back as it was written, an entry has no line feed, a proper beginning of an
  entry is never taken for one, and an entry glued to anything else is never taken for one either.
\<close>

section \<open>Entries round trip\<close>

lemma json_key_run:
  assumes "\<forall>c \<in> set k. c \<noteq> CHR 0x22 \<and> c \<noteq> CHR 0x5C \<and> 32 \<le> ord_of c" "unquote k = k"
    and "m \<in> {MKey, MKeyOrEnd}"
  shows "jrun (m, FObj ms None # st) (json_key k) = (MValue, FObj ms (Some k) # st)"
proof -
  have "jrun (m, FObj ms None # st) (json_key k) =
      jrun (jstep (jrun (MString [], FObj ms None # st) k) (CHR 0x22)) '':''"
    using assms(3) by (auto simp: json_key_def is_json_space_def)
  then show ?thesis
    using assms(2) jrun_plain [OF assms(1), of "[]"] by (simp add: finish_string_def is_json_space_def)
qed

lemma unquote_names: "unquote ''symbol'' = ''symbol''" "unquote ''price'' = ''price''"
  by (simp_all add: unquote_plain)

lemmas key_runs =
  json_key_run [of "''symbol''", OF _ unquote_names(1), simplified]
  json_key_run [of "''price''", OF _ unquote_names(2), simplified]

lemma jrun_json_value_string:
  "jrun (MValue, FObj ms (Some k) # st) (json_string s) =
     (MAfter, FObj (ms @ [(k, JStr (unquote (escape s)))]) None # st)"
  by (simp add: jrun_json_string finish_string_def finish_def)

definition entry_text :: "string \<Rightarrow> string \<Rightarrow> string" where
  "entry_text str num =
     CHR ''{'' # json_key ''symbol'' @ str @ CHR '','' # json_key ''price'' @ num @ ''}''"

text \<open>From any place where a value may start, an entry runs to the complete object.\<close>

lemma jrun_entry:
  assumes "json_number num" "length st < maxNestingDepth"
  shows "jrun (MValue, st) (entry_text (json_string s) num) =
    finish (JObj [(''symbol'', JStr (unquote (escape s))), (''price'', JNum num)]) st"
proof -
  let ?k = "(''symbol'', JStr (unquote (escape s)))"
  have 1: "jrun (MValue, st) (CHR ''{'' # json_key ''symbol'' @ json_string s) =
      (MAfter, FObj [?k] None # st)"
    using assms(2)
    by (simp add: begin_value_def push_def is_json_space_def key_runs jrun_json_value_string)
  obtain n where n: "jrun (MValue, FObj [?k] (Some ''price'') # st) num =
      (MNumber n num, FObj [?k] (Some ''price'') # st)" "num_ends n"
    using jrun_number [OF assms(1)] by blast
  have "jrun (MValue, st) (entry_text (json_string s) num) =
      jrun (jrun (jrun (jrun (MValue, st) (CHR ''{'' # json_key ''symbol'' @ json_string s)) '','')
        (json_key ''price'')) (num @ ''}'')"
    by (simp add: entry_text_def)
  also have "\<dots> = jrun (MValue, FObj [?k] (Some ''price'') # st) (num @ ''}'')"
    unfolding 1 by (simp add: step_end_def is_json_space_def after_value_def key_runs)
  also have "\<dots> = jstep (MNumber n num, FObj [?k] (Some ''price'') # st) (CHR ''}'')"
    unfolding jrun_simps(3) n(1) by simp
  also have "\<dots> = finish (JObj [?k, (''price'', JNum num)]) st"
    using n(2) by (subst jstep_number_end)
      (simp_all add: finish_def step_end_def is_json_space_def after_value_def)
  finally show ?thesis .
qed

lemma marshal_entry_text:
  "ffinite F p \<Longrightarrow> marshal_entry F symb p = entry_text (json_string symb) (json_text F p)"
  by (simp add: marshal_entry_def entry_text_def)

lemma contractD:
  assumes "float_contract F" "ffinite F p"
  shows "json_number (json_text F p)" "parse_json F (json_text F p) = Some p"
    "json_number (g_text F p)" "parse_json F (g_text F p) = Some p"
  using assms by (auto simp: float_contract_def)

lemma unquote_escape_valid: "valid_utf8 s \<Longrightarrow> unquote (escape s) = s"
  using unquote_escape [of s "[]"] by simp

lemma json_whole_entry:
  "json_number num \<Longrightarrow> json_whole (entry_text (json_string s) num) =
     Some (JObj [(''symbol'', JStr (unquote (escape s))), (''price'', JNum num)])"
  by (simp add: json_whole_def jrun_entry maxNestingDepth_def finish_def jvalue_def)

lemma fold_key_names [simp]: "fold_key ''symbol'' = ''SYMBOL''" "fold_key ''price'' = ''PRICE''"
  by code_simp+

declare fold_key.simps [simp del]

lemma wal_line_marshal:
  assumes "float_contract F" "ffinite F p" "valid_utf8 symb" "symb \<noteq> []"
  shows "wal_line F (marshal_entry F symb p) = Some (symb, p)"
  using assms contractD [OF assms(1,2)]
  by (simp add: wal_line_def marshal_entry_text json_whole_entry decode_entry_def decode_member_def
      fold_key_names unquote_escape_valid)

section \<open>No line feed inside\<close>

lemma is_digit_0: "is_digit (CHR ''0'')"
  by (simp add: is_digit_def digit_val_def)

lemma json_number_chars:
  assumes "json_number s" "c \<in> set s"
  shows "is_digit c \<or> c \<in> {CHR ''-'', CHR ''+'', CHR ''.'', CHR ''e'', CHR ''E''}"
proof -
  have next_char: "num_next n c = Some n' \<Longrightarrow> is_digit c \<or> c \<in> {CHR ''-'', CHR ''+'', CHR ''.'', CHR ''e'', CHR ''E''}"
    for n c n'
    using is_digit_0 by (cases n) (auto simp: num_next_def Let_def split: if_splits)
  have run: "num_run n cs = Some n' \<Longrightarrow> c \<in> set cs \<Longrightarrow>
      is_digit c \<or> c \<in> {CHR ''-'', CHR ''+'', CHR ''.'', CHR ''e'', CHR ''E''}" for n n' cs
    by (induction cs arbitrary: n) (auto simp: bind_eq_Some_conv dest: next_char)
  obtain c0 cs n0 n where s: "s = c0 # cs" "num_first c0 = Some n0" "num_run n0 cs = Some n"
    using assms(1) by (auto simp: json_number_def bind_eq_Some_conv split: list.splits option.splits)
  have "is_digit c0 \<or> c0 \<in> {CHR ''-'', CHR ''+'', CHR ''.'', CHR ''e'', CHR ''E''}"
    using s(2) is_digit_0 by (auto simp: num_first_def split: if_splits)
  with s assms(2) run show ?thesis by auto
qed

lemma json_number_no_lf: "json_number s \<Longrightarrow> CHR 0x0A \<notin> set s"
  using json_number_chars [of s "CHR 0x0A"] by (auto simp: is_digit_def digit_val_def)

lemma hex_char_code: "d < 16 \<Longrightarrow> 48 \<le> ord_of (hex_char d)"
  by (simp add: hex_char_def)

lemma escape_ascii_codes: "ord_of c < 128 \<Longrightarrow> x \<in> set (escape_ascii c) \<Longrightarrow> 32 \<le> ord_of x"
proof -
  assume c: "ord_of c < 128" and x: "x \<in> set (escape_ascii c)"
  have h: "48 \<le> ord_of (hex_char (ord_of c div 16))" "48 \<le> ord_of (hex_char (ord_of c mod 16))"
    using c by (auto intro!: hex_char_code)
  have "\<forall>x \<in> set (escape_ascii c). 32 \<le> ord_of x"
    unfolding escape_ascii_def using h by (auto split: if_split)
  with x show "32 \<le> ord_of x" by blast
qed

lemma escape_codes: "x \<in> set (escape s) \<Longrightarrow> 32 \<le> ord_of x"
proof (induction s rule: escape.induct)
  case (2 c cs)
  show ?case
  proof (cases "ord_of c < 128")
    case True
    with 2 escape_ascii_codes [OF True, of x] show ?thesis by auto
  next
    case False
    show ?thesis
    proof (cases "multi_len (c # cs)")
      case None
      with False 2 show ?thesis by auto
    next
      case (Some n)
      have "\<forall>x \<in> set (if P then CHR 0x5C # ''u2028'' else if Q then CHR 0x5C # ''u2029'' else take n (c # cs)).
          32 \<le> ord_of x" for P Q
        using multi_len_high [OF Some] by (cases P; cases Q) force+
      then show ?thesis
        using "2.prems" "2.IH"(3) [OF False Some] Some False by fastforce
    qed
  qed
qed simp

lemma marshal_entry_no_lf:
  assumes "float_contract F" "ffinite F p"
  shows "CHR 0x0A \<notin> set (marshal_entry F symb p)"
proof -
  have "CHR 0x0A \<notin> set (escape symb)"
    using escape_codes [of "CHR 0x0A" symb] by auto
  then show ?thesis
    using json_number_no_lf [OF contractD(1) [OF assms]] assms(2)
    by (simp add: marshal_entry_text entry_text_def json_key_def json_string_def)
qed


section \<open>Torn entries\<close>

text \<open>What the scanner's states reached from the start satisfy.\<close>

definition jinv :: "jstate \<Rightarrow> bool" where
  "jinv s \<longleftrightarrow>
     (fst s \<in> {MValueOrEnd, MColon} \<longrightarrow> snd s \<noteq> []) \<and>
     (\<forall>ls v. fst s = MLiteral ls v \<longrightarrow> CHR ''{'' \<notin> set ls)"

lemma finish_modes:
  "fst (finish v st) \<in> {MDone v, MAfter, MFail}"
  by (auto simp: finish_def split: list.splits jframe.splits option.splits)

lemma finish_string_modes:
  "fst (finish_string raw st) \<in> {MDone (JStr (unquote raw)), MAfter, MFail} \<or>
   fst (finish_string raw st) = MColon \<and> snd (finish_string raw st) \<noteq> []"
  using finish_modes [of "JStr (unquote raw)" st]
  by (auto simp: finish_string_def split: list.splits jframe.splits option.splits)

lemma after_value_modes:
  "fst (after_value c st) \<in> {MValue, MKey, MAfter, MFail} \<or> (\<exists>v. fst (after_value c st) = MDone v)"
  using finish_modes by (fastforce simp: after_value_def split: list.splits jframe.splits)

lemma jinv_simple: "fst s \<in> {MValue, MKey, MKeyOrEnd, MAfter, MFail} \<Longrightarrow> jinv s"
  "fst s = MDone v \<Longrightarrow> jinv s" "fst s = MString raw \<Longrightarrow> jinv s" "fst s = MEscape raw \<Longrightarrow> jinv s"
  "fst s = MHex k raw \<Longrightarrow> jinv s" "fst s = MNumber n raw \<Longrightarrow> jinv s"
  by (auto simp: jinv_def)

lemma jinv_pairs [simp]:
  "jinv (MValue, st)" "jinv (MKey, st)" "jinv (MKeyOrEnd, st)" "jinv (MAfter, st)" "jinv (MFail, st)"
  "jinv (MDone v, st)" "jinv (MString raw, st)" "jinv (MEscape raw, st)" "jinv (MHex k raw, st)"
  "jinv (MNumber n raw, st)" "jinv (MValueOrEnd, st) \<longleftrightarrow> st \<noteq> []" "jinv (MColon, st) \<longleftrightarrow> st \<noteq> []"
  "jinv (MLiteral ls v, st) \<longleftrightarrow> CHR ''{'' \<notin> set ls"
  by (simp_all add: jinv_def)

lemma jinv_finish: "jinv (finish v st)"
  using finish_modes [of v st] by (auto intro: jinv_simple)

lemma jinv_after: "jinv (after_value c st)"
  using after_value_modes [of c st] by (auto intro: jinv_simple)

lemma jinv_finish_string: "jinv (finish_string raw st)"
  using finish_string_modes [of raw st] by (auto simp: jinv_def)

lemma jinv_begin: "jinv (begin_value c st)"
  by (simp add: begin_value_def push_def)

lemma jinv_step_end: "jinv s \<Longrightarrow> jinv (step_end s c)"
  by (cases s) (auto simp: step_end_def jinv_after split: jmode.splits)

lemmas jinv_parts = jinv_finish jinv_after jinv_finish_string jinv_begin jinv_step_end

lemma jinv_step: "jinv s \<Longrightarrow> jinv (jstep s c)"
proof (induction s c rule: jstep.induct)
  case (10 n raw st c)
  show ?case by (simp add: jinv_parts split: option.split)
qed (simp_all add: jinv_parts)

lemma jinv_run: "jinv s \<Longrightarrow> jinv (jrun s cs)"
  by (induction cs arbitrary: s) (auto simp: jinv_step)

text \<open>The scanner never comes back to its first state.\<close>

lemma not_start:
  assumes "jinv s" "s \<noteq> (MValue, [])" "jstep s c = (MValue, [])"
  shows False
  using assms
proof (induction s c rule: jstep.induct)
  case (3 st c)
  then show ?case
    by (auto simp: after_value_def finish_def split: if_splits list.splits jframe.splits option.splits)
next
  case (10 n raw st c)
  then show ?case
    by (auto simp: after_value_def step_end_def finish_def
        split: if_splits list.splits jframe.splits option.splits)
qed (auto simp: begin_value_def push_def after_value_def finish_def finish_string_def step_end_def
    split: if_splits list.splits jframe.splits option.splits)


lemma jinv_start: "jinv (MValue, [])"
  by simp

lemma jrun_not_start:
  "jinv s \<Longrightarrow> s \<noteq> (MValue, []) \<Longrightarrow> jrun s cs \<noteq> (MValue, [])"
proof (induction cs arbitrary: s)
  case (Cons c cs)
  then have "jstep s c \<noteq> (MValue, [])" using not_start by blast
  with Cons jinv_step show ?case by simp
qed simp

lemma entry_text_start:
  "\<exists>r. entry_text str num = CHR ''{'' # CHR 0x22 # CHR ''s'' # r"
  by (simp add: entry_text_def json_key_def)

lemma jvalue_fail [simp]: "jvalue (MFail, st) = None" "jvalue (MAfter, st) = None"
  by (simp_all add: jvalue_def)

lemma finish_nonempty: "st \<noteq> [] \<Longrightarrow> jvalue (finish v st) = None"
  by (cases st) (auto simp: finish_def split: jframe.splits option.splits)

text \<open>After any complete or half-read string the letter behind an entry's first quote is an error.\<close>

lemma finish_string_s: "\<exists>st'. jstep (finish_string raw st) (CHR ''s'') = (MFail, st')"
proof -
  obtain m st' where m: "finish_string raw st = (m, st')" by (cases "finish_string raw st")
  have "m \<in> {MDone (JStr (unquote raw)), MAfter, MFail, MColon}"
    using finish_string_modes [of raw st] m by auto
  then show ?thesis
    unfolding m by (auto simp: step_end_def is_json_space_def after_value_def
        split: list.splits jframe.splits)
qed

text \<open>A value just finished cannot be followed by an opening brace.\<close>

lemma finish_brace: "\<exists>st'. step_end (finish v st) (CHR ''{'') = (MFail, st')"
proof -
  obtain m st' where m: "finish v st = (m, st')" by (cases "finish v st")
  have "m \<in> {MDone v, MAfter, MFail}"
    using finish_modes [of v st] m by auto
  then show ?thesis
    unfolding m by (auto simp: step_end_def is_json_space_def after_value_def
        split: list.splits jframe.splits)
qed

lemma num_next_brace: "num_next n (CHR ''{'') = None"
  by (cases n) (simp_all add: num_next_def is_digit_def digit_val_def)

text \<open>Glued to a non-empty text, an entry is never the end of a value: the torn line swallows it.\<close>

lemma glued_entry:
  assumes "jinv s" "s \<noteq> (MValue, [])" "json_number num"
  shows "jvalue (jrun s (entry_text (json_string x) num)) = None"
proof -
  obtain r where r: "entry_text (json_string x) num = CHR ''{'' # CHR 0x22 # CHR ''s'' # r"
    using entry_text_start by blast
  obtain m st where s: "s = (m, st)" by (cases s)
  have val: "st \<noteq> [] \<Longrightarrow> jvalue (jrun (MValue, st) (entry_text (json_string x) num)) = None"
  proof (cases "length st < maxNestingDepth")
    case True
    assume "st \<noteq> []"
    then show ?thesis by (simp add: jrun_entry [OF assms(3) True] finish_nonempty)
  next
    case False
    then show ?thesis by (simp add: r begin_value_def push_def is_json_space_def)
  qed
  have fails: "jvalue (jrun s' cs) = None" if "s' = (MFail, st')" for s' st' cs
    using that by simp
  have str: "jvalue (jrun (MString raw, st) (entry_text (json_string x) num)) = None" for raw
  proof -
    obtain st' where "jstep (finish_string (raw @ ''{'') st) (CHR ''s'') = (MFail, st')"
      using finish_string_s by blast
    then show ?thesis by (simp add: r)
  qed
  show ?thesis
  proof (cases m)
    case MValue
    with s assms(2) val show ?thesis by simp
  next
    case MValueOrEnd
    with s assms(1) have "st \<noteq> []" by simp
    moreover have "jrun (MValueOrEnd, st) (entry_text (json_string x) num) =
        jrun (MValue, st) (entry_text (json_string x) num)"
      by (simp add: r is_json_space_def)
    ultimately show ?thesis using s MValueOrEnd val by simp
  next
    case (MString raw)
    with s str show ?thesis by simp
  next
    case (MNumber n raw)
    obtain st' where "step_end (finish (JNum raw) st) (CHR ''{'') = (MFail, st')"
      using finish_brace by blast
    with s MNumber show ?thesis by (simp add: r num_next_brace)
  next
    case (MLiteral ls v)
    with s assms(1) show ?thesis by (cases ls) (auto simp: r)
  next
    case MAfter
    with s show ?thesis
      by (auto simp: r step_end_def is_json_space_def after_value_def split: list.splits jframe.splits)
  qed (use s in \<open>simp_all add: r is_json_space_def step_end_def unhex_def\<close>)
qed

lemma json_whole_glued:
  assumes "p = CHR ''{'' # p'" "json_number num"
  shows "json_whole (p @ entry_text (json_string x) num) = None"
proof -
  have "jrun (MValue, []) p = jrun (MKeyOrEnd, [FObj [] None]) p'"
    by (simp add: assms(1) begin_value_def push_def is_json_space_def maxNestingDepth_def)
  then have "jrun (MValue, []) p \<noteq> (MValue, [])"
    using jrun_not_start [of "(MKeyOrEnd, [FObj [] None])" p'] by simp
  then show ?thesis
    using glued_entry [OF jinv_run [OF jinv_start] _ assms(2)] by (simp add: json_whole_def)
qed

text \<open>Values at the top level that are numbers stay numbers.\<close>

fun numtop :: "jstate \<Rightarrow> bool" where
  "numtop (MNumber n raw, []) = True"
| "numtop (MDone (JNum raw), []) = True"
| "numtop (MFail, st) = True"
| "numtop _ = False"

lemma numtop_step: "numtop s \<Longrightarrow> numtop (jstep s c)"
  by (induction s rule: numtop.induct) (auto simp: step_end_def finish_def split: option.splits)

lemma numtop_run: "numtop s \<Longrightarrow> numtop (jrun s cs)"
  by (induction cs arbitrary: s) (auto simp: numtop_step)

lemma jdone_run:
  "jvalue (jrun (MDone v, st) cs) \<noteq> None \<Longrightarrow> \<forall>c \<in> set cs. is_json_space c"
proof (induction cs)
  case (Cons c cs)
  then show ?case by (cases "is_json_space c") (auto simp: step_end_def)
qed simp

text \<open>A proper beginning of a complete object is not a value.\<close>

lemma json_whole_torn:
  assumes "json_whole (p @ q) = Some (JObj ms)" "q \<noteq> []" "last q = CHR ''}''"
  shows "json_whole p = None"
proof (rule ccontr)
  assume "json_whole p \<noteq> None"
  then obtain v where v: "jvalue (jrun (MValue, []) p) = Some v" by (auto simp: json_whole_def)
  obtain m st where s: "jrun (MValue, []) p = (m, st)" by (cases "jrun (MValue, []) p")
  have all: "jvalue (jrun (m, st) q) = Some (JObj ms)"
    using assms(1) by (simp add: json_whole_def s)
  show False
  proof (cases m)
    case (MDone w)
    with all have "\<forall>c \<in> set q. is_json_space c" by (intro jdone_run [of w st]) simp
    with assms(2,3) have "is_json_space (CHR ''}'')" using last_in_set by metis
    then show False by (simp add: is_json_space_def)
  next
    case (MNumber n raw)
    with s v have "st = []" by (auto simp: jvalue_def split: list.splits)
    with MNumber have "numtop (jrun (m, st) q)" by (intro numtop_run) simp
    with all show False
      by (cases "jrun (m, st) q" rule: numtop.cases) (auto simp: jvalue_def split: if_splits)
  qed (use s v in \<open>auto simp: jvalue_def\<close>)
qed

lemma wal_line_torn:
  assumes "float_contract F" "ffinite F p" "k < length (marshal_entry F symb p)"
  shows "wal_line F (take k (marshal_entry F symb p)) = None"
proof -
  let ?m = "marshal_entry F symb p"
  have "json_whole (take k ?m @ drop k ?m) =
      Some (JObj [(''symbol'', JStr (unquote (escape symb))), (''price'', JNum (json_text F p))])"
    using json_whole_entry [OF contractD(1) [OF assms(1,2)]] by (simp add: marshal_entry_text [OF assms(2)])
  moreover have "drop k ?m \<noteq> []" "last (drop k ?m) = CHR ''}''"
    using assms(3) by (simp_all add: last_drop marshal_entry_text [OF assms(2)] entry_text_def)
  ultimately have "json_whole (take k ?m) = None" by (rule json_whole_torn)
  then show ?thesis by (simp add: wal_line_def)
qed

lemma wal_line_glued:
  assumes "float_contract F" "ffinite F p" "ffinite F p'" "0 < k"
  shows "wal_line F (take k (marshal_entry F symb p) @ marshal_entry F symb' p') = None"
proof -
  obtain r where "take k (marshal_entry F symb p) = CHR ''{'' # r"
    using assms(4) by (cases k) (simp_all add: marshal_entry_text [OF assms(2)] entry_text_def)
  then have "json_whole (take k (marshal_entry F symb p) @ marshal_entry F symb' p') = None"
    unfolding marshal_entry_text [OF assms(3)]
    using json_whole_glued contractD(1) [OF assms(1,3)] by blast
  then show ?thesis by (simp add: wal_line_def)
qed

section \<open>Replaying a file\<close>

definition replay :: "'f float64 \<Rightarrow> string \<Rightarrow> 'f app \<Rightarrow> 'f app" where
  "replay F data s = fold (replay_line F) (split_byte (CHR 0x0A) data) s"

definition wal_clean :: "string \<Rightarrow> bool" where
  "wal_clean data \<longleftrightarrow> data = [] \<or> last data = CHR 0x0A"

lemma split_byte_append_sep: "split_byte c (a @ c # b) = split_byte c a @ split_byte c b"
  by (induction a) (auto split: list.splits)

lemma replay_Nil [simp]: "replay F [] s = s"
  by (simp add: replay_def replay_line_def)

lemma replay_append:
  assumes "wal_clean data"
  shows "replay F (data @ t) s = replay F t (replay F data s)"
proof (cases "data = []")
  case False
  then obtain a where a: "data = a @ [CHR 0x0A]"
    using assms by (metis append_butlast_last_id wal_clean_def)
  show ?thesis
    using split_byte_append_sep [of "CHR 0x0A" a "[]"]
    by (simp add: replay_def a split_byte_append_sep replay_line_def)
qed simp

lemma replay_one: "CHR 0x0A \<notin> set l \<Longrightarrow> replay F l s = replay_line F l s"
  by (simp add: replay_def split_byte_line)

lemma replay_entry:
  assumes "float_contract F" "ffinite F p" "valid_utf8 symb" "symb \<noteq> []"
  shows "replay F (marshal_entry F symb p) s = set_price F symb p s"
    "replay F (marshal_entry F symb p @ [CHR 0x0A]) s = set_price F symb p s"
proof -
  have "marshal_entry F symb p \<noteq> []"
    by (simp add: marshal_entry_text [OF assms(2)] entry_text_def)
  then show 1: "replay F (marshal_entry F symb p) s = set_price F symb p s"
    using wal_line_marshal [OF assms] marshal_entry_no_lf [OF assms(1,2)]
    by (simp add: replay_one replay_line_def)
  have "split_byte (CHR 0x0A) (marshal_entry F symb p @ [CHR 0x0A]) =
      split_byte (CHR 0x0A) (marshal_entry F symb p) @ [[]]"
    using split_byte_append_sep [of "CHR 0x0A" _ "[]"] by simp
  then show "replay F (marshal_entry F symb p @ [CHR 0x0A]) s = set_price F symb p s"
    using 1 by (simp add: replay_def replay_line_def)
qed

lemma replay_torn:
  assumes "float_contract F" "ffinite F p" "k < length (marshal_entry F symb p)"
  shows "replay F (take k (marshal_entry F symb p)) s = s"
proof -
  have "CHR 0x0A \<notin> set (take k (marshal_entry F symb p))"
    using marshal_entry_no_lf [OF assms(1,2)] by (meson in_set_takeD)
  then show ?thesis
    using wal_line_torn [OF assms] by (simp add: replay_one replay_line_def)
qed

end
