(* ===== verification/Handlers.thy ===== *)
theory Handlers
  imports Raw_Http Price_Log
begin

text \<open>
  The endpoint handlers of \<open>src/app/main.go\<close> and the dispatch of both servers. A handler takes the request, the
  response writer of whichever server runs it, and the program's tables; \<open>riskSubmit\<close> is an argument here
  (the admission gate is modelled step by step in the \<open>Gate\<close> theories, and \<open>risk_reply\<close> says what the handler
  makes of its result). The last section instantiates the request loop with the program's dispatch.
\<close>

type_synonym 'f http = "writer \<times> 'f app"

section \<open>Fixed bodies\<close>

definition quoted :: "string \<Rightarrow> string" where
  "quoted s = CHR 0x22 # s @ [CHR 0x22]"

definition healthBody :: string where
  "healthBody = CHR ''{'' # json_key ''status'' @ quoted ''ok'' @ ''}''"

definition error_body :: "string \<Rightarrow> string" where
  "error_body msg = CHR ''{'' # json_key ''error'' @ quoted msg @ ''}''"

definition notFound :: string where
  "notFound = error_body ''unknown symbol''"

definition overloadedBody :: string where
  "overloadedBody = error_body ''overloaded, try again''"

section \<open>Writing\<close>

definition writeUncounted :: "int \<Rightarrow> string \<Rightarrow> 'f http \<Rightarrow> 'f http" where
  "writeUncounted code body h = (writeJSONUncounted code body (fst h), snd h)"

text \<open>The write, then the count of the response: one function of the handler's own state. Between the two the other
  goroutines run; the theory \<open>Service\<close> makes them two steps.\<close>

definition writeJSON :: "int \<Rightarrow> string \<Rightarrow> 'f http \<Rightarrow> 'f http" where
  "writeJSON code body h =
     (let (w, s) = writeUncounted code body h in
      (w, s\<lparr>resp_counters := count_response code (resp_counters s)\<rparr>))"

section \<open>Prices\<close>

definition decode_post :: "'f float64 \<Rightarrow> string \<Rightarrow> (string \<times> 'f) option" where
  "decode_post F body =
     (case json_first body of
        None \<Rightarrow> None
      | Some v \<Rightarrow>
          let e = decode_entry F True \<lparr>entry_symbol = [], entry_price = None, entry_error = False\<rparr> v in
          if entry_error e \<or> entry_symbol e = [] then None
          else map_option (\<lambda>p. (entry_symbol e, p)) (entry_price e))"

definition handlePricePost :: "'f float64 \<Rightarrow> request \<Rightarrow> 'f http \<Rightarrow> 'f http" where
  "handlePricePost F r h =
     (case decode_post F (Body r) of
        None \<Rightarrow> writeJSON 400 (error_body ''symbol and numeric price required'') h
      | Some (symb, p) \<Rightarrow>
          let (durable, s) = appendWAL F symb p (snd h) in
          if \<not> durable then writeJSON 500 (error_body ''persistence failure'') (fst h, s)
          else let s = set_price F symb p s in
            writeJSON 200 (the (priceResp s symb)) (fst h, s))"

definition handlePrice :: "'f float64 \<Rightarrow> request \<Rightarrow> 'f http \<Rightarrow> 'f http" where
  "handlePrice F r h =
     (if Method r = ''POST'' then handlePricePost F r h
      else case priceResp (snd h) (symbolParam (RawQuery r)) of
             None \<Rightarrow> writeJSON 404 notFound h
           | Some body \<Rightarrow> writeJSON 200 body h)"

section \<open>Statistics\<close>

text \<open>The first loop: sum, minimum and maximum, from zero and the first element.\<close>

definition stats_step :: "'f float64 \<Rightarrow> 'f \<times> 'f \<times> 'f \<Rightarrow> 'f \<Rightarrow> 'f \<times> 'f \<times> 'f" where
  "stats_step F acc v =
     (let (total, mn, mx) = acc in
      (fadd F total v, if fless F v mn then v else mn, if fless F mx v then v else mx))"

text \<open>The second loop: the squared deviations.\<close>

definition variance_step :: "'f float64 \<Rightarrow> 'f \<Rightarrow> 'f \<Rightarrow> 'f \<Rightarrow> 'f" where
  "variance_step F mean varr v = (let d = fsub F v mean in fadd F varr (fmul F d d))"

text \<open>Mean, minimum, maximum and standard deviation of a non-empty series.\<close>

definition stats_of :: "'f float64 \<Rightarrow> 'f list \<Rightarrow> 'f \<times> 'f \<times> 'f \<times> 'f" where
  "stats_of F arr =
     (let (total, mn, mx) = foldl (stats_step F) (flit F 0, hd arr, hd arr) arr;
          n = flit F (of_nat (length arr));
          mean = fdiv F total n;
          varr = foldl (variance_step F mean) (flit F 0) arr
      in (mean, mn, mx, fsqrt F (fdiv F varr n)))"

definition stats_body :: "'f float64 \<Rightarrow> string \<Rightarrow> 'f \<times> 'f \<times> 'f \<times> 'f \<Rightarrow> string" where
  "stats_body F symb st =
     (let (mean, mn, mx, dev) = st in
      CHR ''{'' # json_key ''symbol'' @ quoted symb @ CHR '','' # json_key ''mean'' @ g_text F mean @
      CHR '','' # json_key ''min'' @ g_text F mn @ CHR '','' # json_key ''max'' @ g_text F mx @
      CHR '','' # json_key ''stddev'' @ g_text F dev @ ''}'')"

definition handleStats :: "'f float64 \<Rightarrow> request \<Rightarrow> 'f http \<Rightarrow> 'f http" where
  "handleStats F r h =
     (let symb = symbolParam (RawQuery r) in
      case series (snd h) symb of
        None \<Rightarrow> writeJSON 404 notFound h
      | Some arr \<Rightarrow> writeJSON 200 (stats_body F symb (stats_of F arr)) h)"

section \<open>Risk\<close>

definition risk_seed :: "request \<Rightarrow> string" where
  "risk_seed r = (let seed = query_get (RawQuery r) ''seed'' in if seed = [] then ''none'' else seed)"

definition risk_body :: "string \<Rightarrow> string \<Rightarrow> string" where
  "risk_body seed h =
     CHR ''{'' # json_key ''seed'' @ json_string seed @ CHR '','' # json_key ''risk_hash'' @ quoted h @ ''}''"

text \<open>What the handler writes for a result of \<open>riskSubmit\<close>; a refusal was counted when it was decided.\<close>

definition risk_reply :: "string \<Rightarrow> string option \<Rightarrow> 'f http \<Rightarrow> 'f http" where
  "risk_reply seed res h =
     (case res of
        None \<Rightarrow> writeUncounted 503 overloadedBody h
      | Some d \<Rightarrow> writeJSON 200 (risk_body seed d) h)"

type_synonym 'f submit = "string \<Rightarrow> 'f app \<Rightarrow> string option \<times> 'f app"

definition handleRisk :: "'f submit \<Rightarrow> request \<Rightarrow> 'f http \<Rightarrow> 'f http" where
  "handleRisk submit r h =
     (let seed = risk_seed r; (res, s) = submit seed (snd h) in risk_reply seed res (fst h, s))"

section \<open>Dispatch\<close>

definition dispatch_path :: "'f float64 \<Rightarrow> 'f submit \<Rightarrow> request \<Rightarrow> 'f http \<Rightarrow> 'f http" where
  "dispatch_path F submit r h =
     (if Path r = ''/price'' then handlePrice F r h
      else if Path r = ''/stats'' then handleStats F r h
      else if Path r = ''/risk'' then handleRisk submit r h
      else if Path r = ''/health'' then writeJSON 200 healthBody h
      else writeJSON 404 notFound h)"

text \<open>The raw server hands its own writer to the handlers, which write through it.\<close>

definition raw_dispatch :: "'f float64 \<Rightarrow> 'f submit \<Rightarrow> request \<Rightarrow> rawResponse \<Rightarrow> 'f app \<Rightarrow> rawResponse \<times> 'f app" where
  "raw_dispatch F submit r resp s =
     (case dispatch_path F submit r (Raw resp, s) of
        (Raw resp', s') \<Rightarrow> (resp', s')
      | (Std _, s') \<Rightarrow> (resp, s'))"

text \<open>A connection from accept to close: what ended it, what was sent, the tables after it.\<close>

definition serveRawConn ::
  "'f float64 \<Rightarrow> 'f submit \<Rightarrow> sock \<Rightarrow> bool list \<Rightarrow> 'f app \<Rightarrow> conn_end \<times> rawResponse \<times> 'f app" where
  "serveRawConn F submit socket peer_fails s =
     raw_loop (raw_dispatch F submit) (conn_init socket) (raw_new peer_fails) s"

text \<open>The stock server (\<open>RISK_HTTP=std\<close>) routes the four paths to the same handlers with a writer of its own;
  other paths are answered by the library's multiplexer (\<open>None\<close>).\<close>

definition mux :: "'f float64 \<Rightarrow> 'f submit \<Rightarrow> request \<Rightarrow> 'f app \<Rightarrow> ('f http) option" where
  "mux F submit r s =
     (if Path r = ''/health'' then Some (writeJSON 200 healthBody (Std std_new, s))
      else if Path r = ''/price'' then Some (handlePrice F r (Std std_new, s))
      else if Path r = ''/stats'' then Some (handleStats F r (Std std_new, s))
      else if Path r = ''/risk'' then Some (handleRisk submit r (Std std_new, s))
      else None)"

section \<open>One answer per request, whichever writer\<close>

text \<open>The status and body a handler produces, read off a stock writer.\<close>

definition answer_of :: "'f float64 \<Rightarrow> 'f submit \<Rightarrow> request \<Rightarrow> 'f app \<Rightarrow> (int \<times> string) \<times> 'f app" where
  "answer_of F submit r s =
     (case dispatch_path F submit r (Std std_new, s) of
        (Std w, s') \<Rightarrow> ((the (std_code w), std_body w), s')
      | (Raw _, s') \<Rightarrow> ((0, []), s'))"

text \<open>Every handler comes down to one \<open>writeJSONUncounted\<close>.\<close>

definition writes_at :: "('f http \<Rightarrow> 'f http) \<Rightarrow> 'f app \<Rightarrow> bool" where
  "writes_at f s \<longleftrightarrow>
     (\<exists>code \<in> {200, 404, 400, 500, 503}. \<exists>body s'. \<forall>w. f (w, s) = (writeJSONUncounted code body w, s'))"

lemma writes_at_JSON:
  "(\<And>w. f (w, s) = writeJSON code body (w, t)) \<Longrightarrow> code \<in> {200, 404, 400, 500, 503} \<Longrightarrow> writes_at f s"
  unfolding writes_at_def
  by (intro bexI [of _ code] exI [of _ body]
      exI [of _ "t\<lparr>resp_counters := count_response code (resp_counters t)\<rparr>"] allI)
    (simp_all add: writeJSON_def writeUncounted_def)

lemma writes_at_uncounted:
  "(\<And>w. f (w, s) = writeUncounted code body (w, t)) \<Longrightarrow> code \<in> {200, 404, 400, 500, 503} \<Longrightarrow> writes_at f s"
  unfolding writes_at_def
  by (intro bexI [of _ code] exI [of _ body] exI [of _ t] allI) (simp_all add: writeUncounted_def)

lemma writes_at_cong: "(\<And>w. f (w, s) = g (w, s)) \<Longrightarrow> writes_at g s \<Longrightarrow> writes_at f s"
  by (simp add: writes_at_def)

lemma writes_at_if: "writes_at f s \<Longrightarrow> writes_at g s \<Longrightarrow> writes_at (\<lambda>h. if P then f h else g h) s"
  by (cases P) simp_all

lemma writes_at_post: "writes_at (handlePricePost F r) s"
proof (cases "decode_post F (Body r)")
  case None
  show ?thesis
    by (rule writes_at_JSON [where code = 400 and t = s]) (simp_all add: handlePricePost_def None)
next
  case (Some e)
  obtain symb p where e: "e = (symb, p)" by (cases e)
  obtain ok s1 where ap: "appendWAL F symb p s = (ok, s1)" by (metis surj_pair)
  show ?thesis
  proof (cases ok)
    case True
    have "handlePricePost F r (w, s) =
        writeJSON 200 (the (priceResp (set_price F symb p s1) symb)) (w, set_price F symb p s1)" for w
      unfolding handlePricePost_def Some option.case e prod.case snd_conv fst_conv ap Let_def
      using True by simp
    then show ?thesis by (rule writes_at_JSON) simp
  next
    case False
    show ?thesis
      by (rule writes_at_JSON [where code = 500 and t = s1])
        (simp_all add: handlePricePost_def Some e ap False)
  qed
qed

lemma writes_at_price: "writes_at (handlePrice F r) s"
proof (cases "Method r = ''POST''")
  case True
  show ?thesis
    by (rule writes_at_cong [OF _ writes_at_post [of F r]]) (simp add: handlePrice_def True)
next
  case False
  show ?thesis
  proof (cases "priceResp s (symbolParam (RawQuery r))")
    case None
    show ?thesis
      by (rule writes_at_JSON [where code = 404 and t = s]) (simp_all add: handlePrice_def False None)
  next
    case (Some b)
    show ?thesis
      by (rule writes_at_JSON [where code = 200 and t = s]) (simp_all add: handlePrice_def False Some)
  qed
qed

lemma writes_at_stats: "writes_at (handleStats F r) s"
proof (cases "series s (symbolParam (RawQuery r))")
  case None
  show ?thesis
    by (rule writes_at_JSON [where code = 404 and t = s]) (simp_all add: handleStats_def None)
next
  case (Some arr)
  show ?thesis
    by (rule writes_at_JSON [where code = 200 and t = s]) (simp_all add: handleStats_def Some)
qed

lemma writes_at_risk: "writes_at (handleRisk submit r) s"
proof -
  obtain res s1 where sub: "submit (risk_seed r) s = (res, s1)" by (metis surj_pair)
  show ?thesis
  proof (cases res)
    case None
    show ?thesis
      by (rule writes_at_uncounted [where code = 503 and t = s1])
        (simp_all add: handleRisk_def sub None risk_reply_def)
  next
    case (Some d)
    show ?thesis
      by (rule writes_at_JSON [where code = 200 and t = s1])
        (simp_all add: handleRisk_def sub Some risk_reply_def)
  qed
qed

lemma writes_at_dispatch: "writes_at (dispatch_path F submit r) s"
proof -
  have "writes_at (writeJSON 200 healthBody) s" "writes_at (writeJSON 404 notFound) s"
    by (rule writes_at_JSON [where code = 200 and t = s and body = healthBody], simp, simp)
      (rule writes_at_JSON [where code = 404 and t = s and body = notFound], simp, simp)
  then show ?thesis
    using writes_at_price [of F r s] writes_at_stats [of F r s] writes_at_risk [of submit r s]
    unfolding dispatch_path_def [abs_def] by (intro writes_at_if)
qed

lemma dispatch_answer:
  assumes "answer_of F submit r s = ((code, body), s')"
  shows "dispatch_path F submit r (w, s) = (writeJSONUncounted code body w, s')"
    "code \<in> {200, 404, 400, 500, 503}"
proof -
  obtain c b t where d: "c \<in> {200, 404, 400, 500, 503}"
      "\<And>w. dispatch_path F submit r (w, s) = (writeJSONUncounted c b w, t)"
    using writes_at_dispatch [of F submit r s] unfolding writes_at_def by meson
  have "answer_of F submit r s = ((c, b), t)"
    by (simp add: answer_of_def d(2) writeJSONUncounted_def std_Write_def std_WriteHeader_def std_new_def Let_def)
  with assms d show "dispatch_path F submit r (w, s) = (writeJSONUncounted code body w, s')"
    "code \<in> {200, 404, 400, 500, 503}" by auto
qed

text \<open>The program's dispatch is a responder in the sense of the request loop.\<close>

interpretation app_server: responder "raw_dispatch F submit" "answer_of F submit" for F submit
proof
  fix q s code body s' resp
  assume "answer_of F submit q s = ((code, body), s')"
  then show "raw_dispatch F submit q resp s = (writeResponse code body resp, s')"
    using dispatch_answer(1) [of F submit q s code body s' "Raw resp"]
    by (simp add: raw_dispatch_def writeJSONUncounted_def)
next
  fix q s
  obtain code body s' where "answer_of F submit q s = ((code, body), s')" by (metis surj_pair)
  with dispatch_answer(2) [OF this] show
    "100 \<le> fst (fst (answer_of F submit q s)) \<and> fst (fst (answer_of F submit q s)) \<le> 999" by auto
qed


section \<open>A connection of the program\<close>

lemma serveRawConn_stream:
  "serveRawConn F submit socket peer_fails s =
     stream_loop (raw_dispatch F submit) (stream socket) (raw_new peer_fails) s"
  by (simp add: serveRawConn_def raw_loop_stream [OF conn_ok_init] pending_init)

lemma serveRawConn_serve:
  assumes "serve (answer_of F submit) (stream socket) s = (e, rs, s')"
  obtains resp where "serveRawConn F submit socket [] s = (e, resp, s')" "sent resp = map response_text rs"
  using app_server.stream_loop_serve [of "raw_new []" F submit "stream socket" s e rs s'] assms
  by (auto simp: serveRawConn_stream raw_new_def)

end
