(* ===== verification/Price_Durability.thy ===== *)
theory Price_Durability
  imports Handlers
begin

text \<open>
  What the price table and its log promise: the tables stay well formed under every operation
  (\<open>store_ok\<close>), an acknowledged price is on disk before the acknowledgement, and a restart on what a crash leaves
  rebuilds the table.
\<close>

section \<open>Decoded strings are valid\<close>

fun json_ok :: "json \<Rightarrow> bool" where
  "json_ok (JStr s) = valid_utf8 s"
| "json_ok (JArr vs) = (\<forall>v \<in> set vs. json_ok v)"
| "json_ok (JObj ms) = (\<forall>m \<in> set ms. valid_utf8 (fst m) \<and> json_ok (snd m))"
| "json_ok _ = True"

fun frame_ok :: "jframe \<Rightarrow> bool" where
  "frame_ok (FArr vs) = (\<forall>v \<in> set vs. json_ok v)"
| "frame_ok (FObj ms k) =
     ((\<forall>m \<in> set ms. valid_utf8 (fst m) \<and> json_ok (snd m)) \<and> (\<forall>x. k = Some x \<longrightarrow> valid_utf8 x))"

definition mode_ok :: "jmode \<Rightarrow> bool" where
  "mode_ok m \<longleftrightarrow> (\<forall>v. m = MDone v \<longrightarrow> json_ok v) \<and> (\<forall>ls v. m = MLiteral ls v \<longrightarrow> json_ok v)"

definition scan_ok :: "jstate \<Rightarrow> bool" where
  "scan_ok s \<longleftrightarrow> mode_ok (fst s) \<and> (\<forall>f \<in> set (snd s). frame_ok f)"

lemma mode_ok_simps [simp]:
  "mode_ok MValue" "mode_ok MValueOrEnd" "mode_ok MKeyOrEnd" "mode_ok MKey" "mode_ok MColon" "mode_ok MAfter"
  "mode_ok (MString raw)" "mode_ok (MEscape raw)" "mode_ok (MHex k raw)" "mode_ok (MNumber n raw)"
  "mode_ok MFail" "mode_ok (MDone v) = json_ok v" "mode_ok (MLiteral ls v) = json_ok v"
  by (simp_all add: mode_ok_def)

lemma scan_ok_pair [simp]: "scan_ok (m, st) \<longleftrightarrow> mode_ok m \<and> (\<forall>f \<in> set st. frame_ok f)"
  by (simp add: scan_ok_def)

lemma finish_ok: "json_ok v \<Longrightarrow> \<forall>f \<in> set st. frame_ok f \<Longrightarrow> scan_ok (finish v st)"
  by (cases st) (fastforce simp: finish_def split: jframe.splits option.splits)+

lemma finish_string_ok: "\<forall>f \<in> set st. frame_ok f \<Longrightarrow> scan_ok (finish_string raw st)"
  using finish_ok [of "JStr (unquote raw)" st]
  by (cases st) (fastforce simp: finish_string_def valid_utf8_unquote split: jframe.splits option.splits)+

lemma after_value_ok: "\<forall>f \<in> set st. frame_ok f \<Longrightarrow> scan_ok (after_value c st)"
  by (cases st) (auto simp: after_value_def finish_ok split: jframe.splits)

lemma begin_value_ok: "\<forall>f \<in> set st. frame_ok f \<Longrightarrow> scan_ok (begin_value c st)"
  by (simp add: begin_value_def push_def)

lemma step_end_ok: "scan_ok s \<Longrightarrow> scan_ok (step_end s c)"
  by (cases s) (auto simp: step_end_def after_value_ok split: jmode.splits)

lemma scan_ok_step: "scan_ok s \<Longrightarrow> scan_ok (jstep s c)"
proof (induction s c rule: jstep.induct)
  case (10 n raw st c)
  then show ?case
    using finish_ok [of "JNum raw" st] by (auto simp: step_end_ok split: option.splits)
qed (simp_all add: finish_ok finish_string_ok after_value_ok begin_value_ok step_end_ok)

lemma scan_ok_run: "scan_ok s \<Longrightarrow> scan_ok (jrun s cs)"
  by (induction cs arbitrary: s) (auto simp: scan_ok_step)

lemma jvalue_ok: "scan_ok s \<Longrightarrow> jvalue s = Some v \<Longrightarrow> json_ok v"
  by (auto simp: jvalue_def split: prod.splits jmode.splits list.splits if_splits)

lemma json_whole_ok: "json_whole s = Some v \<Longrightarrow> json_ok v"
  using jvalue_ok [OF scan_ok_run [of "(MValue, [])" s]] by (simp add: json_whole_def)

lemma json_first_from_ok: "scan_ok s \<Longrightarrow> json_first_from s cs = Some v \<Longrightarrow> json_ok v"
proof (induction s cs rule: json_first_from.induct)
  case (1 s)
  then show ?case using jvalue_ok by simp
next
  case (2 s c cs)
  then show ?case
    using scan_ok_step [OF "2.prems"(1), of c] by (cases s; cases "fst s") auto
qed

lemma json_first_ok: "json_first s = Some v \<Longrightarrow> json_ok v"
  using json_first_from_ok [of "(MValue, [])" s v] by (simp add: json_first_def)

text \<open>Hence the struct the decoder fills: its symbol is valid, its price finite.\<close>

definition entry_ok :: "'f float64 \<Rightarrow> 'f entry \<Rightarrow> bool" where
  "entry_ok F e \<longleftrightarrow> valid_utf8 (entry_symbol e) \<and> (\<forall>p. entry_price e = Some p \<longrightarrow> ffinite F p)"

lemma decode_member_ok:
  assumes "float_contract F" "entry_ok F e" "json_ok (snd m)"
  shows "entry_ok F (decode_member F pointer e m)"
  using assms by (auto simp: decode_member_def entry_ok_def float_contract_def split: json.splits option.splits)

lemma decode_entry_ok:
  assumes "float_contract F" "entry_ok F e" "json_ok v"
  shows "entry_ok F (decode_entry F pointer e v)"
proof -
  have "entry_ok F (foldl (decode_member F pointer) e ms)"
    if "\<forall>m \<in> set ms. json_ok (snd m)" for ms
    using that assms(2) by (induction ms arbitrary: e) (auto simp: decode_member_ok [OF assms(1)])
  moreover have "entry_ok F (e\<lparr>entry_error := True\<rparr>)"
    using assms(2) by (simp add: entry_ok_def)
  ultimately show ?thesis
    using assms by (cases v) (auto simp: decode_entry_def)
qed

lemma wal_line_ok:
  assumes "float_contract F" "wal_line F l = Some (symb, p)"
  shows "valid_utf8 symb" "symb \<noteq> []" "ffinite F p"
proof -
  obtain v where v: "json_whole l = Some v"
    using assms(2) by (auto simp: wal_line_def split: option.splits)
  let ?e = "decode_entry F False \<lparr>entry_symbol = [], entry_price = Some (flit F 0), entry_error = False\<rparr> v"
  have "entry_ok F ?e"
    using assms(1) json_whole_ok [OF v]
    by (intro decode_entry_ok) (auto simp: entry_ok_def float_contract_def)
  with assms(2) v show "valid_utf8 symb" "symb \<noteq> []" "ffinite F p"
    by (auto simp: wal_line_def Let_def entry_ok_def split: if_splits)
qed

lemma decode_post_ok:
  assumes "float_contract F" "decode_post F body = Some (symb, p)"
  shows "valid_utf8 symb" "symb \<noteq> []" "ffinite F p"
proof -
  obtain v where v: "json_first body = Some v"
    using assms(2) by (auto simp: decode_post_def split: option.splits)
  let ?e = "decode_entry F True \<lparr>entry_symbol = [], entry_price = None, entry_error = False\<rparr> v"
  have "entry_ok F ?e"
    using assms(1) json_first_ok [OF v] by (intro decode_entry_ok) (auto simp: entry_ok_def)
  with assms(2) v show "valid_utf8 symb" "symb \<noteq> []" "ffinite F p"
    by (auto simp: decode_post_def Let_def entry_ok_def split: if_splits)
qed

section \<open>The tables stay well formed\<close>

definition store_ok :: "'f float64 \<Rightarrow> 'f app \<Rightarrow> bool" where
  "store_ok F s \<longleftrightarrow>
     (\<forall>symb. priceResp s symb = map_option (buildPriceResp F symb) (prices s symb)) \<and>
     (\<forall>symb p. prices s symb = Some p \<longrightarrow> valid_utf8 symb \<and> symb \<noteq> [] \<and> ffinite F p) \<and>
     (\<forall>symb arr. series s symb = Some arr \<longrightarrow> length arr = 500)"

lemma store_ok_set_price:
  "store_ok F s \<Longrightarrow> valid_utf8 symb \<Longrightarrow> symb \<noteq> [] \<Longrightarrow> ffinite F p \<Longrightarrow> store_ok F (set_price F symb p s)"
  by (simp add: store_ok_def set_price_def)

lemma store_ok_cong:
  "prices s = prices t \<Longrightarrow> priceResp s = priceResp t \<Longrightarrow> series s = series t \<Longrightarrow> store_ok F s = store_ok F t"
  by (simp add: store_ok_def)

lemma store_ok_init_symbol:
  assumes "float_contract F" "store_ok F s" "valid_utf8 (fst e)" "fst e \<noteq> []"
  shows "store_ok F (init_symbol F e s)"
proof -
  have "store_ok F (set_price F (fst e) (flit F (snd e)) s)"
    using assms by (intro store_ok_set_price) (auto simp: float_contract_def)
  then show ?thesis
    by (simp add: store_ok_def init_symbol_def Let_def)
qed

lemma store_ok_init: "float_contract F \<Longrightarrow> store_ok F (init_app F)"
proof -
  assume F: "float_contract F"
  have all: "store_ok F (fold (init_symbol F) es s)"
    if "store_ok F s" "\<forall>e \<in> set es. valid_utf8 (fst e) \<and> fst e \<noteq> []" for es s
    using that F by (induction es arbitrary: s) (auto simp: store_ok_init_symbol)
  show ?thesis
    unfolding init_app_def
  proof (rule all)
    show "store_ok F \<lparr>prices = Map.empty, priceResp = Map.empty, series = Map.empty,
        resp_counters = \<lparr>respOK = 0, respErr = 0\<rparr>, walFile = None\<rparr>"
      by (simp add: store_ok_def)
    show "\<forall>e \<in> set basePrices. valid_utf8 (fst e) \<and> fst e \<noteq> []"
      by (simp add: basePrices_def)
  qed
qed

lemma store_ok_replay_line: "float_contract F \<Longrightarrow> store_ok F s \<Longrightarrow> store_ok F (replay_line F l s)"
  by (auto simp: replay_line_def store_ok_set_price wal_line_ok split: option.splits)

lemma store_ok_replay: "float_contract F \<Longrightarrow> store_ok F s \<Longrightarrow> store_ok F (replay F data s)"
proof -
  assume F: "float_contract F" and "store_ok F s"
  then have "store_ok F (fold (replay_line F) ls s)" for ls
    by (induction ls arbitrary: s) (auto simp: store_ok_replay_line)
  then show ?thesis by (simp add: replay_def)
qed

lemma initPriceWAL_replay:
  "path \<noteq> [] \<Longrightarrow> initPriceWAL F path (Some (data, True)) faults s =
     (replay F data s)\<lparr>walFile := Some \<lparr>wal_data = data, wal_synced = length data, wal_faults = faults\<rparr>\<rparr>"
  by (simp add: initPriceWAL_def replay_def Let_def)

lemma store_ok_initPriceWAL:
  assumes "float_contract F" "store_ok F s"
  shows "store_ok F (initPriceWAL F path disk faults s)"
proof -
  have "store_ok F (replay F data s)" for data
    using assms by (rule store_ok_replay)
  then show ?thesis
    using assms(2)
    by (auto simp: initPriceWAL_def Let_def replay_def [symmetric] cong: store_ok_cong split: option.splits)
qed

lemma appendWAL_tables:
  "appendWAL F symb p s = (ok, s') \<Longrightarrow>
     prices s' = prices s \<and> priceResp s' = priceResp s \<and> series s' = series s \<and>
     resp_counters s' = resp_counters s"
  by (auto simp: appendWAL_def split: option.splits prod.splits)

lemma writeJSON_tables [simp]:
  "prices (snd (writeJSON code body h)) = prices (snd h)"
  "priceResp (snd (writeJSON code body h)) = priceResp (snd h)"
  "series (snd (writeJSON code body h)) = series (snd h)"
  "walFile (snd (writeJSON code body h)) = walFile (snd h)"
  "resp_counters (snd (writeJSON code body h)) = count_response code (resp_counters (snd h))"
  by (simp_all add: writeJSON_def writeUncounted_def)

lemma store_ok_writeJSON [simp]: "store_ok F (snd (writeJSON code body h)) = store_ok F (snd h)"
  by (simp add: store_ok_def)

lemma store_ok_post:
  assumes "float_contract F" "store_ok F (snd h)"
  shows "store_ok F (snd (handlePricePost F r h))"
proof (cases "decode_post F (Body r)")
  case None
  with assms show ?thesis by (simp add: handlePricePost_def)
next
  case (Some e)
  obtain symb p where e: "e = (symb, p)" by (cases e)
  note ok = decode_post_ok [OF assms(1) Some [unfolded e]]
  obtain durable s where ap: "appendWAL F symb p (snd h) = (durable, s)" by (metis surj_pair)
  have "store_ok F s"
    using assms(2) appendWAL_tables [OF ap] by (simp add: store_ok_def)
  then show ?thesis
    using ok by (simp add: handlePricePost_def Some e ap Let_def store_ok_set_price)
qed

lemma store_ok_dispatch:
  assumes "float_contract F" "store_ok F (snd h)"
    and submit: "\<And>seed s. store_ok F s \<Longrightarrow> store_ok F (snd (submit seed s))"
  shows "store_ok F (snd (dispatch_path F submit r h))"
proof -
  have "store_ok F (snd (handlePrice F r h))"
    using assms store_ok_post [OF assms(1,2), of r] by (auto simp: handlePrice_def split: option.splits)
  moreover have "store_ok F (snd (handleStats F r h))"
    using assms by (auto simp: handleStats_def Let_def split: option.splits)
  moreover have "store_ok F (snd (handleRisk submit r h))"
  proof -
    obtain res s1 where sub: "submit (risk_seed r) (snd h) = (res, s1)" by (metis surj_pair)
    then have "store_ok F s1" using submit [OF assms(2), of "risk_seed r"] by simp
    then show ?thesis
      by (cases res) (simp_all add: handleRisk_def sub risk_reply_def writeUncounted_def)
  qed
  ultimately show ?thesis
    using assms(2) by (simp add: dispatch_path_def)
qed

section \<open>What a POST does\<close>

abbreviation is_post :: "request \<Rightarrow> bool" where
  "is_post q \<equiv> Path q = ''/price'' \<and> Method q = ''POST''"

lemma answer_of_writeJSON:
  "dispatch_path F submit q (Std std_new, s) = writeJSON code body (Std std_new, t) \<Longrightarrow>
     answer_of F submit q s = ((code, body), t\<lparr>resp_counters := count_response code (resp_counters t)\<rparr>)"
  by (simp add: answer_of_def writeJSON_def writeUncounted_def writeJSONUncounted_def std_Write_def
      std_WriteHeader_def std_new_def Let_def)

lemma post_rejected:
  "is_post q \<Longrightarrow> decode_post F (Body q) = None \<Longrightarrow>
     answer_of F submit q s =
       ((400, error_body ''symbol and numeric price required''),
        s\<lparr>resp_counters := count_response 400 (resp_counters s)\<rparr>)"
  by (rule answer_of_writeJSON) (simp add: dispatch_path_def handlePrice_def handlePricePost_def)

lemma post_not_durable:
  "is_post q \<Longrightarrow> decode_post F (Body q) = Some (symb, p) \<Longrightarrow> appendWAL F symb p s = (False, t) \<Longrightarrow>
     answer_of F submit q s =
       ((500, error_body ''persistence failure''),
        t\<lparr>resp_counters := count_response 500 (resp_counters t)\<rparr>)"
  by (rule answer_of_writeJSON) (simp add: dispatch_path_def handlePrice_def handlePricePost_def)

lemma post_accepted:
  assumes "is_post q" "decode_post F (Body q) = Some (symb, p)" "appendWAL F symb p s = (True, t)"
  shows "answer_of F submit q s =
    ((200, buildPriceResp F symb p),
     (set_price F symb p t)\<lparr>resp_counters := count_response 200 (resp_counters t)\<rparr>)"
proof -
  have "dispatch_path F submit q (Std std_new, s) =
      writeJSON 200 (buildPriceResp F symb p) (Std std_new, set_price F symb p t)"
    using assms
    by (simp add: dispatch_path_def handlePrice_def handlePricePost_def Let_def) (simp add: set_price_def)
  from answer_of_writeJSON [OF this] show ?thesis by (simp add: set_price_def)
qed

text \<open>Requests other than an accepted POST leave the price tables and the log alone.\<close>

definition keeps_tables :: "'f app \<Rightarrow> 'f app \<Rightarrow> bool" where
  "keeps_tables s t \<longleftrightarrow>
     prices t = prices s \<and> priceResp t = priceResp s \<and> series t = series s \<and> walFile t = walFile s"

definition submit_keeps :: "'f submit \<Rightarrow> bool" where
  "submit_keeps submit \<longleftrightarrow> (\<forall>seed s. keeps_tables s (snd (submit seed s)))"

lemma keeps_tables_writeJSON [simp]: "keeps_tables s (snd (writeJSON code body h)) = keeps_tables s (snd h)"
  by (simp add: keeps_tables_def)

lemma keeps_tables_refl [simp]: "keeps_tables s s"
  by (simp add: keeps_tables_def)

lemma dispatch_keeps:
  assumes "\<not> is_post q" "submit_keeps submit"
  shows "keeps_tables (snd h) (snd (dispatch_path F submit q h))"
proof -
  have "keeps_tables (snd h) (snd (handlePrice F q h))" if "Path q = ''/price''"
    using that assms(1) by (auto simp: handlePrice_def split: option.splits)
  moreover have "keeps_tables (snd h) (snd (handleStats F q h))"
    by (auto simp: handleStats_def Let_def split: option.splits)
  moreover have "keeps_tables (snd h) (snd (handleRisk submit q h))"
  proof -
    obtain res s1 where sub: "submit (risk_seed q) (snd h) = (res, s1)" by (metis surj_pair)
    then have "keeps_tables (snd h) s1"
      using assms(2) unfolding submit_keeps_def by (metis snd_conv)
    then show ?thesis
      by (cases res) (simp_all add: handleRisk_def sub risk_reply_def writeUncounted_def)
  qed
  ultimately show ?thesis by (simp add: dispatch_path_def)
qed

lemma answer_keeps:
  assumes "\<not> is_post q" "submit_keeps submit"
  shows "keeps_tables s (snd (answer_of F submit q s))"
  using dispatch_keeps [OF assms, of "(Std std_new, s)" F]
  by (auto simp: answer_of_def split: prod.splits writer.splits)

section \<open>Restarting\<close>

text \<open>The requests of one run of the program, one after the other.\<close>

definition run_requests :: "'f float64 \<Rightarrow> 'f submit \<Rightarrow> request list \<Rightarrow> 'f app \<Rightarrow> 'f app" where
  "run_requests F submit qs s = fold (\<lambda>q s. snd (answer_of F submit q s)) qs s"

definition same_prices :: "'f app \<Rightarrow> 'f app \<Rightarrow> bool" where
  "same_prices s t \<longleftrightarrow> prices s = prices t \<and> priceResp s = priceResp t"

lemma same_prices_set: "same_prices s t \<Longrightarrow> same_prices (set_price F symb p s) (set_price F symb p t)"
  by (simp add: same_prices_def set_price_def)

lemma same_prices_line: "same_prices s t \<Longrightarrow> same_prices (replay_line F l s) (replay_line F l t)"
  by (auto simp: replay_line_def same_prices_set split: option.splits)

lemma same_prices_replay: "same_prices s t \<Longrightarrow> same_prices (replay F d s) (replay F d t)"
proof -
  assume "same_prices s t"
  then have "same_prices (fold (replay_line F) ls s) (fold (replay_line F) ls t)" for ls
    by (induction ls arbitrary: s t) (auto simp: same_prices_line)
  then show ?thesis by (simp add: replay_def)
qed

text \<open>While no append fails, the log replays to the live table, ends with a line feed, and is durable.\<close>

definition log_ok :: "'f float64 \<Rightarrow> 'f app \<Rightarrow> 'f app \<Rightarrow> bool" where
  "log_ok F s0 s \<longleftrightarrow>
     (\<exists>f. walFile s = Some f \<and> wal_clean (wal_data f) \<and> wal_synced f = length (wal_data f) \<and>
        wal_faults f = [] \<and> same_prices (replay F (wal_data f) s0) s)"

lemma log_ok_boot:
  "path \<noteq> [] \<Longrightarrow> wal_clean data \<Longrightarrow> log_ok F s0 (initPriceWAL F path (Some (data, True)) [] s0)"
  by (simp add: log_ok_def initPriceWAL_replay same_prices_def)

lemma log_ok_keeps: "log_ok F s0 s \<Longrightarrow> keeps_tables s t \<Longrightarrow> log_ok F s0 t"
  by (auto simp: log_ok_def keeps_tables_def same_prices_def)

lemma log_ok_post:
  assumes F: "float_contract F" and ok: "log_ok F s0 s"
    and e: "valid_utf8 symb" "symb \<noteq> []" "ffinite F p"
  obtains t where "appendWAL F symb p s = (True, t)" "log_ok F s0 (set_price F symb p t)"
    "walFile t = map_option (\<lambda>f. f\<lparr>wal_data := wal_data f @ marshal_entry F symb p @ [CHR 0x0A],
       wal_synced := length (wal_data f @ marshal_entry F symb p @ [CHR 0x0A]), wal_faults := []\<rparr>) (walFile s)"
    "same_prices t s"
proof -
  obtain f where f: "walFile s = Some f" "wal_clean (wal_data f)" "wal_faults f = []"
      "same_prices (replay F (wal_data f) s0) s"
    using ok by (auto simp: log_ok_def)
  let ?line = "marshal_entry F symb p @ [CHR 0x0A]"
  let ?f = "f\<lparr>wal_data := wal_data f @ ?line, wal_synced := length (wal_data f @ ?line), wal_faults := []\<rparr>"
  let ?t = "s\<lparr>walFile := Some ?f\<rparr>"
  have 1: "appendWAL F symb p s = (True, ?t)"
    using f by (simp add: appendWAL_def file_append_def Let_def)
  have "replay F (wal_data f @ ?line) s0 = set_price F symb p (replay F (wal_data f) s0)"
    using f(2) replay_entry(2) [OF F e(3,1,2)] by (simp add: replay_append)
  moreover have "same_prices (set_price F symb p (replay F (wal_data f) s0)) (set_price F symb p ?t)"
    using f(4) by (simp add: same_prices_def set_price_def)
  ultimately have "log_ok F s0 (set_price F symb p ?t)"
    by (simp add: log_ok_def set_price_def wal_clean_def)
  with 1 f(1) that [of ?t] show thesis by (simp add: same_prices_def)
qed

lemma log_ok_answer:
  assumes F: "float_contract F" and "submit_keeps submit" and ok: "log_ok F s0 s"
  shows "log_ok F s0 (snd (answer_of F submit q s))"
proof (cases "is_post q")
  case False
  then show ?thesis using log_ok_keeps [OF ok] answer_keeps assms(2) by blast
next
  case True
  show ?thesis
  proof (cases "decode_post F (Body q)")
    case None
    with True ok show ?thesis by (simp add: post_rejected log_ok_def same_prices_def)
  next
    case (Some e)
    obtain symb p where e: "e = (symb, p)" by (cases e)
    note d = decode_post_ok [OF F Some [unfolded e]]
    obtain t where t: "appendWAL F symb p s = (True, t)" "log_ok F s0 (set_price F symb p t)"
      using log_ok_post [OF F ok d] by blast
    from t(2) show ?thesis
      by (simp add: post_accepted [OF True Some [unfolded e] t(1)] log_ok_def same_prices_def)
  qed
qed

lemma log_ok_run:
  "float_contract F \<Longrightarrow> submit_keeps submit \<Longrightarrow> log_ok F s0 s \<Longrightarrow> log_ok F s0 (run_requests F submit qs s)"
  unfolding run_requests_def by (induction qs arbitrary: s) (auto simp: log_ok_answer)

lemma restart_same:
  assumes "float_contract F" "log_ok F s0 s" "walFile s = Some f" "path \<noteq> []"
    and "ffinite F p" "k < length (marshal_entry F symb p)"
  shows "same_prices (initPriceWAL F path (Some (wal_data f @ take k (marshal_entry F symb p), True)) faults s0) s"
proof -
  have "replay F (wal_data f @ take k (marshal_entry F symb p)) s0 = replay F (wal_data f) s0"
    using assms by (auto simp: log_ok_def replay_append replay_torn)
  with assms show ?thesis
    by (auto simp: log_ok_def initPriceWAL_replay same_prices_def)
qed

lemma restart_with_entry:
  assumes "float_contract F" "log_ok F s0 s" "walFile s = Some f" "path \<noteq> []"
    and "ffinite F p" "valid_utf8 symb" "symb \<noteq> []" "nl \<in> {[], [CHR 0x0A]}"
  shows "same_prices (initPriceWAL F path (Some (wal_data f @ marshal_entry F symb p @ nl, True)) faults s0)
    (set_price F symb p s)"
proof -
  have "replay F (wal_data f @ marshal_entry F symb p @ nl) s0 =
      set_price F symb p (replay F (wal_data f) s0)"
    using assms replay_entry [OF assms(1,5,6,7)] by (auto simp: log_ok_def replay_append)
  with assms show ?thesis
    by (auto simp: log_ok_def initPriceWAL_replay same_prices_def set_price_def)
qed

section \<open>A torn tail\<close>

text \<open>The entry appended after a torn tail never comes back.\<close>

lemma replay_after_torn:
  assumes F: "float_contract F" "wal_clean data" "ffinite F p" "ffinite F p'"
    and k: "0 < k"
  shows "replay F (data @ take k (marshal_entry F symb p) @ marshal_entry F symb' p' @ [CHR 0x0A]) s0 =
    replay F data s0"
proof -
  let ?l = "take k (marshal_entry F symb p) @ marshal_entry F symb' p'"
  have nolf: "CHR 0x0A \<notin> set ?l"
    using marshal_entry_no_lf [OF F(1,3)] marshal_entry_no_lf [OF F(1,4)] by (auto dest: in_set_takeD)
  have "replay F (?l @ [CHR 0x0A]) s = s" for s
    using split_byte_append [OF nolf, of "[]"] wal_line_glued [OF F(1,3,4) k, of symb symb']
    by (simp add: replay_def replay_line_def)
  then show ?thesis
    using F(2) by (simp add: replay_append)
qed


section \<open>Concurrent POSTs\<close>

text \<open>Two critical sections with nothing in between: the append under \<open>walMu\<close>, the update under \<open>mu\<close>.
  A POST is its entry and where it is.\<close>

datatype post_pc = PAppend | PApply | PReplied int

type_synonym 'f posts = "(string \<times> 'f \<times> post_pc) list"

definition post_step :: "'f float64 \<Rightarrow> nat \<Rightarrow> 'f posts \<times> 'f app \<Rightarrow> 'f posts \<times> 'f app" where
  "post_step F i c =
     (let (ps, s) = c in
      case ps ! i of
        (symb, p, PAppend) \<Rightarrow>
          let (ok, s) = appendWAL F symb p s in
          (ps[i := (symb, p, if ok then PApply else PReplied 500)], s)
      | (symb, p, PApply) \<Rightarrow> (ps[i := (symb, p, PReplied 200)], set_price F symb p s)
      | (_, _, PReplied _) \<Rightarrow> (ps, s))"

definition post_run :: "'f float64 \<Rightarrow> nat list \<Rightarrow> 'f posts \<times> 'f app \<Rightarrow> 'f posts \<times> 'f app" where
  "post_run F is c = foldl (\<lambda>c i. post_step F i c) c is"

text \<open>Two POSTs of one symbol can be logged in one order and applied in the other: both are acknowledged, and
  a restart then serves a price other than the live one.\<close>

lemma racing_posts_diverge:
  assumes F: "float_contract F" and "log_ok F s0 s" "path \<noteq> []"
    and "valid_utf8 symb" "symb \<noteq> []" "ffinite F p" "ffinite F p'"
  obtains t f where
    "post_run F [0, 1, 1, 0] ([(symb, p, PAppend), (symb, p', PAppend)], s) =
       ([(symb, p, PReplied 200), (symb, p', PReplied 200)], t)"
    "walFile t = Some f" "prices t symb = Some p"
    "prices (initPriceWAL F path (Some (wal_data f, True)) [] s0) symb = Some p'"
proof -
  obtain t1 where t1: "appendWAL F symb p s = (True, t1)" "log_ok F s0 (set_price F symb p t1)"
    using log_ok_post [OF assms(1,2,4,5,6)] by blast
  obtain f1 where f1: "walFile t1 = Some f1" "wal_clean (wal_data f1)" "wal_faults f1 = []"
    using t1(2) by (auto simp: log_ok_def set_price_def)
  let ?line = "marshal_entry F symb p' @ [CHR 0x0A]"
  let ?f = "f1\<lparr>wal_data := wal_data f1 @ ?line, wal_synced := length (wal_data f1 @ ?line), wal_faults := []\<rparr>"
  let ?t2 = "t1\<lparr>walFile := Some ?f\<rparr>"
  let ?t = "set_price F symb p (set_price F symb p' ?t2)"
  have "appendWAL F symb p' t1 = (True, ?t2)"
    using f1 by (simp add: appendWAL_def file_append_def Let_def)
  with t1 have run: "post_run F [0, 1, 1, 0] ([(symb, p, PAppend), (symb, p', PAppend)], s) =
      ([(symb, p, PReplied 200), (symb, p', PReplied 200)], ?t)"
    by (simp add: post_run_def post_step_def)
  have "replay F (wal_data ?f) s0 = set_price F symb p' (replay F (wal_data f1) s0)"
    using replay_entry(2) [OF F assms(7,4,5)] f1(2) by (simp add: replay_append)
  then have "prices (initPriceWAL F path (Some (wal_data ?f, True)) [] s0) symb = Some p'"
    using assms(3) by (simp add: initPriceWAL_replay set_price_def)
  moreover have "walFile ?t = Some ?f" "prices ?t symb = Some p"
    by (simp_all add: set_price_def)
  ultimately show thesis using run that by blast
qed


section \<open>Facts for the whole program\<close>

lemma store_ok_answer:
  assumes "float_contract F" "submit_keeps submit" "store_ok F s"
  shows "store_ok F (snd (answer_of F submit q s))"
proof -
  have "store_ok F (snd (submit seed s))" if "store_ok F s" for seed s
    using that assms(2) by (auto simp: submit_keeps_def keeps_tables_def store_ok_def)
  then have "store_ok F (snd (dispatch_path F submit q (Std std_new, s)))"
    using assms by (intro store_ok_dispatch) auto
  then show ?thesis
    by (auto simp: answer_of_def split: prod.splits writer.splits)
qed

lemma appendWAL_durable:
  assumes "appendWAL F symb p s = (True, t)" "walFile s = Some f"
  shows "\<exists>f'. walFile t = Some f' \<and> wal_data f' = wal_data f @ marshal_entry F symb p @ [CHR 0x0A] \<and>
    wal_synced f' = length (wal_data f')"
  using assms by (auto simp: appendWAL_def file_append_def Let_def split: list.splits fault.splits)

text \<open>The decoder of the handler takes an entry as the log writes it.\<close>

lemma json_first_from_run:
  "jvalue (jrun s cs) = Some (JObj ms) \<Longrightarrow> \<not> (\<exists>v. fst s = MDone v) \<Longrightarrow>
     (\<And>n. n < length cs \<Longrightarrow> \<not> (\<exists>v. fst (jrun s (take n cs)) = MDone v)) \<Longrightarrow>
     json_first_from s cs = Some (JObj ms)"
proof (induction cs arbitrary: s)
  case (Cons c cs)
  have step: "json_first_from s (c # cs) = json_first_from (jstep s c) cs"
    using Cons.prems(2) by (cases s; cases "fst s") auto
  show ?case
  proof (cases "\<exists>v. fst (jstep s c) = MDone v")
    case True
    with Cons.prems(3) [of 1] have "cs = []" by (cases cs) auto
    with Cons.prems(1) step show ?thesis by simp
  next
    case False
    have "\<not> (\<exists>v. fst (jrun (jstep s c) (take n cs)) = MDone v)" if "n < length cs" for n
      using Cons.prems(3) [of "Suc n"] that by simp
    with Cons.IH [of "jstep s c"] Cons.prems(1) False step show ?thesis by simp
  qed
qed simp

lemma decode_post_marshal:
  assumes "float_contract F" "ffinite F p" "valid_utf8 symb" "symb \<noteq> []"
  shows "decode_post F (marshal_entry F symb p) = Some (symb, p)"
proof -
  let ?m = "marshal_entry F symb p"
  let ?v = "JObj [(''symbol'', JStr symb), (''price'', JNum (json_text F p))]"
  have whole: "json_whole ?m = Some ?v"
    using json_whole_entry [OF contractD(1) [OF assms(1,2)]] assms(3)
    by (simp add: marshal_entry_text [OF assms(2)] unquote_escape_valid)
  have "\<not> (\<exists>v. fst (jrun (MValue, []) (take n ?m)) = MDone v)" if "n < length ?m" for n
  proof -
    have "json_whole (take n ?m) = None"
    proof (rule json_whole_torn)
      show "json_whole (take n ?m @ drop n ?m) = Some ?v" using whole by simp
      show "drop n ?m \<noteq> []" "last (drop n ?m) = CHR ''}''"
        using that by (simp_all add: last_drop marshal_entry_text [OF assms(2)] entry_text_def)
    qed
    then show ?thesis
      by (auto simp: json_whole_def jvalue_def split: prod.splits)
  qed
  then have "json_first ?m = Some ?v"
    unfolding json_first_def using whole by (intro json_first_from_run) (auto simp: json_whole_def)
  then show ?thesis
    using assms(4) contractD(2) [OF assms(1,2)]
    by (simp add: decode_post_def decode_entry_def decode_member_def)
qed

end
