(* ===== verification/Sha256.thy ===== *)
theory Sha256
  imports Prelude
begin

text \<open>
  The function the whole service sells, as the Go standard library computes it: SHA-256 of a byte
  string (\<open>crypto/sha256.Sum256\<close>, FIPS 180-4). It is written as the library is: a schedule of 64
  words, 64 rounds over eight 32-bit registers with wrapping addition, the compression of one
  64-byte block, the padding, and the big-endian output. It is executable; \<open>sha256_abc\<close> checks the
  published test vector in the kernel. The lemmas split the digest of a 64-byte message into the
  message block and one constant padding block, which is the fact every kernel of the repository
  relies on.
\<close>

section \<open>Rounds and schedule\<close>

definition sha_ch :: "u32 \<Rightarrow> u32 \<Rightarrow> u32 \<Rightarrow> u32" where
  "sha_ch x y z = (x AND y) XOR (NOT x AND z)"

definition sha_maj :: "u32 \<Rightarrow> u32 \<Rightarrow> u32 \<Rightarrow> u32" where
  "sha_maj x y z = (x AND y) XOR (x AND z) XOR (y AND z)"

definition sha_S0 :: "u32 \<Rightarrow> u32" where
  "sha_S0 x = word_rotr 2 x XOR word_rotr 13 x XOR word_rotr 22 x"

definition sha_S1 :: "u32 \<Rightarrow> u32" where
  "sha_S1 x = word_rotr 6 x XOR word_rotr 11 x XOR word_rotr 25 x"

definition sha_s0 :: "u32 \<Rightarrow> u32" where
  "sha_s0 x = word_rotr 7 x XOR word_rotr 18 x XOR drop_bit 3 x"

definition sha_s1 :: "u32 \<Rightarrow> u32" where
  "sha_s1 x = word_rotr 17 x XOR word_rotr 19 x XOR drop_bit 10 x"

text \<open>The round constants; theory \<open>Sha256_Vector\<close> proves that they are the fractional parts of the cube
  roots of the first 64 primes.\<close>

definition sha_K :: "u32 list" where
  "sha_K = [
     1116352408, 1899447441, 3049323471, 3921009573, 961987163, 1508970993,
     2453635748, 2870763221, 3624381080, 310598401, 607225278, 1426881987,
     1925078388, 2162078206, 2614888103, 3248222580, 3835390401, 4022224774,
     264347078, 604807628, 770255983, 1249150122, 1555081692, 1996064986,
     2554220882, 2821834349, 2952996808, 3210313671, 3336571891, 3584528711,
     113926993, 338241895, 666307205, 773529912, 1294757372, 1396182291,
     1695183700, 1986661051, 2177026350, 2456956037, 2730485921, 2820302411,
     3259730800, 3345764771, 3516065817, 3600352804, 4094571909, 275423344,
     430227734, 506948616, 659060556, 883997877, 958139571, 1322822218,
     1537002063, 1747873779, 1955562222, 2024104815, 2227730452, 2361852424,
     2428436474, 2756734187, 3204031479, 3329325298]"

definition sha_H0 :: "u32 list" where
  "sha_H0 = [0x6a09e667, 0xbb67ae85, 0x3c6ef372, 0xa54ff53a,
             0x510e527f, 0x9b05688c, 0x1f83d9ab, 0x5be0cd19]"

text \<open>The schedule is kept newest word first: word \<open>t\<close> reads words \<open>t-2\<close>, \<open>t-7\<close>, \<open>t-15\<close>, \<open>t-16\<close>.\<close>

fun sha_extend :: "nat \<Rightarrow> u32 list \<Rightarrow> u32 list" where
  "sha_extend 0 ws = ws"
| "sha_extend (Suc n) ws =
     sha_extend n ((sha_s1 (ws ! 1) + ws ! 6 + sha_s0 (ws ! 14) + ws ! 15) # ws)"

definition sha_schedule :: "bytes \<Rightarrow> u32 list" where
  "sha_schedule p = rev (sha_extend 48 (rev (be_words p)))"

fun sha_round :: "u32 list \<Rightarrow> u32 \<times> u32 \<Rightarrow> u32 list" where
  "sha_round [a, b, c, d, e, f, g, h] (k, w) =
     (let t1 = h + sha_S1 e + sha_ch e f g + k + w;
          t2 = sha_S0 a + sha_maj a b c
      in [t1 + t2, a, b, c, d + t1, e, f, g])"
| "sha_round st _ = st"

definition sha_compress :: "u32 list \<Rightarrow> bytes \<Rightarrow> u32 list" where
  "sha_compress st p = map2 (+) st (foldl sha_round st (zip sha_K (sha_schedule p)))"

section \<open>Padding and digest\<close>

definition sha_pad :: "nat \<Rightarrow> bytes" where
  "sha_pad n = 0x80 # replicate ((119 - n mod 64) mod 64) 0 @ be64 (word_of_nat (8 * n))"

definition sha256 :: "bytes \<Rightarrow> bytes" where
  "sha256 m = concat (map be32 (foldl sha_compress sha_H0 (blocks 63 (m @ sha_pad (length m)))))"

section \<open>Shape\<close>

lemma length_sha_K [simp]: "length sha_K = 64"
  by (simp add: sha_K_def)

lemma length_sha_H0 [simp]: "length sha_H0 = 8"
  by (simp add: sha_H0_def)

lemma length_sha_round [simp]: "length (sha_round st kw) = length st"
  by (induction st kw rule: sha_round.induct) (simp_all add: Let_def)

lemma length_sha_rounds [simp]: "length (foldl sha_round st kws) = length st"
  by (induction kws arbitrary: st) auto

lemma length_sha_compress [simp, byte_simps]: "length (sha_compress st p) = length st"
  by (simp add: sha_compress_def)

lemma length_sha_blocks [simp]: "length (foldl sha_compress st bs) = length st"
  by (induction bs arbitrary: st) auto

lemma length_concat_be32 [simp, byte_simps]: "length (concat (map be32 ws)) = 4 * length ws"
  by (induction ws) auto

lemma length_sha256 [simp, byte_simps]: "length (sha256 m) = 32"
  by (simp add: sha256_def)

text \<open>The padded message is a whole number of blocks, so no byte of it is dropped.\<close>

lemma sha_pad_whole: "64 dvd length (m @ sha_pad (length m))"
proof -
  let ?n = "length m mod 64"
  have "?n < 64" by simp
  then have "(?n + (9 + (119 - ?n) mod 64)) mod 64 = 0"
  proof (cases "?n \<le> 55")
    case True
    then have "(119 - ?n) mod 64 = 55 - ?n"
      using mod_add_self2 [of "55 - ?n" 64] by simp
    with True show ?thesis by simp
  next
    case False
    with \<open>?n < 64\<close> have "(119 - ?n) mod 64 = 119 - ?n" by simp
    with False \<open>?n < 64\<close> show ?thesis by simp
  qed
  then have "(length m + (9 + (119 - ?n) mod 64)) mod 64 = 0"
    by (metis mod_add_left_eq)
  then have "64 dvd length m + (9 + (119 - ?n) mod 64)"
    by (rule mod_0_imp_dvd)
  then show ?thesis
    by (simp add: sha_pad_def add.commute add.left_commute)
qed

text \<open>A 64-byte message is one block, followed by a padding block that does not depend on it.\<close>

lemma sha256_two_blocks:
  assumes "length m = 64"
  shows "sha256 m = concat (map be32 (sha_compress (sha_compress sha_H0 m) (sha_pad 64)))"
proof -
  have pad: "length (sha_pad 64) = 64"
    by (simp add: sha_pad_def)
  have "blocks 63 (m @ sha_pad 64) = m # blocks 63 (sha_pad 64)"
    using assms by (simp add: blocks_append)
  also have "blocks 63 (sha_pad 64) = [sha_pad 64]"
    using blocks_append [of "sha_pad 64" 63 "[]"] pad by simp
  finally show ?thesis
    by (simp add: sha256_def assms)
qed

end
