(* ===== verification/Hex_Codec.thy ===== *)
theory Hex_Codec
  imports Sha256
begin

text \<open>
  The packed hex encoder of \<open>app/main.go\<close>: the 256-entry pair table \<open>hexPairs\<close> and the in-place
  encoder \<open>hexEncode64\<close>, against \<open>hex_encode\<close>, the \<open>encoding/hex\<close> function it replaces, and
  \<open>hex_decode\<close>, its inverse.
\<close>

section \<open>The standard library's encoder\<close>

definition hex_digits :: bytes where
  "hex_digits = bytes_of ''0123456789abcdef''"

definition hex_digit :: "nat \<Rightarrow> byte" where
  "hex_digit n = hex_digits ! n"

definition hex_byte :: "byte \<Rightarrow> bytes" where
  "hex_byte b = [hex_digit (unat b div 16), hex_digit (unat b mod 16)]"

definition hex_encode :: "bytes \<Rightarrow> bytes" where
  "hex_encode bs = concat (map hex_byte bs)"

definition hex_val :: "byte \<Rightarrow> nat option" where
  "hex_val c =
     (if 48 \<le> c \<and> c \<le> 57 then Some (unat c - 48)
      else if 97 \<le> c \<and> c \<le> 102 then Some (unat c - 87) else None)"

fun hex_decode :: "bytes \<Rightarrow> bytes option" where
  "hex_decode [] = Some []"
| "hex_decode [_] = None"
| "hex_decode (a # b # rest) =
     (case (hex_val a, hex_val b, hex_decode rest) of
        (Some h, Some l, Some bs) \<Rightarrow> Some (word_of_nat (16 * h + l) # bs)
      | _ \<Rightarrow> None)"

section \<open>The packed table and the in-place encoder\<close>

definition hexPairs :: "u16 list" where
  "hexPairs =
     map (\<lambda>b. ucast (hex_digits ! drop_bit 4 b) OR push_bit 8 (ucast (hex_digits ! (b AND 15))))
       [0..<256]"

text \<open>One turn of the loop (the two stores of byte \<open>j\<close>), and the loop over the 32 bytes of the
  digest. Go's array types make every index in range.\<close>

definition hex_put :: "bytes \<Rightarrow> bytes \<Rightarrow> nat \<Rightarrow> bytes" where
  "hex_put dg buf j =
     (let p = hexPairs ! unat (dg ! j)
      in buf[2 * j := ucast p, 2 * j + 1 := ucast (drop_bit 8 p)])"

definition hexEncode64 :: "bytes \<Rightarrow> bytes \<Rightarrow> bytes" where
  "hexEncode64 buf dg = foldl (hex_put dg) buf [0..<32]"

section \<open>Lemmas\<close>

lemma length_hex_digits [simp]: "length hex_digits = 16"
  by (simp add: hex_digits_def)

lemma length_hex_byte [simp]: "length (hex_byte b) = 2"
  by (simp add: hex_byte_def)

lemma length_hex_encode [simp, byte_simps]: "length (hex_encode bs) = 2 * length bs"
  by (induction bs) (simp_all add: hex_encode_def)

lemma hex_encode_snoc: "hex_encode (bs @ [b]) = hex_encode bs @ hex_byte b"
  by (simp add: hex_encode_def)

lemma pack_low: "(ucast (ucast x OR push_bit 8 (ucast y) :: u16) :: byte) = x" for x y :: byte
  by (rule bit_word_eqI) (auto simp: bit_simps)

lemma pack_high: "(ucast (drop_bit 8 (ucast x OR push_bit 8 (ucast y) :: u16)) :: byte) = y"
  for x y :: byte
  by (rule bit_word_eqI) (auto simp: bit_simps dest: bit_imp_le_length)

lemma hexPairs_bytes:
  "ucast (hexPairs ! unat b) = hex_digit (unat b div 16)"
  "ucast (drop_bit 8 (hexPairs ! unat b)) = hex_digit (unat b mod 16)" for b :: byte
proof -
  have "unat b < 2 ^ LENGTH(8)" by (rule unsigned_less)
  then have b: "unat b < 256" by simp
  have "drop_bit 4 (unat b) = unat b div 16" "unat b AND 15 = unat b mod 16"
    using take_bit_eq_mask [of 4 "unat b"]
    by (simp_all add: drop_bit_eq_div take_bit_eq_mod mask_eq_exp_minus_1)
  with b have eq: "hexPairs ! unat b =
      ucast (hex_digit (unat b div 16)) OR push_bit 8 (ucast (hex_digit (unat b mod 16)))"
    by (simp add: hexPairs_def hex_digit_def)
  then show "ucast (hexPairs ! unat b) = hex_digit (unat b div 16)"
    "ucast (drop_bit 8 (hexPairs ! unat b)) = hex_digit (unat b mod 16)"
    by (simp_all only: eq pack_low pack_high)
qed

text \<open>After \<open>n\<close> turns the first \<open>2n\<close> bytes are the encoding of the first \<open>n\<close> bytes of the digest, and
  the rest of the buffer is untouched.\<close>

lemma hex_put_at:
  assumes "length xs = 2 * j"
  shows "hex_put dg (xs @ x # y # rest) j = xs @ hex_byte (dg ! j) @ rest"
  using assms by (simp add: hex_put_def hex_byte_def hexPairs_bytes list_update_append)

lemma hexEncode64_prefix:
  assumes len: "length buf = 2 * length dg" and "n \<le> length dg"
  shows "foldl (hex_put dg) buf [0..<n] = hex_encode (take n dg) @ drop (2 * n) buf"
  using assms(2)
proof (induction n)
  case 0
  then show ?case by (simp add: hex_encode_def)
next
  case (Suc n)
  then have n: "n < length dg" by simp
  then have "length (drop (2 * n) buf) \<ge> 2" using len by simp
  then obtain x y rest where d: "drop (2 * n) buf = x # y # rest"
    by (cases "drop (2 * n) buf"; cases "tl (drop (2 * n) buf)") auto
  have "drop (2 * Suc n) buf = drop 2 (drop (2 * n) buf)" by simp
  with d have d': "drop (2 * Suc n) buf = rest" by simp
  have "length (hex_encode (take n dg)) = 2 * n"
    using n by simp
  then have "hex_put dg (hex_encode (take n dg) @ x # y # rest) n =
      hex_encode (take n dg) @ hex_byte (dg ! n) @ rest"
    by (rule hex_put_at)
  with Suc d d' n show ?case
    by (simp add: take_Suc_conv_app_nth hex_encode_snoc)
qed

lemma hexEncode64_eq:
  assumes "length buf = 64" and "length dg = 32"
  shows "hexEncode64 buf dg = hex_encode dg"
  using hexEncode64_prefix [of buf dg 32] assms by (simp add: hexEncode64_def)

lemma length_hexEncode64 [byte_simps]: "length (hexEncode64 buf dg) = length buf"
proof -
  have "length (foldl (hex_put dg) buf js) = length buf" for js
    by (induction js arbitrary: buf) (simp_all add: hex_put_def Let_def)
  then show ?thesis by (simp add: hexEncode64_def)
qed

section \<open>Decoding\<close>

lemma hex_digit_list:
  "hex_digits = [48, 49, 50, 51, 52, 53, 54, 55, 56, 57, 97, 98, 99, 100, 101, 102]"
  by (simp add: hex_digits_def bytes_of_def)

lemma hex_val_digit: "n < 16 \<Longrightarrow> hex_val (hex_digit n) = Some n"
proof -
  have "\<forall>n \<in> set [0..<16]. hex_val (hex_digit n) = Some n"
    by (simp add: hex_digit_def hex_digit_list hex_val_def upt_rec)
  then show "n < 16 \<Longrightarrow> hex_val (hex_digit n) = Some n" by simp
qed

lemma hex_decode_byte:
  "hex_decode (hex_byte b @ rest) = map_option ((#) b) (hex_decode rest)"
proof -
  have "unat b < 2 ^ LENGTH(8)" by (rule unsigned_less)
  then have "unat b div 16 < 16" by simp
  moreover have "16 * (unat b div 16) + unat b mod 16 = unat b" by simp
  ultimately show ?thesis
    by (auto simp: hex_byte_def hex_val_digit split: option.split)
qed

lemma hex_decode_encode [simp]: "hex_decode (hex_encode bs) = Some bs"
  by (induction bs) (simp_all add: hex_encode_def hex_decode_byte)

lemma hex_encode_inj: "hex_encode a = hex_encode b \<longleftrightarrow> a = b"
  by (metis hex_decode_encode option.inject)

lemma hex_encode_digits: "set (hex_encode bs) \<subseteq> set hex_digits"
proof -
  have "set (hex_byte b) \<subseteq> set hex_digits" for b
  proof -
    have "unat b < 2 ^ LENGTH(8)" by (rule unsigned_less)
    then show ?thesis by (simp add: hex_byte_def hex_digit_def)
  qed
  then show ?thesis by (auto simp: hex_encode_def)
qed

end
