(* ===== verification/Chain.thy ===== *)
theory Chain
  imports Hex_Codec
begin

text \<open>
  The \<open>/risk\<close> hash chain of \<open>app/main.go\<close>: 50,000 rounds of SHA-256 and hex. The specification is
  the starter's loop (\<open>naiveRiskChain\<close>); the implementation is \<open>riskChain\<close> and \<open>riskChainPair\<close>, which
  dispatch on the kernel variables (\<open>kernels\<close>) and run either an in-Go loop over a per-iteration
  kernel or a chunked loop over a kernel that takes the number of iterations. Both loops are modelled
  with their 32-bit counter, and both return, beside the buffers, the values of the counter at which
  they call \<open>runtime.Gosched\<close>, so that the cadence of the voluntary yields can be stated.
\<close>

section \<open>The specification\<close>

text \<open>One round on the text of the chain: \<open>hex(sha256(h))\<close>.\<close>

definition hash_hex :: "bytes \<Rightarrow> bytes" where
  "hash_hex h = hex_encode (sha256 h)"

text \<open>The starter's handler: \<open>h := seed\<close>, then \<open>n\<close> times \<open>h = hex(sha256(h))\<close>.\<close>

primrec starter_loop :: "nat \<Rightarrow> string \<Rightarrow> string" where
  "starter_loop 0 h = h"
| "starter_loop (Suc n) h = starter_loop n (str_of (hex_encode (sha256 (bytes_of h))))"

definition starter_risk :: "string \<Rightarrow> string" where
  "starter_risk seed = (let seed = (if seed = '''' then ''none'' else seed)
                        in starter_loop 50000 seed)"

definition naiveRiskChain :: "string \<Rightarrow> string" where
  "naiveRiskChain seed = starter_loop 50000 seed"

section \<open>The kernel variables\<close>

text \<open>
  The function variables and flags that boot assigns and the chains read. A variable that may be
  \<open>nil\<close> is an \<open>option\<close>; a call that panics returns \<open>None\<close>. An in-place kernel over one buffer is a function on the buffer, over two
  buffers a function on the pair; \<open>riskSum64\<close> writes its output array, which is its value here.
\<close>

record kernels =
  riskSum64 :: "bytes \<Rightarrow> bytes"
  riskSumPair :: "(bytes \<Rightarrow> bytes \<Rightarrow> bytes \<times> bytes) option"
  riskPairIter :: "(bytes \<times> bytes \<Rightarrow> bytes \<times> bytes) option"
  riskIter1 :: "(bytes \<Rightarrow> bytes) option"
  riskPairIterN :: "(bytes \<times> bytes \<Rightarrow> nat \<Rightarrow> bytes \<times> bytes) option"
  riskIter1N :: "(bytes \<Rightarrow> nat \<Rightarrow> bytes) option"
  riskChainQuad :: "(string \<Rightarrow> string \<Rightarrow> string \<Rightarrow> string \<Rightarrow> string \<times> string \<times> string \<times> string) option"
  riskChainX16 :: "(string list \<Rightarrow> string list option) option"
  riskX16MinBatch :: int
  riskYieldMask :: u32
  kernelUseSHANI :: bool
  kernelUseAVX2 :: bool
  kernelPairOK :: bool

definition default_kernels :: kernels where
  "default_kernels = \<lparr>
     riskSum64 = sha256, riskSumPair = None, riskPairIter = None, riskIter1 = None,
     riskPairIterN = None, riskIter1N = None, riskChainQuad = None, riskChainX16 = None,
     riskX16MinBatch = 8, riskYieldMask = 4096 - 1,
     kernelUseSHANI = False, kernelUseAVX2 = False, kernelPairOK = False\<rparr>"

section \<open>The two loops\<close>

text \<open>\<open>for i := uint32(1); i < 50000; i++ { it(&buf); if i&mask == 0 { Gosched } }\<close>, with the bound as
  an argument.\<close>

function iter_loop :: "('b \<Rightarrow> 'b) \<Rightarrow> u32 \<Rightarrow> u32 \<Rightarrow> u32 \<Rightarrow> 'b \<Rightarrow> u32 list \<Rightarrow> 'b \<times> u32 list" where
  "iter_loop it msk lim i b ys =
     (if i < lim
      then iter_loop it msk lim (i + 1) (it b) (if i AND msk = 0 then ys @ [i] else ys)
      else (b, ys))"
  by pat_completeness auto

lemma unat_suc_bound: "i < lim \<Longrightarrow> unat (i + 1) = Suc (unat i)" for i lim :: u32
proof -
  assume "i < lim"
  then have "Suc (unat i) \<le> unat lim" by (simp add: word_less_nat_alt)
  moreover have "unat lim < 2 ^ LENGTH(32)" by (rule unsigned_less)
  ultimately show "unat (i + 1) = Suc (unat i)" by (simp add: unat_word_ariths)
qed

termination iter_loop
proof (relation "measure (\<lambda>(it, msk, lim, i, b, ys). unat lim - unat i)")
  fix it :: "'b \<Rightarrow> 'b" and msk lim i :: u32 and b :: 'b and ys
  assume "i < lim"
  then have "unat i < unat lim" "unat (i + 1) = Suc (unat i)"
    by (simp add: word_less_nat_alt, rule unat_suc_bound)
  then show "((it, msk, lim, i + 1, it b, if i AND msk = 0 then ys @ [i] else ys),
      (it, msk, lim, i, b, ys)) \<in> measure (\<lambda>(it, msk, lim, i, b, ys). unat lim - unat i)"
    by simp
qed simp

declare iter_loop.simps [simp del]

text \<open>\<open>for done := uint32(1); done < 50000; { n := 50000 - done; if stride != 0 && n > stride
  { n = stride }; itN(&buf, int(n)); done += n; if done < 50000 { Gosched } }\<close>.\<close>

definition chunk_size :: "u32 \<Rightarrow> u32 \<Rightarrow> u32 \<Rightarrow> u32" where
  "chunk_size stride lim dn =
     (let n = lim - dn in if stride \<noteq> 0 \<and> stride < n then stride else n)"

function chunk_loop ::
  "('b \<Rightarrow> nat \<Rightarrow> 'b) \<Rightarrow> u32 \<Rightarrow> u32 \<Rightarrow> u32 \<Rightarrow> 'b \<Rightarrow> u32 list \<Rightarrow> 'b \<times> u32 list" where
  "chunk_loop itN stride lim dn b ys =
     (if dn < lim
      then let n = chunk_size stride lim dn;
               b' = itN b (unat n);
               dn' = dn + n
           in chunk_loop itN stride lim dn' b' (if dn' < lim then ys @ [dn'] else ys)
      else (b, ys))"
  by pat_completeness auto

lemma chunk_size_unat:
  assumes "dn < lim"
  shows "unat (chunk_size stride lim dn) =
    (if stride = 0 then unat lim - unat dn else min (unat stride) (unat lim - unat dn))"
proof -
  have "unat (lim - dn) = unat lim - unat dn"
    using assms by (simp add: unat_sub word_less_nat_alt word_le_nat_alt)
  then show ?thesis
    by (auto simp: chunk_size_def word_less_nat_alt Let_def)
qed

lemma chunk_size_pos: "dn < lim \<Longrightarrow> 0 < unat (chunk_size stride lim dn)"
  by (auto simp: chunk_size_unat word_less_nat_alt unat_gt_0)

lemma chunk_step_unat:
  assumes "dn < lim"
  shows "unat (dn + chunk_size stride lim dn) = unat dn + unat (chunk_size stride lim dn)"
    and "unat dn + unat (chunk_size stride lim dn) \<le> unat lim"
proof -
  have lt: "unat dn < unat lim" using assms by (simp add: word_less_nat_alt)
  then show le: "unat dn + unat (chunk_size stride lim dn) \<le> unat lim"
    using assms by (auto simp: chunk_size_unat)
  have "unat lim < 2 ^ LENGTH(32)" by (rule unsigned_less)
  with le show "unat (dn + chunk_size stride lim dn) =
      unat dn + unat (chunk_size stride lim dn)"
    by (subst unat_add_lem [THEN iffD1]) simp_all
qed

termination chunk_loop
proof (relation "measure (\<lambda>(itN, stride, lim, dn, b, ys). unat lim - unat dn)")
  fix itN :: "'b \<Rightarrow> nat \<Rightarrow> 'b" and stride lim dn n "dn'" :: u32 and b b' :: 'b and ys
  assume less: "dn < lim" and n: "n = chunk_size stride lim dn" and d: "dn' = dn + n"
  have "0 < unat n" "unat dn' = unat dn + unat n" "unat dn' \<le> unat lim"
    using chunk_size_pos [OF less] chunk_step_unat [OF less] n d by auto
  then show "((itN, stride, lim, dn', b', if dn' < lim then ys @ [dn'] else ys),
      (itN, stride, lim, dn, b, ys))
      \<in> measure (\<lambda>(itN, stride, lim, dn, b, ys). unat lim - unat dn)"
    by simp
qed simp

declare chunk_loop.simps [simp del]

section \<open>The chains\<close>

text \<open>\<open>riskChain\<close>: the digest and the counter values at which the goroutine yields.\<close>

definition riskChain :: "kernels \<Rightarrow> string \<Rightarrow> string \<times> u32 list" where
  "riskChain k seed =
     (let buf = hexEncode64 (replicate 64 0) (sha256 (bytes_of seed));
          msk = riskYieldMask k;
          (buf, ys) =
            (case riskIter1N k of
               Some itN \<Rightarrow> chunk_loop itN (msk + 1) 50000 1 buf []
             | None \<Rightarrow>
                 (case riskIter1 k of
                    Some it \<Rightarrow> iter_loop it msk 50000 1 buf []
                  | None \<Rightarrow>
                      iter_loop (\<lambda>buf. hexEncode64 buf (riskSum64 k buf)) msk 50000 1 buf []))
      in (str_of buf, ys))"

text \<open>\<open>riskChainPair\<close>: \<open>None\<close> is the panic of calling the \<open>nil\<close> variable \<open>riskSumPair\<close>.\<close>

definition riskChainPair ::
  "kernels \<Rightarrow> string \<Rightarrow> string \<Rightarrow> ((string \<times> string) \<times> u32 list) option" where
  "riskChainPair k seedA seedB =
     (let bufA = hexEncode64 (replicate 64 0) (sha256 (bytes_of seedA));
          bufB = hexEncode64 (replicate 64 0) (sha256 (bytes_of seedB));
          msk = riskYieldMask k
      in map_option (map_prod (map_prod str_of str_of) id)
        (case riskPairIterN k of
           Some iterN \<Rightarrow> Some (chunk_loop iterN (msk + 1) 50000 1 (bufA, bufB) [])
         | None \<Rightarrow>
             (case riskPairIter k of
                Some it \<Rightarrow> Some (iter_loop it msk 50000 1 (bufA, bufB) [])
              | None \<Rightarrow>
                  (case riskSumPair k of
                     None \<Rightarrow> None
                   | Some pair \<Rightarrow>
                       Some (iter_loop
                         (\<lambda>(bufA, bufB). let (sumA, sumB) = pair bufA bufB
                            in (hexEncode64 bufA sumA, hexEncode64 bufB sumB))
                         msk 50000 1 (bufA, bufB) [])))))"

section \<open>Interfaces: what a loop needs of its kernel\<close>

text \<open>A per-iteration kernel performs one step of the chain on every buffer that satisfies the
  invariant (the buffer is 64 bytes long); a counted kernel performs \<open>n\<close> of them.\<close>

locale counted_kernel =
  fixes inv :: "'b \<Rightarrow> bool" and step :: "'b \<Rightarrow> 'b" and itN :: "'b \<Rightarrow> nat \<Rightarrow> 'b"
  assumes inv_step: "inv b \<Longrightarrow> inv (step b)"
    and itN_steps: "inv b \<Longrightarrow> itN b n = (step ^^ n) b"
begin

lemma inv_steps: "inv b \<Longrightarrow> inv ((step ^^ n) b)"
  by (rule funpow_invariant [of inv step]) (auto intro: inv_step)

lemma chunk_loop_steps:
  "inv b \<Longrightarrow> fst (chunk_loop itN stride lim dn b ys) = (step ^^ (unat lim - unat dn)) b"
proof (induction "unat lim - unat dn" arbitrary: dn b ys rule: less_induct)
  case less
  show ?case
  proof (cases "dn < lim")
    case True
    let ?n = "unat (chunk_size stride lim dn)" and ?dn = "dn + chunk_size stride lim dn"
    have n: "0 < ?n" "unat ?dn = unat dn + ?n" "unat dn + ?n \<le> unat lim"
      using chunk_size_pos [OF True] chunk_step_unat [OF True] by auto
    have b: "itN b ?n = (step ^^ ?n) b" "inv (itN b ?n)"
      using less.prems by (simp_all add: itN_steps inv_steps)
    have "fst (chunk_loop itN stride lim ?dn (itN b ?n) ys') =
        (step ^^ (unat lim - unat ?dn)) (itN b ?n)" for ys'
      using n b by (intro less.hyps) auto
    also have "\<dots> = (step ^^ (unat lim - unat ?dn + ?n)) b"
      using b by (simp add: funpow_add)
    finally show ?thesis
      using True n by (subst chunk_loop.simps) (simp add: Let_def)
  next
    case False
    then show ?thesis
      by (subst chunk_loop.simps) (simp add: word_less_nat_alt)
  qed
qed

end

text \<open>A loop body over a state that holds the lanes among other things: it keeps the invariant and
  performs one step on what the abstraction \<open>abs\<close> sees of the state.\<close>

locale sim_kernel =
  fixes inv :: "'s \<Rightarrow> bool" and abs :: "'s \<Rightarrow> 'b" and step :: "'b \<Rightarrow> 'b" and it :: "'s \<Rightarrow> 's"
  assumes inv_it: "inv s \<Longrightarrow> inv (it s)"
    and abs_it: "inv s \<Longrightarrow> abs (it s) = step (abs s)"
begin

lemma iter_loop_sim:
  "inv s \<Longrightarrow> inv (fst (iter_loop it msk lim i s ys)) \<and>
     abs (fst (iter_loop it msk lim i s ys)) = (step ^^ (unat lim - unat i)) (abs s)"
proof (induction "unat lim - unat i" arbitrary: i s ys rule: less_induct)
  case less
  show ?case
  proof (cases "i < lim")
    case True
    then have i: "unat (i + 1) = Suc (unat i)" "unat i < unat lim"
      by (simp_all add: unat_suc_bound word_less_nat_alt)
    have "(step ^^ (unat lim - unat (i + 1))) (abs (it s)) = (step ^^ (unat lim - unat i)) (abs s)"
      using less.prems i funpow_Suc_right [of "unat lim - unat (i + 1)" step]
      by (simp add: abs_it Suc_diff_Suc fun_eq_iff del: funpow.simps)
    moreover have "inv (fst (iter_loop it msk lim (i + 1) (it s) ys')) \<and>
        abs (fst (iter_loop it msk lim (i + 1) (it s) ys')) =
          (step ^^ (unat lim - unat (i + 1))) (abs (it s))" for ys'
      using i less.prems by (intro less.hyps) (auto intro: inv_it)
    ultimately show ?thesis
      using True by (subst (1 2) iter_loop.simps) simp
  next
    case False
    then show ?thesis
      using less.prems by (subst (1 2) iter_loop.simps) (simp add: word_less_nat_alt)
  qed
qed

end

locale iter_kernel =
  fixes inv :: "'b \<Rightarrow> bool" and step :: "'b \<Rightarrow> 'b" and it :: "'b \<Rightarrow> 'b"
  assumes inv_step: "inv b \<Longrightarrow> inv (step b)"
    and it_step: "inv b \<Longrightarrow> it b = step b"

text \<open>A per-iteration kernel simulates the step with nothing abstracted away.\<close>

sublocale iter_kernel \<subseteq> sim: sim_kernel inv id step it
  by unfold_locales (auto simp: it_step intro: inv_step)

context iter_kernel
begin

lemma it_steps: "inv b \<Longrightarrow> (it ^^ n) b = (step ^^ n) b"
  by (rule funpow_cong_inv [where P = inv]) (auto intro: inv_step it_step)

lemma iter_loop_steps:
  "inv b \<Longrightarrow> fst (iter_loop it msk lim i b ys) = (step ^^ (unat lim - unat i)) b"
  using sim.iter_loop_sim [of b msk lim i ys] by simp

end

text \<open>Calling a per-iteration kernel \<open>n\<close> times is a counted kernel: the two interfaces agree.\<close>

sublocale iter_kernel \<subseteq> counted: counted_kernel inv step "\<lambda>b n. (it ^^ n) b"
  by unfold_locales (auto intro: inv_step it_steps)

text \<open>The buffer invariants and the chain step on one and two lanes.\<close>

definition lane1 :: "bytes \<Rightarrow> bool" where
  "lane1 b \<longleftrightarrow> length b = 64"

definition lane2 :: "bytes \<times> bytes \<Rightarrow> bool" where
  "lane2 = (\<lambda>(a, b). lane1 a \<and> lane1 b)"

definition hash_hex2 :: "bytes \<times> bytes \<Rightarrow> bytes \<times> bytes" where
  "hash_hex2 = map_prod hash_hex hash_hex"

lemma lane1_hash_hex [simp]: "lane1 (hash_hex b)"
  by (simp add: lane1_def hash_hex_def byte_simps)

lemma lane2_hash_hex2 [simp]: "lane2 (hash_hex2 b)"
  by (cases b) (simp add: lane2_def hash_hex2_def)

lemma hash_hex2_funpow: "(hash_hex2 ^^ n) (a, b) = ((hash_hex ^^ n) a, (hash_hex ^^ n) b)"
  by (induction n) (simp_all add: hash_hex2_def)

lemma hexEncode64_sha256: "lane1 buf \<Longrightarrow> hexEncode64 buf (sha256 h) = hash_hex h"
  by (simp add: lane1_def hash_hex_def hexEncode64_eq)

text \<open>The portable iteration (\<open>sha256.Sum256\<close> and \<open>hexEncode64\<close>, in place) is a per-iteration
  kernel, on one lane and on two.\<close>

interpretation portable: iter_kernel lane1 hash_hex "\<lambda>buf. hexEncode64 buf (sha256 buf)"
  by unfold_locales (auto simp: hexEncode64_sha256)

interpretation portable2: iter_kernel lane2 hash_hex2
  "\<lambda>(a, b). (hexEncode64 a (sha256 a), hexEncode64 b (sha256 b))"
  by unfold_locales (auto simp: lane2_def hash_hex2_def hexEncode64_sha256)

section \<open>Correctness of the chains\<close>

text \<open>What the kernel variables must satisfy. Each clause is the statement the repository's boot
  self-test samples before it assigns the variable.\<close>

definition scalar_ok :: "kernels \<Rightarrow> bool" where
  "scalar_ok k \<longleftrightarrow>
     (\<forall>b. lane1 b \<longrightarrow> riskSum64 k b = sha256 b) \<and>
     (\<forall>f. riskIter1 k = Some f \<longrightarrow> (\<forall>b. lane1 b \<longrightarrow> f b = hash_hex b)) \<and>
     (\<forall>f. riskIter1N k = Some f \<longrightarrow> (\<forall>b n. lane1 b \<longrightarrow> f b n = (hash_hex ^^ n) b))"

definition pair_ok :: "kernels \<Rightarrow> bool" where
  "pair_ok k \<longleftrightarrow>
     (\<forall>f. riskSumPair k = Some f \<longrightarrow>
        (\<forall>a b. lane1 a \<longrightarrow> lane1 b \<longrightarrow> f a b = (sha256 a, sha256 b))) \<and>
     (\<forall>f. riskPairIter k = Some f \<longrightarrow> (\<forall>p. lane2 p \<longrightarrow> f p = hash_hex2 p)) \<and>
     (\<forall>f. riskPairIterN k = Some f \<longrightarrow> (\<forall>p n. lane2 p \<longrightarrow> f p n = (hash_hex2 ^^ n) p))"

lemma starter_loop_funpow: "starter_loop n h = str_of ((hash_hex ^^ n) (bytes_of h))"
  by (induction n arbitrary: h) (simp_all add: hash_hex_def funpow_swap1)

lemma funpow_49999: "(f ^^ (50000 - 1)) (f x) = (f ^^ 50000) x"
proof -
  have "(f ^^ Suc (50000 - 1)) x = (f ^^ (50000 - 1)) (f x)"
    by (simp only: funpow_Suc_right comp_def)
  then show ?thesis by (simp del: funpow.simps)
qed

lemma chain_bound: "unat (50000 :: u32) - unat (1 :: u32) = 50000 - 1"
  by simp

lemma first_round: "hexEncode64 (replicate 64 0) (sha256 s) = hash_hex s"
  by (simp add: hexEncode64_sha256 lane1_def)

lemma riskChain_naive:
  assumes "scalar_ok k"
  shows "fst (riskChain k seed) = naiveRiskChain seed"
proof -
  let ?buf = "hash_hex (bytes_of seed)"
  have sum: "iter_kernel lane1 hash_hex (\<lambda>buf. hexEncode64 buf (riskSum64 k buf))"
    using assms by unfold_locales (auto simp: scalar_ok_def hexEncode64_sha256)
  have it: "iter_kernel lane1 hash_hex f" if "riskIter1 k = Some f" for f
    using assms that by unfold_locales (auto simp: scalar_ok_def)
  have itN: "counted_kernel lane1 hash_hex f" if "riskIter1N k = Some f" for f
    using assms that by unfold_locales (auto simp: scalar_ok_def)
  have "fst (riskChain k seed) = str_of ((hash_hex ^^ (50000 - 1)) ?buf)"
    unfolding riskChain_def first_round Let_def
    using counted_kernel.chunk_loop_steps [OF itN, where lim = 50000 and dn = 1 and b = ?buf]
      iter_kernel.iter_loop_steps [OF it, where lim = 50000 and i = 1 and b = ?buf]
      iter_kernel.iter_loop_steps [OF sum, where lim = 50000 and i = 1 and b = ?buf]
    by (simp add: split_beta chain_bound split: option.split del: funpow.simps)
  then show ?thesis
    by (simp only: funpow_49999 naiveRiskChain_def starter_loop_funpow)
qed

lemma riskChainPair_naive:
  assumes ok: "pair_ok k" and some: "riskSumPair k \<noteq> None"
  shows "map_option fst (riskChainPair k seedA seedB) =
    Some (naiveRiskChain seedA, naiveRiskChain seedB)"
proof -
  let ?bufs = "(hash_hex (bytes_of seedA), hash_hex (bytes_of seedB))"
  have inv: "lane2 ?bufs" by (simp add: lane2_def)
  have sums: "iter_kernel lane2 hash_hex2 (\<lambda>(bufA, bufB). let (sumA, sumB) = f bufA bufB
      in (hexEncode64 bufA sumA, hexEncode64 bufB sumB))" if "riskSumPair k = Some f" for f
    using ok that
    by unfold_locales (auto simp: pair_ok_def lane2_def hash_hex2_def hexEncode64_sha256)
  have it: "iter_kernel lane2 hash_hex2 f" if "riskPairIter k = Some f" for f
    using ok that by unfold_locales (auto simp: pair_ok_def)
  have itN: "counted_kernel lane2 hash_hex2 f" if "riskPairIterN k = Some f" for f
    using ok that by unfold_locales (auto simp: pair_ok_def)
  have strs: "map_option fst (map_option (map_prod g id) x) = map_option g (map_option fst x)"
    for g :: "bytes \<times> bytes \<Rightarrow> string \<times> string" and x :: "((bytes \<times> bytes) \<times> u32 list) option"
    by (cases x) auto
  note loops =
    counted_kernel.chunk_loop_steps [OF itN inv, where lim = 50000 and dn = 1]
    iter_kernel.iter_loop_steps [OF it inv, where lim = 50000 and i = 1]
    iter_kernel.iter_loop_steps [OF sums inv, where lim = 50000 and i = 1]
  have "map_option fst
      (case riskPairIterN k of
         Some iterN \<Rightarrow> Some (chunk_loop iterN (riskYieldMask k + 1) 50000 1 ?bufs [])
       | None \<Rightarrow>
           (case riskPairIter k of
              Some it \<Rightarrow> Some (iter_loop it (riskYieldMask k) 50000 1 ?bufs [])
            | None \<Rightarrow>
                (case riskSumPair k of
                   None \<Rightarrow> None
                 | Some pair \<Rightarrow>
                     Some (iter_loop
                       (\<lambda>(bufA, bufB). let (sumA, sumB) = pair bufA bufB
                          in (hexEncode64 bufA sumA, hexEncode64 bufB sumB))
                       (riskYieldMask k) 50000 1 ?bufs []))))
    = Some ((hash_hex2 ^^ (50000 - 1)) ?bufs)"
    using some
    by (auto simp only: loops chain_bound option.map split: option.split)
  then have "map_option fst (riskChainPair k seedA seedB) =
      Some (map_prod str_of str_of ((hash_hex2 ^^ (50000 - 1)) ?bufs))"
    unfolding riskChainPair_def first_round Let_def strs
    by (simp only: option.map)
  then show ?thesis
    by (simp only: hash_hex2_funpow funpow_49999 naiveRiskChain_def starter_loop_funpow
        map_prod_simp)
qed

section \<open>The cadence of the voluntary yields\<close>

text \<open>Both loops record the counter at each \<open>Gosched\<close>. Whatever the kernel does, the recorded values
  are those of a filtered range.\<close>

lemma iter_loop_yields:
  "snd (iter_loop it msk lim i b ys) =
     ys @ filter (\<lambda>i. i AND msk = 0) (map word_of_nat [unat i..<unat lim])"
proof (induction it msk lim i b ys rule: iter_loop.induct)
  case (1 it msk lim i b ys)
  show ?case
  proof (cases "i < lim")
    case True
    then have "unat (i + 1) = Suc (unat i)" "unat i < unat lim"
      by (simp_all add: unat_suc_bound word_less_nat_alt)
    then show ?thesis
      using True 1 by (subst iter_loop.simps) (simp add: upt_conv_Cons)
  next
    case False
    then show ?thesis
      by (subst iter_loop.simps) (simp add: word_less_nat_alt)
  qed
qed

lemma chunk_loop_yields:
  assumes "stride \<noteq> 0" and "1 \<le> unat dn" and "(unat dn - 1) mod unat stride = 0"
  shows "snd (chunk_loop itN stride lim dn b ys) =
     ys @ map word_of_nat
       (filter (\<lambda>d. (d - 1) mod unat stride = 0) [Suc (unat dn)..<unat lim])"
  using assms
proof (induction itN stride lim dn b ys rule: chunk_loop.induct)
  case (1 itN stride lim dn b ys)
  let ?s = "unat stride" and ?d = "unat dn" and ?L = "unat lim"
  let ?P = "\<lambda>d. (d - 1) mod ?s = 0"
  have s: "0 < ?s" using "1.prems"(1) by (simp add: unat_gt_0)
  have gap: "\<not> ?P d" if "?d < d" "d < ?d + ?s" for d
  proof -
    have "(d - 1) mod ?s = ((?d - 1) + (d - ?d)) mod ?s"
      using that "1.prems"(2) by simp
    also have "\<dots> = (d - ?d) mod ?s"
      using "1.prems"(3) by (metis add_cancel_left_left mod_add_left_eq)
    also have "\<dots> = d - ?d" using that by simp
    finally show ?thesis using that by simp
  qed
  show ?case
  proof (cases "dn < lim")
    case False
    then show ?thesis
      by (subst chunk_loop.simps) (simp add: word_less_nat_alt)
  next
    case True
    let ?c = "chunk_size stride lim dn"
    have c: "unat ?c = min ?s (?L - ?d)" "unat (dn + ?c) = ?d + unat ?c"
      using True "1.prems"(1) chunk_step_unat [OF True] by (simp_all add: chunk_size_unat)
    have lt: "?d < ?L" using True by (simp add: word_less_nat_alt)
    show ?thesis
    proof (cases "?s < ?L - ?d")
      case short: True
      then have d': "unat (dn + ?c) = ?d + ?s" "dn + ?c < lim"
        using c lt by (simp_all add: word_less_nat_alt)
      have "[Suc ?d..<?L] = [Suc ?d..<?d + ?s] @ [?d + ?s..<?L]"
        using s short upt_add_eq_append [of "Suc ?d" "?d + ?s" "?L - (?d + ?s)"] by simp
      moreover have "[?d + ?s..<?L] = (?d + ?s) # [Suc (?d + ?s)..<?L]"
        using short by (simp add: upt_conv_Cons)
      moreover have "filter ?P [Suc ?d..<?d + ?s] = []"
        using gap by (auto simp: filter_empty_conv)
      moreover have "?P (?d + ?s)"
        using "1.prems"(2,3) by (metis Nat.add_diff_assoc2 mod_add_self2)
      moreover have "word_of_nat (?d + ?s) = dn + ?c"
        by (simp add: word_unat_eq_iff flip: d'(1))
      ultimately show ?thesis
        using True d' 1 by (subst chunk_loop.simps) (simp add: Let_def)
    next
      case False
      then have d': "unat (dn + ?c) = ?L"
        using c lt by simp
      then have last: "\<not> dn + ?c < lim" by (simp add: word_less_nat_alt)
      have "filter ?P [Suc ?d..<?L] = []"
        using gap False by (auto simp: filter_empty_conv)
      then show ?thesis
        using True last by (subst chunk_loop.simps) (simp add: Let_def chunk_loop.simps)
    qed
  qed
qed

text \<open>For the masks of power-of-two strides (and for the all-ones mask that disables yielding) the
  chunked loop yields exactly where the per-iteration loop does: after the same number of rounds, the
  very last round excepted.\<close>

lemma word_and_mask_eq_0: "(w :: u32) AND mask k = 0 \<longleftrightarrow> unat w mod 2 ^ k = 0"
proof -
  have "w AND mask k = take_bit k w"
    by (simp add: take_bit_eq_mask)
  moreover have "unat (take_bit k w) = unat w mod 2 ^ k"
    by (metis take_bit_eq_mod unsigned_take_bit_eq)
  ultimately show ?thesis by (metis unat_eq_0)
qed

lemma chunk_yields_range:
  assumes "k < 32"
  shows "snd (chunk_loop itN (mask k + 1) lim 1 b []) =
    map word_of_nat (filter (\<lambda>d. (d - 1) mod 2 ^ k = 0) [2..<unat lim])"
proof -
  have "(mask k :: u32) + 1 = 2 ^ k"
    by (simp add: mask_eq_exp_minus_1)
  moreover have "unat (2 ^ k :: u32) = 2 ^ k"
  proof -
    have "(2 :: nat) ^ k < 2 ^ 32" using assms by (intro power_strict_increasing) auto
    then have "unat (word_of_nat (2 ^ k) :: u32) = 2 ^ k"
      by (subst unat_of_nat) (simp add: take_bit_nat_eq_self_iff)
    then show ?thesis by simp
  qed
  moreover have "(2 ^ k :: u32) \<noteq> 0"
    using assms by simp
  ultimately show ?thesis
    using chunk_loop_yields [of "mask k + 1" 1 itN lim b "[]"]
    by (simp add: numeral_2_eq_2)
qed

lemma iter_yields_range:
  "map (\<lambda>i. i + 1) (filter (\<lambda>i. i + 1 < lim) (snd (iter_loop it (mask k) lim 1 b []))) =
    map word_of_nat (filter (\<lambda>d. (d - 1) mod 2 ^ k = 0) [2..<unat lim])"
proof -
  let ?L = "unat lim"
  have L: "?L < 2 ^ LENGTH(32)" by (rule unsigned_less)
  have small: "unat (word_of_nat i :: u32) = i" if "i \<le> ?L" for i
    using that L by (simp add: unat_of_nat take_bit_nat_eq_self_iff)
  have suc: "word_of_nat i + 1 < lim \<longleftrightarrow> Suc i < ?L" if "i < ?L" for i
  proof -
    have "word_of_nat i + 1 = (word_of_nat (Suc i) :: u32)" by simp
    moreover have "unat (word_of_nat (Suc i) :: u32) = Suc i" using that by (intro small) simp
    ultimately show ?thesis by (simp only: word_less_nat_alt)
  qed
  have "filter (\<lambda>i. i + 1 < lim) (snd (iter_loop it (mask k) lim 1 b [])) =
      map word_of_nat (filter (\<lambda>i. Suc i < ?L \<and> i mod 2 ^ k = 0) [1..<?L])"
    unfolding iter_loop_yields
    by (simp add: filter_map comp_def word_and_mask_eq_0)
      (rule arg_cong [where f = "map word_of_nat"], rule filter_cong [OF refl], auto simp: suc small)
  also have "filter (\<lambda>i. Suc i < ?L \<and> i mod 2 ^ k = 0) [1..<?L] =
      filter (\<lambda>i. i mod 2 ^ k = 0) [1..<?L - 1]"
    by (cases ?L) (auto intro!: filter_cong)
  also have "map (\<lambda>i. i + 1) (map (word_of_nat :: nat \<Rightarrow> u32) (filter (\<lambda>i. i mod 2 ^ k = 0) [1..<?L - 1])) =
      map word_of_nat (filter (\<lambda>d. (d - 1) mod 2 ^ k = 0) (map Suc [1..<?L - 1]))"
    by (simp add: filter_map comp_def add.commute)
  also have "map Suc [1..<?L - 1] = [2..<?L]"
    by (simp add: map_Suc_upt numeral_2_eq_2) (cases ?L, auto)
  finally show ?thesis .
qed

lemma yields_agree:
  assumes "k < 32"
  shows "snd (chunk_loop itN (mask k + 1) lim 1 b []) =
    map (\<lambda>i. i + 1) (filter (\<lambda>i. i + 1 < lim) (snd (iter_loop it (mask k) lim 1 b' [])))"
  by (simp only: chunk_yields_range [OF assms] iter_yields_range)

lemma iter_yield_iff:
  "i \<in> set (snd (iter_loop it msk lim 1 b [])) \<longleftrightarrow> 1 \<le> i \<and> i < lim \<and> i AND msk = 0"
proof -
  have "i \<in> word_of_nat ` {1..<unat lim} \<longleftrightarrow> 1 \<le> i \<and> i < lim"
  proof
    assume "i \<in> word_of_nat ` {1..<unat lim}"
    then obtain n where n: "i = word_of_nat n" "1 \<le> n" "n < unat lim" by auto
    have "unat lim < 2 ^ LENGTH(32)" by (rule unsigned_less)
    with n have "unat i = n" by (simp add: unat_of_nat take_bit_nat_eq_self_iff)
    with n show "1 \<le> i \<and> i < lim" by (simp add: word_le_nat_alt word_less_nat_alt)
  next
    assume "1 \<le> i \<and> i < lim"
    then have "unat i \<in> {1..<unat lim}" "i = word_of_nat (unat i)"
      by (simp_all add: word_le_nat_alt word_less_nat_alt)
    then show "i \<in> word_of_nat ` {1..<unat lim}" by blast
  qed
  then show ?thesis by (auto simp: iter_loop_yields)
qed

end
