(* ===== verification/Json_Objects.thy ===== *)
theory Json_Objects
  imports Price_Log
begin

text \<open>
  Flat JSON objects: the text of an object with given member texts reads back as the object with the members'
  values. Both the bodies the handlers build by hand and those of \<open>encoding/json\<close> are such texts, and a client that
  looks members up by name sees \<open>json_object\<close>.
\<close>

section \<open>Texts of members\<close>

text \<open>\<open>t\<close> is read as the value \<open>v\<close> wherever a member's value may stand.\<close>

definition reads_as :: "string \<Rightarrow> json \<Rightarrow> bool" where
  "reads_as t v \<longleftrightarrow>
     (\<forall>ms k st c. c \<in> {CHR '','', CHR ''}''} \<longrightarrow>
        jstep (jrun (MValue, FObj ms (Some k) # st) t) c = step_end (MAfter, FObj (ms @ [(k, v)]) None # st) c)"

lemma reads_as_number: "json_number t \<Longrightarrow> reads_as t (JNum t)"
  unfolding reads_as_def
proof (intro allI impI)
  fix ms k st c
  assume t: "json_number t" and c: "c \<in> {CHR '','', CHR ''}''}"
  obtain n where "jrun (MValue, FObj ms (Some k) # st) t = (MNumber n t, FObj ms (Some k) # st)" "num_ends n"
    using jrun_number [OF t] by blast
  then show "jstep (jrun (MValue, FObj ms (Some k) # st) t) c =
      step_end (MAfter, FObj (ms @ [(k, JNum t)]) None # st) c"
    using c jstep_number_end [of n c t "FObj ms (Some k) # st"] by (auto simp: finish_def simp del: jstep.simps)
qed

lemma reads_as_string: "reads_as (json_string s) (JStr (unquote (escape s)))"
  by (simp add: reads_as_def jrun_json_value_string)

fun members_text :: "(string \<times> string) list \<Rightarrow> string" where
  "members_text [] = []"
| "members_text ((k, t) # ms) =
     json_string k @ CHR '':'' # t @ (if ms = [] then [] else CHR '','' # members_text ms)"

definition object_text :: "(string \<times> string) list \<Rightarrow> string" where
  "object_text ms = CHR ''{'' # members_text ms @ ''}''"

lemma jrun_key:
  "m \<in> {MKey, MKeyOrEnd} \<Longrightarrow>
     jrun (m, FObj ms None # st) (json_string k @ '':'') = (MValue, FObj ms (Some (unquote (escape k))) # st)"
  by (auto simp: jrun_json_string finish_string_def is_json_space_def)

lemma jrun_members:
  assumes "list_all2 (\<lambda>(k, t) (k', v). k' = unquote (escape k) \<and> reads_as t v) ts vs" "ts \<noteq> []"
    and "m \<in> {MKey, MKeyOrEnd}"
  shows "jrun (m, FObj ms None # st) (members_text ts @ ''}'') = finish (JObj (ms @ vs)) st"
  using assms
proof (induction ts vs arbitrary: m ms rule: list_all2_induct)
  case (Cons x ts y vs)
  obtain k t where x: "x = (k, t)" by (cases x)
  obtain v where y: "y = (unquote (escape k), v)" and t: "reads_as t v"
    using Cons.hyps(1) x by (cases y) auto
  let ?v = "FObj ms (Some (unquote (escape k))) # st"
  let ?ms = "ms @ [(unquote (escape k), v)]"
  have at_value: "jstep (jrun (MValue, ?v) t) c = step_end (MAfter, FObj ?ms None # st) c"
    if "c = CHR '','' \<or> c = CHR ''}''" for c
    using t that by (auto simp: reads_as_def)
  have key: "jstep (jrun (m, FObj ms None # st) (json_string k)) (CHR '':'') = (MValue, ?v)"
    using jrun_key [OF Cons.prems(2), of ms st k] by (simp del: jstep.simps)
  show ?case
  proof (cases "ts = []")
    case True
    with Cons.hyps(2) have "vs = []" by simp
    then show ?thesis
      using at_value [of "CHR ''}''"] True
      by (simp add: x y key step_end_def is_json_space_def after_value_def del: jstep.simps)
  next
    case False
    have "jrun (m, FObj ms None # st) (members_text (x # ts) @ ''}'') =
        jrun (jstep (jrun (MValue, ?v) t) (CHR '','')) (members_text ts @ ''}'')"
      using False by (simp add: x key del: jstep.simps)
    also have "\<dots> = jrun (MKey, FObj ?ms None # st) (members_text ts @ ''}'')"
      by (subst at_value) (simp_all add: step_end_def is_json_space_def after_value_def)
    also have "\<dots> = finish (JObj (?ms @ vs)) st"
      using Cons.IH [OF False, of MKey ?ms] by simp
    finally show ?thesis by (simp add: y)
  qed
qed simp

text \<open>A trailing line feed, as \<open>Encoder.Encode\<close> writes it, changes nothing.\<close>

lemma json_whole_object:
  assumes "list_all2 (\<lambda>(k, t) (k', v). k' = unquote (escape k) \<and> reads_as t v) ts vs" "ts \<noteq> []"
    and "nl \<in> {[], [CHR 0x0A]}"
  shows "json_whole (object_text ts @ nl) = Some (JObj vs)"
proof -
  have "jrun (MValue, []) (object_text ts) = (MDone (JObj vs), [])"
    using jrun_members [OF assms(1,2), of MKeyOrEnd "[]" "[]"]
    by (simp add: object_text_def is_json_space_def begin_value_def push_def maxNestingDepth_def finish_def)
  then show ?thesis
    using assms(3) by (auto simp: json_whole_def jvalue_def step_end_def is_json_space_def)
qed

section \<open>What a client sees\<close>

text \<open>The members of an object by name: a string, or a number as \<open>strconv\<close> reads it.\<close>

definition json_leaf :: "'f float64 \<Rightarrow> json \<Rightarrow> (string + 'f) option" where
  "json_leaf F j =
     (case j of JStr s \<Rightarrow> Some (Inl s) | JNum t \<Rightarrow> map_option Inr (parse_json F t) | _ \<Rightarrow> None)"

definition json_object :: "'f float64 \<Rightarrow> string \<Rightarrow> (string \<rightharpoonup> string + 'f) option" where
  "json_object F text =
     (case json_whole text of
        Some (JObj ms) \<Rightarrow>
          if distinct (map fst ms) then Some (\<lambda>k. Option.bind (map_of ms k) (json_leaf F)) else None
      | _ \<Rightarrow> None)"

text \<open>A member text with the value it stands for.\<close>

definition text_of :: "'f float64 \<Rightarrow> string \<Rightarrow> string + 'f \<Rightarrow> bool" where
  "text_of F t x \<longleftrightarrow> (\<exists>v. reads_as t v \<and> json_leaf F v = Some x)"

lemma text_of_number: "json_number t \<Longrightarrow> parse_json F t = Some x \<Longrightarrow> text_of F t (Inr x)"
  unfolding text_of_def by (intro exI [of _ "JNum t"]) (simp add: reads_as_number json_leaf_def)

lemma text_of_string: "text_of F (json_string s) (Inl (unquote (escape s)))"
  unfolding text_of_def by (intro exI [of _ "JStr (unquote (escape s))"]) (simp add: reads_as_string json_leaf_def)

lemma json_object_text:
  assumes ts: "list_all2 (\<lambda>(k, t) (k', x). k' = unquote (escape k) \<and> text_of F t x) ts xs" "ts \<noteq> []"
    and "distinct (map fst xs)" "nl \<in> {[], [CHR 0x0A]}"
  shows "json_object F (object_text ts @ nl) = Some (map_of xs)"
proof -
  have "\<exists>vs. list_all2 (\<lambda>(k, t) (k', v). k' = unquote (escape k) \<and> reads_as t v) ts vs \<and>
      list_all2 (\<lambda>(k, v) (k', x). k' = k \<and> json_leaf F v = Some x) vs xs"
    using ts(1)
  proof (induction ts xs rule: list_all2_induct)
    case (Cons p ts q xs)
    obtain vs where "list_all2 (\<lambda>(k, t) (k', v). k' = unquote (escape k) \<and> reads_as t v) ts vs"
        "list_all2 (\<lambda>(k, v) (k', x). k' = k \<and> json_leaf F v = Some x) vs xs"
      using Cons.IH by blast
    moreover obtain v where "reads_as (snd p) v" "json_leaf F v = Some (snd q)" "fst q = unquote (escape (fst p))"
      using Cons.hyps(1) by (cases p; cases q) (auto simp: text_of_def)
    ultimately show ?case
      by (intro exI [of _ "(fst q, v) # vs"]) (simp add: case_prod_unfold)
  qed simp
  then obtain vs where vs: "list_all2 (\<lambda>(k, t) (k', v). k' = unquote (escape k) \<and> reads_as t v) ts vs"
      "list_all2 (\<lambda>(k, v) (k', x). k' = k \<and> json_leaf F v = Some x) vs xs" by blast
  have "map fst vs = map fst xs \<and> (\<forall>k. Option.bind (map_of vs k) (json_leaf F) = map_of xs k)"
    using vs(2) by (induction vs xs rule: list_all2_induct) auto
  with json_whole_object [OF vs(1) ts(2) assms(4)] assms(3) show ?thesis
    by (simp add: json_object_def)
qed

end
