(* ===== verification/Endpoints.thy ===== *)
theory Endpoints
  imports Price_Durability Chain Json_Objects
begin

text \<open>
  The endpoints against their contract: \<open>/stats\<close> on exact arithmetic is the population statistics of the
  series, and a \<open>/risk\<close> response is a JSON object with the seed and the digest, whatever bytes the seed has.
\<close>

section \<open>Statistics\<close>

definition series_mean :: "real list \<Rightarrow> real" where
  "series_mean xs = sum_list xs / real (length xs)"

text \<open>Population standard deviation: the mean square deviation divides by \<open>n\<close>.\<close>

definition series_stddev :: "real list \<Rightarrow> real" where
  "series_stddev xs = sqrt (sum_list (map (\<lambda>x. (x - series_mean xs)\<^sup>2) xs) / real (length xs))"

lemma stats_step_exact:
  assumes "exact_float F"
  shows "foldl (stats_step F) (t, a, b) xs = (t + sum_list xs, Min (insert a (set xs)), Max (insert b (set xs)))"
proof (induction xs arbitrary: t a b)
  case (Cons x xs)
  have "stats_step F (t, a, b) x = (t + x, min a x, max b x)"
    using assms by (simp add: stats_step_def exact_float_def min_def max_def)
  moreover have "Min (insert (min a x) (set xs)) = Min (insert a (insert x (set xs)))"
    by (cases "set xs = {}") (simp_all add: min.assoc)
  moreover have "Max (insert (max b x) (set xs)) = Max (insert b (insert x (set xs)))"
    by (cases "set xs = {}") (simp_all add: max.assoc)
  ultimately show ?case
    using Cons by simp
qed simp

lemma variance_step_exact:
  "exact_float F \<Longrightarrow> foldl (variance_step F m) v xs = v + sum_list (map (\<lambda>x. (x - m)\<^sup>2) xs)"
  by (induction xs arbitrary: v) (simp_all add: variance_step_def exact_float_def power2_eq_square Let_def)

lemma stats_of_exact:
  assumes F: "exact_float F" and "xs \<noteq> []"
  shows "stats_of F xs = (series_mean xs, Min (set xs), Max (set xs), series_stddev xs)"
proof -
  have "insert (hd xs) (set xs) = set xs"
    using assms(2) by (cases xs) auto
  moreover have "fdiv F = (/)" "fsqrt F = sqrt" "flit F = real_of_rat"
    using F by (simp_all add: exact_float_def)
  ultimately show ?thesis
    by (simp add: stats_of_def stats_step_exact [OF F] variance_step_exact [OF F] Let_def
        series_mean_def series_stddev_def of_rat_of_nat_eq)
qed

lemma stats_answer:
  assumes "Path q = ''/stats''"
  shows "answer_of F submit q s =
    (case series s (symbolParam (RawQuery q)) of
       None \<Rightarrow> ((404, notFound), s\<lparr>resp_counters := count_response 404 (resp_counters s)\<rparr>)
     | Some arr \<Rightarrow> ((200, stats_body F (symbolParam (RawQuery q)) (stats_of F arr)),
         s\<lparr>resp_counters := count_response 200 (resp_counters s)\<rparr>))"
proof (cases "series s (symbolParam (RawQuery q))")
  case None
  then have "dispatch_path F submit q (Std std_new, s) = writeJSON 404 notFound (Std std_new, s)"
    by (simp add: dispatch_path_def handleStats_def assms)
  from answer_of_writeJSON [OF this] None show ?thesis by simp
next
  case (Some arr)
  then have "dispatch_path F submit q (Std std_new, s) =
      writeJSON 200 (stats_body F (symbolParam (RawQuery q)) (stats_of F arr)) (Std std_new, s)"
    by (simp add: dispatch_path_def handleStats_def assms)
  from answer_of_writeJSON [OF this] Some show ?thesis by simp
qed

section \<open>Plain strings\<close>

text \<open>A plain string needs no escapes: its JSON form is the string in quotes. Member names are plain.\<close>

definition plain_name :: "string \<Rightarrow> bool" where
  "plain_name k \<longleftrightarrow> json_string k = quoted k \<and> unquote (escape k) = k"

lemma plain_nameD: "plain_name k \<Longrightarrow> json_key k = json_string k @ '':''"
  by (simp add: plain_name_def json_key_def quoted_def)

lemma unquote_all_plain:
  "\<forall>c \<in> set s. c \<noteq> CHR 0x5C \<and> ord_of c < 128 \<Longrightarrow> unquote s = s"
  by (induction s) (simp_all add: unquote_plain)

definition plain_char :: "char \<Rightarrow> bool" where
  "plain_char c \<longleftrightarrow> 32 \<le> ord_of c \<and> ord_of c < 128 \<and> c \<notin> set ([CHR 0x5C, CHR 0x22] @ ''<>&'')"

lemma escape_ascii_plain:
  assumes "plain_char c"
  shows "escape_ascii c = [c]"
proof -
  have "c \<noteq> d" if "ord_of d < 32" for d using assms that by (auto simp: plain_char_def)
  from this [of "CHR 0x08"] this [of "CHR 0x09"] this [of "CHR 0x0A"] this [of "CHR 0x0C"] this [of "CHR 0x0D"]
  show ?thesis using assms by (simp add: escape_ascii_def plain_char_def)
qed

lemma escape_plain: "list_all plain_char s \<Longrightarrow> escape s = s"
  by (induction s) (simp_all add: escape_ascii_plain, simp add: plain_char_def)

lemma plain_nameI:
  assumes "list_all plain_char k"
  shows "plain_name k"
proof -
  have "unquote k = k"
    using assms by (intro unquote_all_plain) (auto simp: plain_char_def list_all_iff)
  then show ?thesis
    using escape_plain [OF assms] by (simp add: plain_name_def json_string_def quoted_def)
qed

lemma plain_names [simp]:
  "plain_name ''status''" "plain_name ''ok''" "plain_name ''error''" "plain_name ''unknown symbol''"
  "plain_name ''symbol''" "plain_name ''price''" "plain_name ''mean''" "plain_name ''min''" "plain_name ''max''"
  "plain_name ''stddev''" "plain_name ''seed''" "plain_name ''risk_hash''"
  by (rule plain_nameI, code_simp)+


section \<open>Risk\<close>

text \<open>A digest is hexadecimal digits.\<close>

lemma hex_encode_chars: "set (str_of (hex_encode bs)) \<subseteq> set ''0123456789abcdef''"
proof
  fix c assume "c \<in> set (str_of (hex_encode bs))"
  then obtain b where "b \<in> set (hex_encode bs)" and c: "c = char_of (unat b)"
    unfolding str_of_def by auto
  then obtain n where "b = hex_digits ! n" "n < 16"
  proof -
    from \<open>b \<in> set (hex_encode bs)\<close> obtain x where "b \<in> set (hex_byte x)"
      by (auto simp: hex_encode_def)
    moreover have "unat x < 2 ^ LENGTH(8)" by (rule unsigned_less)
    then have "unat x div 16 < 16" "unat x mod 16 < 16" by auto
    ultimately show thesis
      using that by (auto simp: hex_byte_def hex_digit_def)
  qed
  then have "b \<in> set hex_digits" by simp
  with c have "c \<in> set (str_of hex_digits)" by (auto simp: str_of_def)
  then show "c \<in> set ''0123456789abcdef''" by (simp only: hex_digits_def str_of_bytes_of)
qed

lemma starter_loop_chars: "0 < n \<Longrightarrow> set (starter_loop n h) \<subseteq> set ''0123456789abcdef''"
proof (induction n arbitrary: h)
  case (Suc n)
  show ?case
  proof (cases n)
    case 0
    then show ?thesis using hex_encode_chars by simp
  next
    case (Suc m)
    show ?thesis
      unfolding starter_loop.simps(2) by (rule Suc.IH) (simp add: Suc)
  qed
qed simp

lemma naive_digest_plain: "list_all plain_char (naiveRiskChain seed)"
proof -
  have "list_all plain_char ''0123456789abcdef''" by code_simp
  moreover have "set (naiveRiskChain seed) \<subseteq> set ''0123456789abcdef''"
    unfolding naiveRiskChain_def by (rule starter_loop_chars) simp
  ultimately show ?thesis by (auto simp: list_all_iff)
qed

text \<open>The body parses to the object with the seed (as the encoder repairs it) and the digest.\<close>

lemma risk_body_text: "risk_body seed d = object_text [(''seed'', json_string seed), (''risk_hash'', quoted d)]"
  by (simp add: risk_body_def object_text_def plain_nameD)

lemma json_whole_risk_body:
  assumes "list_all plain_char d"
  shows "json_whole (risk_body seed d) =
    Some (JObj [(''seed'', JStr (unquote (escape seed))), (''risk_hash'', JStr d)])"
proof -
  have names: "unquote (escape ''seed'') = ''seed''" "unquote (escape ''risk_hash'') = ''risk_hash''"
    using plain_names unfolding plain_name_def by blast+
  have "quoted d = json_string d" "unquote (escape d) = d"
    using plain_nameI [OF assms] by (simp_all add: plain_name_def)
  then have "reads_as (quoted d) (JStr d)" using reads_as_string [of d] by simp
  then show ?thesis
    using json_whole_object [of "[(''seed'', json_string seed), (''risk_hash'', quoted d)]"
        "[(''seed'', JStr (unquote (escape seed))), (''risk_hash'', JStr d)]" "[]"]
    by (simp add: risk_body_text reads_as_string names del: escape.simps)
qed

lemma risk_answer:
  assumes "Path q = ''/risk''" "submit (risk_seed q) s = (res, t)"
  shows "answer_of F submit q s =
    (case res of
       None \<Rightarrow> ((503, overloadedBody), t)
     | Some d \<Rightarrow> ((200, risk_body (risk_seed q) d),
         t\<lparr>resp_counters := count_response 200 (resp_counters t)\<rparr>))"
proof (cases res)
  case None
  then show ?thesis
    using assms by (simp add: answer_of_def dispatch_path_def handleRisk_def risk_reply_def writeUncounted_def
        writeJSONUncounted_def std_Write_def std_WriteHeader_def std_new_def Let_def)
next
  case (Some d)
  then have "dispatch_path F submit q (Std std_new, s) =
      writeJSON 200 (risk_body (risk_seed q) d) (Std std_new, t)"
    using assms by (simp add: dispatch_path_def handleRisk_def risk_reply_def)
  from answer_of_writeJSON [OF this] Some show ?thesis by simp
qed

section \<open>A symbol with a quote\<close>

text \<open>\<open>buildPriceResp\<close> does not escape: a symbol that is one quote, which \<open>POST /price\<close> accepts and the log
  restores, makes a response that is not JSON.\<close>

lemma buildPriceResp_not_json: "json_whole (buildPriceResp F [CHR 0x22] p) = None"
proof -
  have "buildPriceResp F [CHR 0x22] p =
      (CHR ''{'' # json_key ''symbol'') @ [CHR 0x22, CHR 0x22, CHR 0x22] @
        CHR '','' # json_key ''price'' @ g_text F p @ ''}''"
    by (simp add: buildPriceResp_def)
  moreover have "jrun (MValue, []) (CHR ''{'' # json_key ''symbol'') = (MValue, [FObj [] (Some ''symbol'')])"
    by (simp add: begin_value_def push_def is_json_space_def maxNestingDepth_def key_runs)
  moreover have "jrun (MValue, [FObj [] (Some ''symbol'')]) [CHR 0x22, CHR 0x22, CHR 0x22] =
      (MFail, [FObj [(''symbol'', JStr [])] None])"
    by (simp add: begin_value_def is_json_space_def finish_string_def finish_def step_end_def after_value_def)
  ultimately show ?thesis
    by (simp only: json_whole_def jrun_simps(3) jrun_fail jvalue_fail)
qed

end
