(* ===== verification/Starter.thy ===== *)
theory Starter
  imports Endpoints
begin

text \<open>
  The Go starter (\<open>src/starters/go/main.go\<close>), the contract the backend must keep: its tables, its price and
  statistics handlers as values (its bodies go through \<open>encoding/json\<close> with sorted keys, so only status
  and values are compared). Its \<open>/risk\<close> loop is in the theory \<open>Chain\<close>.
\<close>

definition starter_prices :: "'f float64 \<Rightarrow> string \<rightharpoonup> 'f" where
  "starter_prices F symb =
     map_option (flit F) (map_of
       [(''AAPL'', 18742 / 100), (''GOOG'', 14180 / 100), (''MSFT'', 41230 / 100), (''AMZN'', 17810 / 100),
        (''NVDA'', 12015 / 100), (''META'', 50260 / 100), (''TSLA'', 24470 / 100), (''JPM'', 19835 / 100)] symb)"

definition starter_series :: "'f float64 \<Rightarrow> string \<rightharpoonup> 'f list" where
  "starter_series F symb =
     map_option (\<lambda>base. map (\<lambda>i. fmul F base (fadd F (flit F 1) (fdiv F (fsin F (flit F (of_nat i))) (flit F 50))))
       [0..<500]) (starter_prices F symb)"

text \<open>\<open>None\<close> is the 404.\<close>

definition starter_price :: "'f float64 \<Rightarrow> string \<Rightarrow> (string \<times> 'f) option" where
  "starter_price F query =
     (let s = query_get query ''symbol'' in map_option (\<lambda>p. (s, p)) (starter_prices F s))"

definition starter_stats :: "'f float64 \<Rightarrow> string \<Rightarrow> (string \<times> 'f \<times> 'f \<times> 'f \<times> 'f) option" where
  "starter_stats F query =
     (let s = query_get query ''symbol'' in
      case starter_series F s of
        None \<Rightarrow> None
      | Some arr \<Rightarrow>
          let n = flit F (of_nat (length arr));
              (total, mn, mx) =
                foldl (\<lambda>(total, mn, mx) v.
                    (fadd F total v, if fless F v mn then v else mn, if fless F mx v then v else mx))
                  (flit F 0, hd arr, hd arr) arr;
              mean = fdiv F total n;
              varr = foldl (\<lambda>varr v. fadd F varr (fmul F (fsub F v mean) (fsub F v mean))) (flit F 0) arr
          in Some (s, mean, mn, mx, fsqrt F (fdiv F varr n)))"

section \<open>The tables agree\<close>

lemma init_symbol_tables:
  "prices (init_symbol F e s) = (prices s)(fst e \<mapsto> flit F (snd e))"
  "series (init_symbol F e s) =
     (series s)(fst e \<mapsto> map (series_point F (flit F (snd e))) [0..<500])"
  by (simp_all add: init_symbol_def set_price_def Let_def)

lemma init_tables_fold:
  "distinct (map fst es) \<Longrightarrow>
     prices (fold (init_symbol F) es s) symb =
       (case map_of es symb of Some q \<Rightarrow> Some (flit F q) | None \<Rightarrow> prices s symb) \<and>
     series (fold (init_symbol F) es s) symb =
       (case map_of es symb of
          Some q \<Rightarrow> Some (map (series_point F (flit F q)) [0..<500])
        | None \<Rightarrow> series s symb)"
proof (induction es arbitrary: s)
  case (Cons e es)
  have "map_of es (fst e) = None"
    using Cons.prems by (simp add: map_of_eq_None_iff)
  with Cons.IH [of "init_symbol F e s"] Cons.prems show ?case
    by (cases "symb = fst e"; cases e) (simp_all add: init_symbol_tables split: option.splits)
qed simp

lemma init_app_tables:
  "prices (init_app F) symb = starter_prices F symb" "series (init_app F) symb = starter_series F symb"
proof -
  have "distinct (map fst basePrices)" by (simp add: basePrices_def)
  note t = init_tables_fold [OF this]
  show "prices (init_app F) symb = starter_prices F symb"
    unfolding init_app_def t [THEN conjunct1] starter_prices_def basePrices_def [symmetric]
    by (simp split: option.split)
  show "series (init_app F) symb = starter_series F symb"
    unfolding init_app_def t [THEN conjunct2] starter_series_def starter_prices_def basePrices_def [symmetric]
    by (simp add: series_point_def [abs_def] split: option.split)
qed

lemma starter_stats_of:
  "starter_stats F query =
     map_option (\<lambda>arr. (query_get query ''symbol'', stats_of F arr)) (starter_series F (query_get query ''symbol''))"
  by (auto simp: starter_stats_def stats_of_def Let_def stats_step_def [abs_def] variance_step_def [abs_def]
      case_prod_unfold split: option.splits)

end
