(* ===== verification/Contract.thy ===== *)
theory Contract
  imports Starter "HOL-Library.Multiset" "HOL-Library.List_Lexorder" "HOL-Library.Char_ord"
begin

text \<open>
  The Go starter as a server (\<open>src/starters/go/main.go\<close>): its \<open>writeJSON\<close> with the map encoder of
  \<open>encoding/json\<close> (sorted keys, a line feed at the end, nothing at all when a number is not finite), its four
  handlers, and the agreement of the backend's answers with the starter's, as a client that looks members up
  by name sees them.
\<close>

section \<open>The starter's responses\<close>

text \<open>A value of a \<open>map[string]interface{}\<close> the starter encodes.\<close>

type_synonym 'f starter_map = "(string \<times> (string + 'f)) list"

definition encode_leaf :: "'f float64 \<Rightarrow> string + 'f \<Rightarrow> string option" where
  "encode_leaf F v =
     (case v of Inl s \<Rightarrow> Some (json_string s) | Inr x \<Rightarrow> if ffinite F x then Some (json_text F x) else None)"

definition encode_map :: "'f float64 \<Rightarrow> 'f starter_map \<Rightarrow> string option" where
  "encode_map F m =
     (let es = map (\<lambda>(k, v). (k, encode_leaf F v)) (sort_key fst m) in
      if None \<in> snd ` set es then None else Some (object_text (map (\<lambda>(k, t). (k, the t)) es)))"

definition starter_writeJSON :: "'f float64 \<Rightarrow> int \<Rightarrow> 'f starter_map \<Rightarrow> stdResponse \<Rightarrow> stdResponse" where
  "starter_writeJSON F code m w =
     (let w = w\<lparr>std_header := (std_header w)(''Content-Type'' \<mapsto> ''application/json'')\<rparr>;
          w = std_WriteHeader code w
      in case encode_map F m of None \<Rightarrow> w | Some b \<Rightarrow> std_Write (b @ [CHR 0x0A]) w)"

definition starter_unknown :: "'f starter_map" where
  "starter_unknown = [(''error'', Inl ''unknown symbol'')]"

definition starter_health :: "'f float64 \<Rightarrow> stdResponse \<Rightarrow> stdResponse" where
  "starter_health F w = starter_writeJSON F 200 [(''status'', Inl ''ok'')] w"

definition starter_handlePrice :: "'f float64 \<Rightarrow> string \<Rightarrow> stdResponse \<Rightarrow> stdResponse" where
  "starter_handlePrice F query w =
     (case starter_price F query of
        None \<Rightarrow> starter_writeJSON F 404 starter_unknown w
      | Some (s, p) \<Rightarrow> starter_writeJSON F 200 [(''symbol'', Inl s), (''price'', Inr p)] w)"

definition starter_handleStats :: "'f float64 \<Rightarrow> string \<Rightarrow> stdResponse \<Rightarrow> stdResponse" where
  "starter_handleStats F query w =
     (case starter_stats F query of
        None \<Rightarrow> starter_writeJSON F 404 starter_unknown w
      | Some (s, mean, mn, mx, dev) \<Rightarrow>
          starter_writeJSON F 200
            [(''symbol'', Inl s), (''mean'', Inr mean), (''min'', Inr mn), (''max'', Inr mx), (''stddev'', Inr dev)] w)"

definition starter_handleRisk :: "'f float64 \<Rightarrow> string \<Rightarrow> stdResponse \<Rightarrow> stdResponse" where
  "starter_handleRisk F query w =
     (let seed = query_get query ''seed''; seed = (if seed = '''' then ''none'' else seed);
          h = starter_loop 50000 seed
      in starter_writeJSON F 200 [(''seed'', Inl seed), (''risk_hash'', Inl h)] w)"

text \<open>The routes; other paths are answered by the library's multiplexer (\<open>None\<close>).\<close>

definition starter_serve :: "'f float64 \<Rightarrow> request \<Rightarrow> stdResponse option" where
  "starter_serve F r =
     (if Path r = ''/health'' then Some (starter_health F std_new)
      else if Path r = ''/price'' then Some (starter_handlePrice F (RawQuery r) std_new)
      else if Path r = ''/stats'' then Some (starter_handleStats F (RawQuery r) std_new)
      else if Path r = ''/risk'' then Some (starter_handleRisk F (RawQuery r) std_new)
      else None)"

section \<open>The same object from both\<close>

text \<open>What a client reads for an encoded value: a string comes back with invalid bytes replaced.\<close>

definition seen :: "string + 'f \<Rightarrow> string + 'f" where
  "seen v = (case v of Inl s \<Rightarrow> Inl (unquote (escape s)) | Inr x \<Rightarrow> Inr x)"

definition encodable :: "'f float64 \<Rightarrow> 'f starter_map \<Rightarrow> bool" where
  "encodable F m \<longleftrightarrow> m \<noteq> [] \<and> distinct (map fst m) \<and>
     (\<forall>(k, v) \<in> set m. plain_name k \<and> (case v of Inl s \<Rightarrow> True | Inr x \<Rightarrow> ffinite F x))"

lemma encode_leaf_text:
  assumes "float_contract F" "case v of Inl s \<Rightarrow> True | Inr x \<Rightarrow> ffinite F x"
  shows "\<exists>t. encode_leaf F v = Some t \<and> text_of F t (seen v)"
  using assms(2) contractD [OF assms(1)]
  by (cases v) (auto simp: encode_leaf_def seen_def text_of_string intro: text_of_number)

lemma encode_map_object:
  assumes F: "float_contract F" and m: "encodable F m"
  shows "\<exists>b. encode_map F m = Some b \<and> json_object F (b @ [CHR 0x0A]) = Some (map_of (map (apsnd seen) m))"
proof -
  let ?s = "sort_key fst m"
  let ?es = "map (\<lambda>(k, v). (k, the (encode_leaf F v))) ?s"
  have leaf: "\<exists>t. encode_leaf F v = Some t \<and> text_of F t (seen v)" "unquote (escape k) = k"
    if "(k, v) \<in> set m" for k v
  proof -
    have "plain_name k \<and> (case v of Inl s \<Rightarrow> True | Inr x \<Rightarrow> ffinite F x)"
      using m that unfolding encodable_def by blast
    then show "\<exists>t. encode_leaf F v = Some t \<and> text_of F t (seen v)" "unquote (escape k) = k"
      using encode_leaf_text [OF F] by (auto simp: plain_name_def)
  qed
  have "None \<notin> snd ` set (map (\<lambda>(k, v). (k, encode_leaf F v)) ?s)"
    using leaf(1) by fastforce
  then have enc: "encode_map F m = Some (object_text ?es)"
    by (simp add: encode_map_def Let_def case_prod_unfold comp_def)
  have "list_all2 (\<lambda>(k, t) (k', x). k' = unquote (escape k) \<and> text_of F t x) ?es (map (apsnd seen) ?s)"
    unfolding list_all2_map1 list_all2_map2
  proof (rule list.rel_refl_strong)
    fix e assume "e \<in> set ?s"
    then have "e \<in> set m" by simp
    then obtain k v where e: "e = (k, v)" "(k, v) \<in> set m" by (metis surj_pair)
    with leaf show "(case (case e of (k, v) \<Rightarrow> (k, the (encode_leaf F v))) of (k, t) \<Rightarrow>
        \<lambda>(k', x). k' = unquote (escape k) \<and> text_of F t x) (apsnd seen e)"
      by fastforce
  qed
  moreover have "?es \<noteq> []"
  proof -
    have "length ?es = length m" by (simp only: length_map length_sort)
    moreover have "0 < length m" using m by (simp add: encodable_def)
    ultimately show ?thesis by (metis length_greater_0_conv)
  qed
  moreover have d: "distinct (map fst (map (apsnd seen) ?s))" "distinct (map fst (map (apsnd seen) m))"
  proof -
    have "mset (map fst ?s) = mset (map fst m)" by (simp only: mset_map mset_sort)
    then show "distinct (map fst (map (apsnd seen) ?s))" "distinct (map fst (map (apsnd seen) m))"
      using m mset_eq_imp_distinct_iff [of "map fst ?s" "map fst m"] by (simp_all add: encodable_def comp_def)
  qed
  ultimately have "json_object F (object_text ?es @ [CHR 0x0A]) = Some (map_of (map (apsnd seen) ?s))"
    by (intro json_object_text) simp_all
  moreover have "map_of (map (apsnd seen) ?s) = map_of (map (apsnd seen) m)"
    using map_of_inject_set [OF d] by simp
  ultimately show ?thesis using enc by simp
qed

lemma starter_writeJSON_object:
  assumes "float_contract F" "encodable F m"
  shows "std_code (starter_writeJSON F code m std_new) = Some code \<and>
    json_object F (std_body (starter_writeJSON F code m std_new)) = Some (map_of (map (apsnd seen) m))"
proof -
  obtain b where "encode_map F m = Some b"
      "json_object F (b @ [CHR 0x0A]) = Some (map_of (map (apsnd seen) m))"
    using encode_map_object [OF assms] by blast
  then show ?thesis
    by (simp add: starter_writeJSON_def std_WriteHeader_def std_Write_def std_new_def Let_def)
qed

text \<open>A body a handler writes by hand.\<close>

lemma object_text_seen:
  assumes "encodable F m" "map fst ts = map fst m"
    and "\<And>k t v. ((k, t), (k, v)) \<in> set (zip ts m) \<Longrightarrow> text_of F t (seen v)"
  shows "json_object F (object_text ts) = Some (map_of (map (apsnd seen) m))"
proof -
  have len: "length ts = length m" using arg_cong [OF assms(2), of length] by simp
  have "list_all2 (\<lambda>(k, t) (k', x). k' = unquote (escape k) \<and> text_of F t x) ts (map (apsnd seen) m)"
    unfolding list_all2_conv_all_nth
  proof (intro conjI allI impI)
    fix i assume i: "i < length ts"
    obtain k t where t: "ts ! i = (k, t)" by (cases "ts ! i")
    obtain k' v where v: "m ! i = (k', v)" by (cases "m ! i")
    have "k' = k" using arg_cong [OF assms(2), of "\<lambda>l. l ! i"] i len t v by simp
    moreover have "((k, t), (k, v)) \<in> set (zip ts m)"
      using i len t v \<open>k' = k\<close> by (auto simp: set_zip intro!: exI [of _ i])
    moreover have "unquote (escape k) = k"
      using assms(1) nth_mem [of i m] i len v \<open>k' = k\<close> by (auto simp: encodable_def plain_name_def)
    ultimately show "(case ts ! i of (k, t) \<Rightarrow> \<lambda>(k', x). k' = unquote (escape k) \<and> text_of F t x) (map (apsnd seen) m ! i)"
      using assms(3) i len t v by simp
  qed (simp add: len)
  moreover have "ts \<noteq> []" "distinct (map fst m)"
    using assms(1) len by (auto simp: encodable_def)
  ultimately show ?thesis
    using json_object_text [of F ts "map (apsnd seen) m" "[]"] by (simp add: comp_def)
qed


section \<open>The backend's bodies as object texts\<close>

lemma text_of_quoted: "plain_name s \<Longrightarrow> text_of F (quoted s) (seen (Inl s))"
  using text_of_string [of F s] by (simp add: plain_name_def seen_def)

lemma text_of_json_string: "text_of F (json_string s) (seen (Inl s))"
  by (simp add: text_of_string seen_def)

lemma text_of_g_text: "float_contract F \<Longrightarrow> ffinite F x \<Longrightarrow> text_of F (g_text F x) (seen (Inr x))"
  using contractD [of F x] by (simp add: seen_def text_of_number)

lemmas texts_of = text_of_quoted text_of_json_string text_of_g_text

lemma body_texts:
  "healthBody = object_text [(''status'', quoted ''ok'')]"
  "error_body msg = object_text [(''error'', quoted msg)]"
  "buildPriceResp F s p = object_text [(''symbol'', quoted s), (''price'', g_text F p)]"
  "stats_body F s (mean, mn, mx, dev) =
     object_text [(''symbol'', quoted s), (''mean'', g_text F mean), (''min'', g_text F mn),
       (''max'', g_text F mx), (''stddev'', g_text F dev)]"
  "risk_body seed d = object_text [(''seed'', json_string seed), (''risk_hash'', quoted d)]"
  by (simp_all add: healthBody_def error_body_def buildPriceResp_def stats_body_def risk_body_text object_text_def
      plain_nameD quoted_def)

section \<open>The backend's answers\<close>

lemma price_answer:
  assumes "Path q = ''/price''" "Method q \<noteq> ''POST''"
  shows "fst (answer_of F submit q s) =
    (case priceResp s (symbolParam (RawQuery q)) of None \<Rightarrow> (404, notFound) | Some b \<Rightarrow> (200, b))"
proof (cases "priceResp s (symbolParam (RawQuery q))")
  case None
  then have "dispatch_path F submit q (Std std_new, s) = writeJSON 404 notFound (Std std_new, s)"
    by (simp add: dispatch_path_def handlePrice_def assms)
  from answer_of_writeJSON [OF this] None show ?thesis by simp
next
  case (Some b)
  then have "dispatch_path F submit q (Std std_new, s) = writeJSON 200 b (Std std_new, s)"
    by (simp add: dispatch_path_def handlePrice_def assms)
  from answer_of_writeJSON [OF this] Some show ?thesis by simp
qed

lemma health_answer:
  assumes "Path q = ''/health''"
  shows "fst (answer_of F submit q s) = (200, healthBody)"
proof -
  have "dispatch_path F submit q (Std std_new, s) = writeJSON 200 healthBody (Std std_new, s)"
    by (simp add: dispatch_path_def assms)
  from answer_of_writeJSON [OF this] show ?thesis by simp
qed

section \<open>Agreement, endpoint by endpoint\<close>

text \<open>A response of the backend agrees with one of the starter: the same status, and bodies that are
  JSON objects with the same members.\<close>

definition agrees :: "'f float64 \<Rightarrow> int \<times> string \<Rightarrow> stdResponse \<Rightarrow> bool" where
  "agrees F resp w \<longleftrightarrow>
     std_code w = Some (fst resp) \<and> json_object F (snd resp) \<noteq> None \<and>
     json_object F (std_body w) = json_object F (snd resp)"

lemma agrees_object:
  assumes "float_contract F" "encodable F m" "map fst ts = map fst m"
    and "\<And>k t v. ((k, t), (k, v)) \<in> set (zip ts m) \<Longrightarrow> text_of F t (seen v)"
  shows "agrees F (code, object_text ts) (starter_writeJSON F code m std_new)"
  using starter_writeJSON_object [OF assms(1,2), of code] object_text_seen [OF assms(2-4)]
  by (simp add: agrees_def)

lemma agrees_unknown:
  "float_contract F \<Longrightarrow> agrees F (404, notFound) (starter_writeJSON F 404 starter_unknown std_new)"
  unfolding notFound_def body_texts starter_unknown_def
  by (rule agrees_object) (auto simp: encodable_def intro: texts_of)

lemma agrees_health: "float_contract F \<Longrightarrow> agrees F (200, healthBody) (starter_health F std_new)"
  unfolding body_texts starter_health_def
  by (rule agrees_object) (auto simp: encodable_def intro: texts_of)

lemma known_symbol: "starter_prices F s = Some p \<Longrightarrow> plain_name s"
proof -
  assume "starter_prices F s = Some p"
  then have "s \<in> {''AAPL'', ''GOOG'', ''MSFT'', ''AMZN'', ''NVDA'', ''META'', ''TSLA'', ''JPM''}"
    by (auto simp: starter_prices_def split: if_splits)
  moreover have "list_all (list_all plain_char)
      [''AAPL'', ''GOOG'', ''MSFT'', ''AMZN'', ''NVDA'', ''META'', ''TSLA'', ''JPM'']"
    by code_simp
  ultimately show ?thesis by (auto intro: plain_nameI)
qed

lemma agrees_price:
  assumes F: "float_contract F" and plain: "CHR '';'' \<notin> set query"
  shows "agrees F
    (case map_option (buildPriceResp F (symbolParam query)) (starter_prices F (symbolParam query)) of
       None \<Rightarrow> (404, notFound) | Some b \<Rightarrow> (200, b))
    (starter_handlePrice F query std_new)"
proof -
  note get = symbolParam_query [OF plain]
  show ?thesis
  proof (cases "starter_prices F (symbolParam query)")
    case None
    then show ?thesis
      using agrees_unknown [OF F] by (simp add: starter_handlePrice_def starter_price_def get Let_def)
  next
    case (Some p)
    have "ffinite F p"
      using F Some by (auto simp: starter_prices_def float_contract_def split: option.splits)
    then have "agrees F (200, buildPriceResp F (symbolParam query) p)
        (starter_writeJSON F 200 [(''symbol'', Inl (symbolParam query)), (''price'', Inr p)] std_new)"
      unfolding body_texts by (intro agrees_object [OF F])
        (auto simp: encodable_def intro: texts_of known_symbol [OF Some] F)
    with Some show ?thesis by (simp add: starter_handlePrice_def starter_price_def get Let_def)
  qed
qed

text \<open>The numbers of a series are finite; else the starter sends no body and the backend one that is not JSON.\<close>

definition stats_finite :: "'f float64 \<Rightarrow> 'f list \<Rightarrow> bool" where
  "stats_finite F xs \<longleftrightarrow>
     (let (mean, mn, mx, dev) = stats_of F xs in ffinite F mean \<and> ffinite F mn \<and> ffinite F mx \<and> ffinite F dev)"

lemma agrees_stats:
  assumes F: "float_contract F" and plain: "CHR '';'' \<notin> set query"
    and fin: "\<forall>s xs. starter_series F s = Some xs \<longrightarrow> stats_finite F xs"
  shows "agrees F
    (case starter_series F (symbolParam query) of
       None \<Rightarrow> (404, notFound) | Some xs \<Rightarrow> (200, stats_body F (symbolParam query) (stats_of F xs)))
    (starter_handleStats F query std_new)"
proof -
  note get = symbolParam_query [OF plain]
  show ?thesis
  proof (cases "starter_series F (symbolParam query)")
    case None
    then show ?thesis
      using agrees_unknown [OF F] by (simp add: starter_handleStats_def starter_stats_of get)
  next
    case (Some xs)
    obtain mean mn mx dev where st: "stats_of F xs = (mean, mn, mx, dev)" by (metis surj_pair)
    have name: "plain_name (symbolParam query)"
      using Some known_symbol by (auto simp: starter_series_def)
    have "ffinite F mean \<and> ffinite F mn \<and> ffinite F mx \<and> ffinite F dev"
      using fin [rule_format, OF Some] st by (simp add: stats_finite_def)
    then have "agrees F (200, stats_body F (symbolParam query) (mean, mn, mx, dev))
        (starter_writeJSON F 200 [(''symbol'', Inl (symbolParam query)), (''mean'', Inr mean), (''min'', Inr mn),
          (''max'', Inr mx), (''stddev'', Inr dev)] std_new)"
      unfolding body_texts by (intro agrees_object [OF F]) (auto simp: encodable_def intro: texts_of name F)
    with Some show ?thesis by (simp add: starter_handleStats_def starter_stats_of get st)
  qed
qed

lemmas naive_digest_name = plain_nameI [OF naive_digest_plain]

lemma agrees_risk:
  assumes F: "float_contract F"
  shows "agrees F (200, risk_body (risk_seed q) (naiveRiskChain (risk_seed q)))
    (starter_handleRisk F (RawQuery q) std_new)"
proof -
  have "starter_handleRisk F (RawQuery q) std_new =
      starter_writeJSON F 200 [(''seed'', Inl (risk_seed q)), (''risk_hash'', Inl (naiveRiskChain (risk_seed q)))] std_new"
    by (simp add: starter_handleRisk_def risk_seed_def naiveRiskChain_def Let_def)
  then show ?thesis
    unfolding body_texts
    by (simp, intro agrees_object [OF F]) (auto simp: encodable_def
        intro: text_of_json_string text_of_quoted [OF naive_digest_name])
qed

text \<open>The two servers on one request: the backend with boot's tables and an admitted \<open>/risk\<close>, the starter.\<close>

lemma agrees_request:
  assumes F: "float_contract F" and path: "Path q \<in> {''/health'', ''/price'', ''/stats'', ''/risk''}"
    and get: "Path q = ''/price'' \<longrightarrow> Method q \<noteq> ''POST'' \<and> priceResp s = priceResp (init_app F)"
    and plain: "CHR '';'' \<notin> set (RawQuery q)" and tables: "series s = series (init_app F)"
    and risk: "Path q = ''/risk'' \<longrightarrow> submit (risk_seed q) s = (Some (naiveRiskChain (risk_seed q)), t)"
    and fin: "\<forall>symb xs. starter_series F symb = Some xs \<longrightarrow> stats_finite F xs"
  shows "\<exists>w. starter_serve F q = Some w \<and> agrees F (fst (answer_of F submit q s)) w"
proof -
  have resp: "priceResp (init_app F) symb = map_option (buildPriceResp F symb) (starter_prices F symb)" for symb
    using store_ok_init [OF F] by (simp add: store_ok_def init_app_tables(1))
  from path consider "Path q = ''/health''" | "Path q = ''/price''" | "Path q = ''/stats''" | "Path q = ''/risk''"
    by blast
  then show ?thesis
  proof cases
    case 1
    then show ?thesis by (simp add: starter_serve_def health_answer agrees_health [OF F])
  next
    case 2
    with get agrees_price [OF F plain] show ?thesis
      by (simp add: starter_serve_def price_answer resp)
  next
    case 3
    have "fst (answer_of F submit q s) =
        (case starter_series F (symbolParam (RawQuery q)) of
           None \<Rightarrow> (404, notFound)
         | Some xs \<Rightarrow> (200, stats_body F (symbolParam (RawQuery q)) (stats_of F xs)))"
      using tables by (simp add: stats_answer [OF 3] init_app_tables(2) split: option.split)
    with 3 agrees_stats [OF F plain fin] show ?thesis by (simp add: starter_serve_def)
  next
    case 4
    then show ?thesis
      using agrees_risk [OF F, of q] risk_answer [of q submit s, OF 4] risk 4 by (simp add: starter_serve_def)
  qed
qed

section \<open>The numbers of \<open>/stats\<close>\<close>

text \<open>\<open>/stats\<close> answers what the starter answers: on every query without a semicolon the same status, and
  for a known symbol the same four numbers, computed by the same operations of whatever floating-point arithmetic,
  in the same order. On exact arithmetic the numbers are the mean, the minimum, the maximum and the
  population standard deviation of the series.\<close>

theorem stats_are_the_starters:
  fixes F :: "'f float64" and R :: "real float64"
  assumes "Path q = ''/stats''" "CHR '';'' \<notin> set (RawQuery q)" "series s = series (init_app F)"
    and "exact_float R" "xs \<noteq> []"
  shows "fst (answer_of F submit q s) =
      (case starter_stats F (RawQuery q) of
         None \<Rightarrow> (404, notFound)
       | Some (symb, st) \<Rightarrow> (200, stats_body F symb st)) \<and>
    stats_of R xs = (series_mean xs, Min (set xs), Max (set xs), series_stddev xs)"
proof -
  have "symbolParam (RawQuery q) = query_get (RawQuery q) ''symbol''"
    using assms(2) by (rule symbolParam_query)
  then show ?thesis
    using stats_of_exact [OF assms(4,5)]
    by (simp add: stats_answer [OF assms(1)] assms(3) init_app_tables(2) starter_stats_of split: option.split)
qed

end
