(* ===== verification/Kernel_Boot.thy ===== *)
theory Kernel_Boot
  imports Chain Go_Strings
begin

text \<open>
  The fixed-shape SHA-256 kernels of \<open>app/shakernel_amd64.go\<close> and the boot code that installs them.
  The assembly routines are the parameters of the model (\<open>asm_routines\<close>): what \<open>initRiskKernel\<close>
  promises is stated first with nothing assumed of them (a routine that errs on a sampled case is
  never installed), then under the contract their headers declare (\<open>asm_ok\<close>: each routine computes
  the compression function or the chain step), under which the booted kernels satisfy the
  interfaces of theory \<open>Chain\<close>. The random source of the self-tests and the environment are
  parameters too.
\<close>

section \<open>Parameters: assembly, environment, randomness\<close>

record asm_routines =
  blockAVX2 :: "u32 list \<Rightarrow> bytes \<Rightarrow> u32 list"
  blockSHANI :: "u32 list \<Rightarrow> bytes \<Rightarrow> u32 list"
  blockSHANI2 :: "u32 list \<Rightarrow> u32 list \<Rightarrow> bytes \<Rightarrow> bytes \<Rightarrow> u32 list \<times> u32 list"
  pairHashHex :: "bytes \<times> bytes \<Rightarrow> bytes \<times> bytes"
  hashHex1 :: "bytes \<Rightarrow> bytes"
  pairHashHexN :: "bytes \<times> bytes \<Rightarrow> nat \<Rightarrow> bytes \<times> bytes"
  hashHex1N :: "bytes \<Rightarrow> nat \<Rightarrow> bytes"
  riskChain4x :: "bytes \<times> bytes \<times> bytes \<times> bytes \<Rightarrow> nat \<Rightarrow> bytes \<times> bytes \<times> bytes \<times> bytes"
  sha256X16Avx512 :: "bytes \<Rightarrow> bytes \<Rightarrow> u64 list \<Rightarrow> u64 list \<Rightarrow> bytes list \<Rightarrow> bytes \<times> bytes"

record boot_env =
  env_KERNEL :: string  \<comment> \<open>\<open>RISK_KERNEL\<close>\<close>
  env_KERNEL_V3 :: string  \<comment> \<open>\<open>RISK_KERNEL_V3\<close>\<close>
  env_X4 :: string  \<comment> \<open>\<open>RISK_X4\<close>\<close>
  env_X16 :: string  \<comment> \<open>\<open>RISK_X16\<close>\<close>
  cpuinfo :: "string option"  \<comment> \<open>the contents of \<open>/proc/cpuinfo\<close>, \<open>None\<close> if unreadable\<close>

text \<open>\<open>rand.New(rand.NewSource(seed))\<close> and \<open>rnd.Read\<close> into a 64-byte array.\<close>

record 'g rng =
  newSource :: "nat \<Rightarrow> 'g"
  read64 :: "'g \<Rightarrow> bytes \<times> 'g"

section \<open>The direct two-block kernels\<close>

definition shaIV :: "u32 list" where
  "shaIV = [0x6a09e667, 0xbb67ae85, 0x3c6ef372, 0xa54ff53a,
            0x510e527f, 0x9b05688c, 0x1f83d9ab, 0x5be0cd19]"

definition shaPad64 :: bytes where
  "shaPad64 = (replicate 64 0)[0 := 0x80, 62 := 0x02]"

text \<open>The big-endian store of the eight digest words, four bytes at a time.\<close>

definition digest_bytes :: "u32 list \<Rightarrow> bytes" where
  "digest_bytes h =
     concat (map (\<lambda>v. [ucast (drop_bit 24 v), ucast (drop_bit 16 v), ucast (drop_bit 8 v), ucast v]) h)"

definition kernelSum64 :: "asm_routines \<Rightarrow> bool \<Rightarrow> bytes \<Rightarrow> bytes" where
  "kernelSum64 asm useSHANI inp =
     (let d = shaIV;
          d = (if useSHANI then blockSHANI asm (blockSHANI asm d inp) shaPad64
               else blockAVX2 asm (blockAVX2 asm d inp) shaPad64)
      in digest_bytes d)"

definition kernelSum64Pair :: "asm_routines \<Rightarrow> bytes \<Rightarrow> bytes \<Rightarrow> bytes \<times> bytes" where
  "kernelSum64Pair asm inA inB =
     (let (da, db) = blockSHANI2 asm shaIV shaIV inA inB;
          (da, db) = blockSHANI2 asm da db shaPad64 shaPad64
      in (digest_bytes da, digest_bytes db))"

section \<open>Feature detection\<close>

definition flags_of_line :: "string \<Rightarrow> string option" where
  "flags_of_line line =
     (if has_prefix line ''flags''
      then case index_byte line (CHR '':'') of
             Some i \<Rightarrow> Some ('' '' @ trim_space (drop (i + 1) line) @ '' '')
           | None \<Rightarrow> None
      else None)"

fun first_flags :: "string list \<Rightarrow> string" where
  "first_flags [] = ''''"
| "first_flags (l # ls) =
     (case flags_of_line l of Some f \<Rightarrow> f | None \<Rightarrow> first_flags ls)"

definition cpuinfoFlags :: "string option \<Rightarrow> string" where
  "cpuinfoFlags file =
     (case file of None \<Rightarrow> '''' | Some b \<Rightarrow> first_flags (split_byte (CHR 0x0A) b))"

definition has_flag :: "string \<Rightarrow> string \<Rightarrow> bool" where
  "has_flag flags f = contains flags ('' '' @ f @ '' '')"

definition shani_gate :: "boot_env \<Rightarrow> bool" where
  "shani_gate env =
     (let has = has_flag (cpuinfoFlags (cpuinfo env))
      in has ''sha_ni'' \<and> has ''avx'' \<and> has ''sse4_1'' \<and> has ''ssse3'' \<and>
         env_KERNEL env \<noteq> ''avx512'')"

definition avx2_gate :: "boot_env \<Rightarrow> bool" where
  "avx2_gate env =
     (let has = has_flag (cpuinfoFlags (cpuinfo env))
      in \<not> shani_gate env \<and> has ''avx'' \<and> has ''avx2'' \<and> has ''bmi2'')"

section \<open>Self-tests\<close>

text \<open>\<open>n\<close> cases drawn one after the other; the first failing case stops the test. The state of the
  random source is handed on, as the program's tests share one source.\<close>

fun selftest :: "('g \<Rightarrow> 'x \<times> 'g) \<Rightarrow> ('x \<Rightarrow> bool) \<Rightarrow> nat \<Rightarrow> 'g \<Rightarrow> bool \<times> 'g" where
  "selftest draw ok 0 g = (True, g)"
| "selftest draw ok (Suc n) g =
     (let (x, g') = draw g in if ok x then selftest draw ok n g' else (False, g'))"

fun draws :: "('g \<Rightarrow> 'x \<times> 'g) \<Rightarrow> nat \<Rightarrow> 'g \<Rightarrow> 'x list" where
  "draws draw 0 g = []"
| "draws draw (Suc n) g = (let (x, g') = draw g in x # draws draw n g')"

definition draw2 :: "('g \<Rightarrow> 'x \<times> 'g) \<Rightarrow> 'g \<Rightarrow> ('x \<times> 'x) \<times> 'g" where
  "draw2 draw g = (let (a, g) = draw g; (b, g) = draw g in ((a, b), g))"

definition sum64_case :: "asm_routines \<Rightarrow> bool \<Rightarrow> bytes \<Rightarrow> bool" where
  "sum64_case asm useSHANI inp \<longleftrightarrow> kernelSum64 asm useSHANI inp = sha256 inp"

definition pair_case :: "asm_routines \<Rightarrow> bytes \<times> bytes \<Rightarrow> bool" where
  "pair_case asm = (\<lambda>(a, b). kernelSum64Pair asm a b = (sha256 a, sha256 b))"

definition fused_case :: "asm_routines \<Rightarrow> bytes \<times> bytes \<Rightarrow> bool" where
  "fused_case asm = (\<lambda>(a, b).
     let (sa, sb) = kernelSum64Pair asm a b;
         ea = hexEncode64 (replicate 64 0) sa;
         eb = hexEncode64 (replicate 64 0) sb
     in pairHashHex asm (a, b) = (ea, eb))"

definition single_case :: "asm_routines \<Rightarrow> bool \<Rightarrow> bytes \<Rightarrow> bool" where
  "single_case asm useSHANI x \<longleftrightarrow>
     hashHex1 asm x = hexEncode64 (replicate 64 0) (kernelSum64 asm useSHANI x)"

definition v3_case :: "asm_routines \<Rightarrow> nat \<Rightarrow> bytes \<times> bytes \<Rightarrow> bool" where
  "v3_case asm n = (\<lambda>(a, b).
     pairHashHexN asm (a, b) n = (pairHashHex asm ^^ n) (a, b) \<and>
     hashHex1N asm a n = (hashHex1 asm ^^ n) a)"

text \<open>The counted kernels are tested for several numbers of iterations, 128 cases each.\<close>

fun staged_test ::
  "('g \<Rightarrow> 'x \<times> 'g) \<Rightarrow> (nat \<Rightarrow> 'x \<Rightarrow> bool) \<Rightarrow> nat \<Rightarrow> nat list \<Rightarrow> 'g \<Rightarrow> bool \<times> 'g" where
  "staged_test draw ok m [] g = (True, g)"
| "staged_test draw ok m (n # ns) g =
     (let (pass, g) = selftest draw (ok n) m g
      in if pass then staged_test draw ok m ns g else (False, g))"

section \<open>\<open>initRiskKernel\<close>\<close>

text \<open>The fused single-lane kernel and the counted kernels, tried once the fused pair kernel has
  passed.\<close>

definition init_single :: "boot_env \<Rightarrow> asm_routines \<Rightarrow> 'g rng \<Rightarrow> 'g \<Rightarrow> kernels \<Rightarrow> kernels" where
  "init_single env asm r g k =
     (let (singleOK, g) = selftest (read64 r) (single_case asm (kernelUseSHANI k)) 512 g;
          k = (if singleOK then k\<lparr>riskIter1 := Some (hashHex1 asm)\<rparr> else k)
      in if singleOK \<and> env_KERNEL_V3 env = ''on''
         then let (v3OK, g) = staged_test (draw2 (read64 r)) (v3_case asm) 128 [1, 2, 3, 17, 256] g
              in if v3OK
                 then k\<lparr>riskPairIterN := Some (pairHashHexN asm), riskIter1N := Some (hashHex1N asm)\<rparr>
                 else k
         else k)"

definition init_pair :: "boot_env \<Rightarrow> asm_routines \<Rightarrow> 'g rng \<Rightarrow> 'g \<Rightarrow> kernels \<Rightarrow> kernels" where
  "init_pair env asm r g k =
     (let (k, g) =
        (if kernelUseSHANI k
         then let (ok, g) = selftest (draw2 (read64 r)) (pair_case asm) 256 g
              in (k\<lparr>kernelPairOK := ok\<rparr>, g)
         else (k, g))
      in if \<not> kernelPairOK k then k
         else let k = k\<lparr>riskSumPair := Some (kernelSum64Pair asm)\<rparr>;
                  (fusedOK, g) = selftest (draw2 (read64 r)) (fused_case asm) 512 g
              in if fusedOK
                 then init_single env asm r g (k\<lparr>riskPairIter := Some (pairHashHex asm)\<rparr>)
                 else k)"

definition initRiskKernel :: "boot_env \<Rightarrow> asm_routines \<Rightarrow> 'g rng \<Rightarrow> kernels \<Rightarrow> kernels" where
  "initRiskKernel env asm r k =
     (if env_KERNEL env = ''off'' then k
      else let shani = shani_gate env; avx2 = avx2_gate env;
               k = k\<lparr>kernelUseSHANI := shani, kernelUseAVX2 := avx2\<rparr>
           in if \<not> shani \<and> \<not> avx2 then k
              else let (ok, g) = selftest (read64 r) (sum64_case asm shani) 512 (newSource r 0x0b51d10)
                   in if \<not> ok then k\<lparr>kernelUseSHANI := False, kernelUseAVX2 := False\<rparr>
                      else init_pair env asm r g (k\<lparr>riskSum64 := kernelSum64 asm shani\<rparr>))"

section \<open>The boot race of the pair kernel\<close>

text \<open>The middle of three samples, as \<open>sort.Slice\<close> leaves it.\<close>

definition median3 :: "int list \<Rightarrow> int" where
  "median3 xs = sort xs ! 1"

text \<open>\<open>raceKernelPairing\<close>, on the three measured durations (in nanoseconds) of two serial chains and of
  one pair.\<close>

definition raceKernelPairing :: "int list \<Rightarrow> int list \<Rightarrow> kernels \<Rightarrow> kernels" where
  "raceKernelPairing serial paired k =
     (if riskSumPair k = None then k
      else let s = median3 serial; p = median3 paired
           in if p * 100 \<ge> s * 95 then k\<lparr>riskSumPair := None\<rparr> else k)"

section \<open>Facts about the self-tests\<close>

fun skip :: "('g \<Rightarrow> 'x \<times> 'g) \<Rightarrow> nat \<Rightarrow> 'g \<Rightarrow> 'g" where
  "skip draw 0 g = g"
| "skip draw (Suc n) g = skip draw n (snd (draw g))"

lemma selftest_pass [kernel_simps]:
  "fst (selftest draw ok n g) \<longleftrightarrow> list_all ok (draws draw n g)"
  by (induction n arbitrary: g) (auto split: prod.splits)

lemma selftest_skip [kernel_simps]:
  "fst (selftest draw ok n g) \<Longrightarrow> snd (selftest draw ok n g) = skip draw n g"
  by (induction n arbitrary: g) (auto split: prod.splits if_splits)

lemma selftest_True:
  "selftest draw ok n g = (True, g') \<longleftrightarrow> list_all ok (draws draw n g) \<and> g' = skip draw n g"
  using selftest_pass [of draw ok n g] selftest_skip [of draw ok n g]
  by (cases "selftest draw ok n g") auto

lemma selftest_False:
  "selftest draw ok n g = (False, g') \<Longrightarrow> \<not> list_all ok (draws draw n g)"
  using selftest_pass [of draw ok n g] by simp

lemma draws_first: "0 < n \<Longrightarrow> fst (draw g) \<in> set (draws draw n g)"
  by (cases n) (simp_all add: split_beta)

lemma draws_all: "(\<And>g. P (fst (draw g))) \<Longrightarrow> list_all P (draws draw n g)"
proof (induction n arbitrary: g)
  case (Suc n)
  then show ?case by (simp add: split_beta)
qed simp

lemma staged_pass [kernel_simps]:
  "fst (staged_test draw ok m (n # ns) g) \<longleftrightarrow>
     list_all (ok n) (draws draw m g) \<and> fst (staged_test draw ok m ns (skip draw m g))"
proof (cases "list_all (ok n) (draws draw m g)")
  case True
  then have "selftest draw (ok n) m g = (True, skip draw m g)"
    by (simp only: selftest_True)
  with True show ?thesis by simp
next
  case False
  then obtain g' where "selftest draw (ok n) m g = (False, g')"
    by (metis (full_types) selftest_True surj_pair)
  with False show ?thesis by simp
qed

lemma staged_all:
  "(\<And>n g. P (fst (draw g)) \<Longrightarrow> ok n (fst (draw g))) \<Longrightarrow> (\<And>g. P (fst (draw g))) \<Longrightarrow>
     fst (staged_test draw ok m ns g)"
proof (induction ns arbitrary: g)
  case (Cons n ns)
  then show ?case
    by (simp only: staged_pass) (auto intro: draws_all)
qed simp

section \<open>No assumption on the assembly: what an installed kernel has passed\<close>

text \<open>A scalar kernel that errs on one of the 512 sampled blocks leaves the program on the standard
  library: boot changes nothing.\<close>

lemma broken_kernel_rejected:
  assumes "x \<in> set (draws (read64 r) 512 (newSource r 0x0b51d10))"
    and "kernelSum64 asm (shani_gate env) x \<noteq> sha256 x"
  shows "initRiskKernel env asm r default_kernels = default_kernels"
proof -
  have "\<not> list_all (sum64_case asm (shani_gate env)) (draws (read64 r) 512 (newSource r 0x0b51d10))"
    using assms by (auto simp: list_all_iff sum64_case_def)
  then obtain g where
    "selftest (read64 r) (sum64_case asm (shani_gate env)) 512 (newSource r 0x0b51d10) = (False, g)"
    by (metis (full_types) selftest_True surj_pair)
  then show ?thesis
    by (simp add: initRiskKernel_def Let_def default_kernels_def)
qed

lemma init_single_frame [kernel_simps]:
  "riskSum64 (init_single env asm r g k) = riskSum64 k"
  "riskSumPair (init_single env asm r g k) = riskSumPair k"
  "riskPairIter (init_single env asm r g k) = riskPairIter k"
  "riskChainQuad (init_single env asm r g k) = riskChainQuad k"
  "riskChainX16 (init_single env asm r g k) = riskChainX16 k"
  "riskYieldMask (init_single env asm r g k) = riskYieldMask k"
  "kernelUseSHANI (init_single env asm r g k) = kernelUseSHANI k"
  by (simp_all add: init_single_def Let_def split: prod.split)

lemma init_pair_frame [kernel_simps]:
  "riskSum64 (init_pair env asm r g k) = riskSum64 k"
  "riskChainQuad (init_pair env asm r g k) = riskChainQuad k"
  "riskChainX16 (init_pair env asm r g k) = riskChainX16 k"
  "riskYieldMask (init_pair env asm r g k) = riskYieldMask k"
  "kernelUseSHANI (init_pair env asm r g k) = kernelUseSHANI k"
  by (auto simp: init_pair_def Let_def kernel_simps split: prod.split)

lemma initRiskKernel_frame [kernel_simps]:
  "riskChainQuad (initRiskKernel env asm r k) = riskChainQuad k"
  "riskChainX16 (initRiskKernel env asm r k) = riskChainX16 k"
  "riskYieldMask (initRiskKernel env asm r k) = riskYieldMask k"
  by (auto simp: initRiskKernel_def Let_def kernel_simps split: prod.split)

section \<open>Under the contract of the assembly\<close>

definition asm_ok :: "asm_routines \<Rightarrow> bool" where
  "asm_ok asm \<longleftrightarrow>
     (\<forall>d p. length d = 8 \<longrightarrow> length p = 64 \<longrightarrow> blockAVX2 asm d p = sha_compress d p) \<and>
     (\<forall>d p. length d = 8 \<longrightarrow> length p = 64 \<longrightarrow> blockSHANI asm d p = sha_compress d p) \<and>
     (\<forall>da db pa pb. length da = 8 \<longrightarrow> length db = 8 \<longrightarrow> length pa = 64 \<longrightarrow> length pb = 64 \<longrightarrow>
        blockSHANI2 asm da db pa pb = (sha_compress da pa, sha_compress db pb)) \<and>
     (\<forall>p. lane2 p \<longrightarrow> pairHashHex asm p = hash_hex2 p) \<and>
     (\<forall>b. lane1 b \<longrightarrow> hashHex1 asm b = hash_hex b) \<and>
     (\<forall>p n. lane2 p \<longrightarrow> pairHashHexN asm p n = (hash_hex2 ^^ n) p) \<and>
     (\<forall>b n. lane1 b \<longrightarrow> hashHex1N asm b n = (hash_hex ^^ n) b)"

lemma shaIV_H0: "shaIV = sha_H0"
  by (simp add: shaIV_def sha_H0_def)

text \<open>The constant of the source is the padding of a 64-byte message.\<close>

lemma shaPad64_pad: "shaPad64 = sha_pad 64"
  by (simp add: shaPad64_def sha_pad_def be64_def) code_simp

lemma length_shaPad64 [simp]: "length shaPad64 = 64"
  by (simp add: shaPad64_def)

lemma digest_bytes_be32: "digest_bytes h = concat (map be32 h)"
  by (simp add: digest_bytes_def be32_def [abs_def])

lemma kernelSum64_sha256:
  "asm_ok asm \<Longrightarrow> length inp = 64 \<Longrightarrow> kernelSum64 asm useSHANI inp = sha256 inp"
  by (simp add: kernelSum64_def asm_ok_def shaIV_H0 digest_bytes_be32 sha256_two_blocks
      flip: shaPad64_pad)

lemma kernelSum64Pair_sha256:
  "asm_ok asm \<Longrightarrow> length a = 64 \<Longrightarrow> length b = 64 \<Longrightarrow>
     kernelSum64Pair asm a b = (sha256 a, sha256 b)"
  by (simp add: kernelSum64Pair_def asm_ok_def shaIV_H0 digest_bytes_be32 sha256_two_blocks
      flip: shaPad64_pad)

lemma init_single_ok:
  assumes "asm_ok asm" "scalar_ok k" "pair_ok k"
  shows "scalar_ok (init_single env asm r g k) \<and> pair_ok (init_single env asm r g k)"
  using assms
  by (auto simp: init_single_def Let_def scalar_ok_def pair_ok_def asm_ok_def split: prod.split)

text \<open>Flags do not matter to the contracts; the vetted routines satisfy them.\<close>

lemma ok_flags [simp]:
  "scalar_ok (k\<lparr>kernelUseSHANI := b\<rparr>) = scalar_ok k"
  "scalar_ok (k\<lparr>kernelUseAVX2 := b\<rparr>) = scalar_ok k"
  "scalar_ok (k\<lparr>kernelPairOK := b\<rparr>) = scalar_ok k"
  "scalar_ok (k\<lparr>riskSumPair := f\<rparr>) = scalar_ok k"
  "scalar_ok (k\<lparr>riskPairIter := g\<rparr>) = scalar_ok k"
  "pair_ok (k\<lparr>kernelUseSHANI := b\<rparr>) = pair_ok k"
  "pair_ok (k\<lparr>kernelUseAVX2 := b\<rparr>) = pair_ok k"
  "pair_ok (k\<lparr>kernelPairOK := b\<rparr>) = pair_ok k"
  "pair_ok (k\<lparr>riskSum64 := h\<rparr>) = pair_ok k"
  by (simp_all add: scalar_ok_def pair_ok_def)

lemma ok_install:
  assumes "asm_ok asm"
  shows "scalar_ok k \<Longrightarrow> scalar_ok (k\<lparr>riskSum64 := kernelSum64 asm d\<rparr>)"
    and "pair_ok k \<Longrightarrow> pair_ok (k\<lparr>riskSumPair := Some (kernelSum64Pair asm)\<rparr>)"
    and "pair_ok k \<Longrightarrow> pair_ok (k\<lparr>riskPairIter := Some (pairHashHex asm)\<rparr>)"
  using assms kernelSum64_sha256 [OF assms] kernelSum64Pair_sha256 [OF assms]
  by (simp_all add: scalar_ok_def pair_ok_def asm_ok_def lane1_def)

lemma init_pair_ok:
  assumes "asm_ok asm" "scalar_ok k" "pair_ok k"
  shows "scalar_ok (init_pair env asm r g k) \<and> pair_ok (init_pair env asm r g k)"
proof -
  have rest: "scalar_ok k' \<and> pair_ok k' \<Longrightarrow>
      scalar_ok (init_single env asm r g (k'\<lparr>riskSumPair := Some (kernelSum64Pair asm),
        riskPairIter := Some (pairHashHex asm)\<rparr>)) \<and>
      pair_ok (init_single env asm r g (k'\<lparr>riskSumPair := Some (kernelSum64Pair asm),
        riskPairIter := Some (pairHashHex asm)\<rparr>)) \<and>
      pair_ok (k'\<lparr>riskSumPair := Some (kernelSum64Pair asm)\<rparr>)" for k' g
    using assms(1) by (intro conjI init_single_ok [THEN conjunct1] init_single_ok [THEN conjunct2])
      (auto intro: ok_install)
  show ?thesis
    using assms rest [of k] rest [of "k\<lparr>kernelPairOK := True\<rparr>"]
    by (auto simp: init_pair_def Let_def split: prod.split)
qed

lemma initRiskKernel_ok:
  assumes "asm_ok asm" "scalar_ok k" "pair_ok k"
  shows "scalar_ok (initRiskKernel env asm r k) \<and> pair_ok (initRiskKernel env asm r k)"
proof -
  have "scalar_ok (init_pair env asm r g (k\<lparr>kernelUseSHANI := b, kernelUseAVX2 := c,
        riskSum64 := kernelSum64 asm d\<rparr>)) \<and>
      pair_ok (init_pair env asm r g (k\<lparr>kernelUseSHANI := b, kernelUseAVX2 := c,
        riskSum64 := kernelSum64 asm d\<rparr>))" for b c d g
    using assms by (intro init_pair_ok) (simp_all add: ok_install)
  then show ?thesis
    using assms(2,3) by (auto simp: initRiskKernel_def Let_def split: prod.split)
qed

lemma default_kernels_ok: "scalar_ok default_kernels" "pair_ok default_kernels"
  by (simp_all add: default_kernels_def scalar_ok_def pair_ok_def)

lemma raceKernelPairing_ok:
  "scalar_ok k \<Longrightarrow> scalar_ok (raceKernelPairing s p k)"
  "pair_ok k \<Longrightarrow> pair_ok (raceKernelPairing s p k)"
  by (auto simp: raceKernelPairing_def Let_def scalar_ok_def pair_ok_def)

section \<open>What boot installs, and what it has tested\<close>

text \<open>The random source after the tests of the scalar and of the pair kernel.\<close>

definition after_sum64 :: "'g rng \<Rightarrow> 'g" where
  "after_sum64 r = skip (read64 r) 512 (newSource r 0x0b51d10)"

definition after_pair :: "'g rng \<Rightarrow> 'g" where
  "after_pair r = skip (draw2 (read64 r)) 256 (after_sum64 r)"

lemma init_pair_tested:
  assumes "kernelUseSHANI k" "riskSumPair k = None" "riskPairIter k = None"
  shows "riskSumPair (init_pair env asm r g k) \<noteq> None \<Longrightarrow>
      list_all (pair_case asm) (draws (draw2 (read64 r)) 256 g) \<and>
      riskSumPair (init_pair env asm r g k) = Some (kernelSum64Pair asm)"
    and "riskPairIter (init_pair env asm r g k) \<noteq> None \<Longrightarrow>
      list_all (fused_case asm) (draws (draw2 (read64 r)) 512 (skip (draw2 (read64 r)) 256 g)) \<and>
      riskPairIter (init_pair env asm r g k) = Some (pairHashHex asm)"
  using assms
  by (auto simp: init_pair_def Let_def selftest_True init_single_frame
      dest: selftest_True [THEN iffD1] selftest_False split: prod.splits if_splits)

lemma initRiskKernel_stages:
  assumes "shani_gate env" "env_KERNEL env \<noteq> ''off''"
    and "list_all (sum64_case asm True) (draws (read64 r) 512 (newSource r 0x0b51d10))"
  shows "initRiskKernel env asm r k =
    init_pair env asm r (after_sum64 r)
      (k\<lparr>kernelUseSHANI := True, kernelUseAVX2 := False, riskSum64 := kernelSum64 asm True\<rparr>)"
proof -
  have "selftest (read64 r) (sum64_case asm True) 512 (newSource r 0x0b51d10) = (True, after_sum64 r)"
    using assms(3) by (simp only: selftest_True after_sum64_def)
  with assms(1,2) show ?thesis
    by (simp add: initRiskKernel_def Let_def avx2_gate_def)
qed

lemma pair_needs_shani:
  assumes "riskSumPair (initRiskKernel env asm r default_kernels) \<noteq> None"
  shows "shani_gate env \<and> env_KERNEL env \<noteq> ''off'' \<and>
    list_all (sum64_case asm True) (draws (read64 r) 512 (newSource r 0x0b51d10))"
proof -
  have "riskSumPair (init_pair env asm r g k) = riskSumPair k"
    if "\<not> kernelUseSHANI k" "\<not> kernelPairOK k" for g k
    using that by (simp add: init_pair_def)
  with assms show ?thesis
    by (cases "shani_gate env")
      (auto simp: initRiskKernel_def Let_def default_kernels_def selftest_True
        dest: selftest_True [THEN iffD1] split: prod.splits if_splits)
qed

lemma installed_pair_tested:
  assumes "riskSumPair (initRiskKernel env asm r default_kernels) \<noteq> None"
  shows "list_all (sum64_case asm True) (draws (read64 r) 512 (newSource r 0x0b51d10)) \<and>
    list_all (pair_case asm) (draws (draw2 (read64 r)) 256 (after_sum64 r)) \<and>
    riskSumPair (initRiskKernel env asm r default_kernels) = Some (kernelSum64Pair asm)"
proof -
  let ?k = "default_kernels\<lparr>kernelUseSHANI := True, kernelUseAVX2 := False,
    riskSum64 := kernelSum64 asm True\<rparr>"
  have gate: "shani_gate env" "env_KERNEL env \<noteq> ''off''"
      "list_all (sum64_case asm True) (draws (read64 r) 512 (newSource r 0x0b51d10))"
    using pair_needs_shani [OF assms] by auto
  note run = initRiskKernel_stages [OF gate, of default_kernels]
  have "kernelUseSHANI ?k" "riskSumPair ?k = None" "riskPairIter ?k = None"
    by (simp_all add: default_kernels_def)
  from init_pair_tested(1) [OF this assms [unfolded run]] gate show ?thesis
    by (simp only: run simp_thms)
qed

text \<open>The other way round: with routines that meet the contract and a processor with SHA extensions
  the scalar, pair and fused kernels are installed, and the counted ones on request.\<close>

lemma draw2_lengths:
  "(\<And>g. length (fst (draw g)) = 64) \<Longrightarrow> lane2 (fst (draw2 draw g))"
  by (simp add: draw2_def split_beta Let_def lane2_def lane1_def)

lemma tests_pass:
  assumes asm: "asm_ok asm" and rnd: "\<And>g. length (fst (read64 r g)) = 64"
  shows "list_all (sum64_case asm useSHANI) (draws (read64 r) n g)"
    and "list_all (single_case asm useSHANI) (draws (read64 r) n g)"
    and "list_all (pair_case asm) (draws (draw2 (read64 r)) n g)"
    and "list_all (fused_case asm) (draws (draw2 (read64 r)) n g)"
    and "fst (staged_test (draw2 (read64 r)) (v3_case asm) n ns g)"
proof -
  note two = draw2_lengths [of "read64 r", OF rnd]
  have steps: "(pairHashHex asm ^^ n) p = (hash_hex2 ^^ n) p" if "lane2 p" for p n
    using asm that by (intro funpow_cong_inv [where P = lane2]) (auto simp: asm_ok_def)
  have steps1: "(hashHex1 asm ^^ n) b = (hash_hex ^^ n) b" if "lane1 b" for b n
    using asm that by (intro funpow_cong_inv [where P = lane1]) (auto simp: asm_ok_def)
  show "list_all (sum64_case asm useSHANI) (draws (read64 r) n g)"
    by (rule draws_all) (simp add: sum64_case_def kernelSum64_sha256 [OF asm] rnd)
  show "list_all (single_case asm useSHANI) (draws (read64 r) n g)"
  proof (rule draws_all)
    have "hashHex1 asm b = hash_hex b" if "length b = 64" for b
      using asm that by (simp add: asm_ok_def lane1_def)
    then show "single_case asm useSHANI (fst (read64 r g))" for g
      by (simp add: single_case_def kernelSum64_sha256 [OF asm] rnd first_round)
  qed
  have pairs: "pair_case asm p" "fused_case asm p" "v3_case asm n p" if l: "lane2 p" for p n
  proof -
    obtain a b where p: "p = (a, b)" "lane1 a" "lane1 b" using l by (cases p) (simp add: lane2_def)
    show "pair_case asm p" "fused_case asm p"
      using p asm l kernelSum64Pair_sha256 [OF asm, of a b]
      by (auto simp: pair_case_def fused_case_def lane1_def first_round hash_hex2_def asm_ok_def)
    show "v3_case asm n p"
      using p asm l steps [OF l] steps1 by (auto simp: v3_case_def asm_ok_def)
  qed
  show "list_all (pair_case asm) (draws (draw2 (read64 r)) n g)"
    "list_all (fused_case asm) (draws (draw2 (read64 r)) n g)"
    by (rule draws_all, rule pairs, rule two)+
  show "fst (staged_test (draw2 (read64 r)) (v3_case asm) n ns g)"
    by (rule staged_all [where P = lane2]) (auto intro: pairs two)
qed

lemma initRiskKernel_installs:
  assumes asm: "asm_ok asm" and rnd: "\<And>g. length (fst (read64 r g)) = 64"
    and cpu: "shani_gate env" "env_KERNEL env \<noteq> ''off''"
  defines "k \<equiv> initRiskKernel env asm r default_kernels"
  shows "riskSumPair k = Some (kernelSum64Pair asm)" "riskPairIter k = Some (pairHashHex asm)"
    "riskIter1 k = Some (hashHex1 asm)"
    "riskPairIterN k = (if env_KERNEL_V3 env = ''on'' then Some (pairHashHexN asm) else None)"
proof -
  note pass = tests_pass [OF asm rnd]
  have test: "selftest draw ok n g = (True, skip draw n g)" if "list_all ok (draws draw n g)"
    for draw :: "'a \<Rightarrow> 'x \<times> 'a" and ok n g
    using that by (simp only: selftest_True)
  have "\<exists>g'. staged_test (draw2 (read64 r)) (v3_case asm) 128 [1, 2, 3, 17, 256] g = (True, g')" for g
    using pass(5) [of 128 "[1, 2, 3, 17, 256]" g] by (metis prod.collapse)
  then have single: "riskIter1 (init_single env asm r g k') = Some (hashHex1 asm) \<and>
      riskPairIterN (init_single env asm r g k') =
        (if env_KERNEL_V3 env = ''on'' then Some (pairHashHexN asm) else riskPairIterN k')" for g k'
    by (auto simp: init_single_def Let_def test [OF pass(2)] simp del: staged_test.simps
        split: prod.split) (metis prod.inject)+
  have "riskSumPair k = Some (kernelSum64Pair asm) \<and> riskPairIter k = Some (pairHashHex asm) \<and>
      riskIter1 k = Some (hashHex1 asm) \<and>
      riskPairIterN k = (if env_KERNEL_V3 env = ''on'' then Some (pairHashHexN asm) else None)"
    unfolding k_def initRiskKernel_stages [OF cpu pass(1)] init_pair_def
    by (simp add: test [OF pass(3)] test [OF pass(4)] init_single_frame single default_kernels_def)
  then show "riskSumPair k = Some (kernelSum64Pair asm)" "riskPairIter k = Some (pairHashHex asm)"
    "riskIter1 k = Some (hashHex1 asm)"
    "riskPairIterN k = (if env_KERNEL_V3 env = ''on'' then Some (pairHashHexN asm) else None)"
    by auto
qed

section \<open>The direct kernels\<close>

text \<open>Two calls of the block routine, the second on the constant padding block, are SHA-256 on a
  64-byte message, for the AVX2, the SHA-NI and the two-lane routine.\<close>

theorem direct_kernels_are_sha256:
  assumes "asm_ok asm" "length a = 64" "length b = 64"
  shows "kernelSum64 asm shani a = sha256 a \<and> kernelSum64Pair asm a b = (sha256 a, sha256 b)"
  using kernelSum64_sha256 kernelSum64Pair_sha256 assms by blast

end
