(* ===== verification/Quad_Kernel.thy ===== *)
theory Quad_Kernel
  imports Kernel_Boot
begin

text \<open>
  The four-lane chain of \<open>app/sha4lane_amd64.go\<close>: \<open>riskChainQuadKernel\<close>, its self-test against the
  portable chain on four lanes, the boot race against two pair calls, and \<open>initRiskKernelX4\<close>.
\<close>

type_synonym lanes4 = "bytes \<times> bytes \<times> bytes \<times> bytes"

definition map4 :: "('a \<Rightarrow> 'b) \<Rightarrow> 'a \<times> 'a \<times> 'a \<times> 'a \<Rightarrow> 'b \<times> 'b \<times> 'b \<times> 'b" where
  "map4 f = (\<lambda>(a, b, c, d). (f a, f b, f c, f d))"

definition riskChainQuadKernel ::
  "asm_routines \<Rightarrow> u32 \<Rightarrow> string \<Rightarrow> string \<Rightarrow> string \<Rightarrow> string \<Rightarrow>
     (string \<times> string \<times> string \<times> string) \<times> u32 list" where
  "riskChainQuadKernel asm msk s0 s1 s2 s3 =
     (let d0 = sha256 (bytes_of s0);
          d1 = sha256 (bytes_of s1);
          d2 = sha256 (bytes_of s2);
          d3 = sha256 (bytes_of s3);
          b0 = hexEncode64 (replicate 64 0) d0;
          b1 = hexEncode64 (replicate 64 0) d1;
          b2 = hexEncode64 (replicate 64 0) d2;
          b3 = hexEncode64 (replicate 64 0) d3;
          stride = msk + 1;
          (bufs, ys) = chunk_loop (riskChain4x asm) stride 50000 1 (b0, b1, b2, b3) []
      in (map4 str_of bufs, ys))"

section \<open>Self-test and boot race\<close>

definition draw4 :: "('g \<Rightarrow> bytes \<times> 'g) \<Rightarrow> 'g \<Rightarrow> lanes4 \<times> 'g" where
  "draw4 draw g =
     (let (a, g) = draw g; (b, g) = draw g; (c, g) = draw g; (d, g) = draw g in ((a, b, c, d), g))"

text \<open>The reference of one lane: \<open>n\<close> times \<open>sha256.Sum256\<close> and \<open>hexEncode64\<close>, in place.\<close>

definition x4_want :: "nat \<Rightarrow> bytes \<Rightarrow> bytes" where
  "x4_want n b = ((\<lambda>w. hexEncode64 w (sha256 w)) ^^ n) b"

definition x4_case :: "asm_routines \<Rightarrow> nat \<Rightarrow> lanes4 \<Rightarrow> bool" where
  "x4_case asm n bufs \<longleftrightarrow> riskChain4x asm bufs n = map4 (x4_want n) bufs"

definition x4_rounds :: "nat list" where
  "x4_rounds = [1, 2, 3, 17, 256]"

text \<open>\<open>pair2\<close> and \<open>quad\<close> are the three measured durations of two pair calls and of one quad call.\<close>

definition initRiskKernelX4 ::
  "boot_env \<Rightarrow> asm_routines \<Rightarrow> 'g rng \<Rightarrow> int list \<Rightarrow> int list \<Rightarrow> kernels \<Rightarrow> kernels" where
  "initRiskKernelX4 env asm r pair2 quad k =
     (if env_X4 env = ''off'' then k
      else if \<not> kernelUseSHANI k \<or> riskSumPair k = None then k
      else if \<not> fst (staged_test (draw4 (read64 r)) (x4_case asm) 128 x4_rounds (newSource r 0x4a4e5f))
      then k
      else let p = median3 pair2; q = median3 quad
           in if env_X4 env \<noteq> ''on'' \<and> q * 100 \<ge> p * 95 then k
              else k\<lparr>riskChainQuad :=
                Some (\<lambda>s0 s1 s2 s3. fst (riskChainQuadKernel asm (riskYieldMask k) s0 s1 s2 s3))\<rparr>)"

section \<open>Correctness\<close>

definition lane4 :: "lanes4 \<Rightarrow> bool" where
  "lane4 = (\<lambda>(a, b, c, d). lane1 a \<and> lane1 b \<and> lane1 c \<and> lane1 d)"

definition hash_hex4 :: "lanes4 \<Rightarrow> lanes4" where
  "hash_hex4 = map4 hash_hex"

definition asm4_ok :: "asm_routines \<Rightarrow> bool" where
  "asm4_ok asm \<longleftrightarrow> (\<forall>b n. lane4 b \<longrightarrow> riskChain4x asm b n = (hash_hex4 ^^ n) b)"

definition quad_ok :: "kernels \<Rightarrow> bool" where
  "quad_ok k \<longleftrightarrow>
     (\<forall>f. riskChainQuad k = Some f \<longrightarrow>
        (\<forall>a b c d. f a b c d =
           (naiveRiskChain a, naiveRiskChain b, naiveRiskChain c, naiveRiskChain d)))"

lemma map4_simp [simp]: "map4 f (a, b, c, d) = (f a, f b, f c, f d)"
  by (simp add: map4_def)

lemma hash_hex4_funpow: "(hash_hex4 ^^ n) (a, b, c, d) =
    ((hash_hex ^^ n) a, (hash_hex ^^ n) b, (hash_hex ^^ n) c, (hash_hex ^^ n) d)"
  by (induction n) (simp_all add: hash_hex4_def)

text \<open>The portable step on four lanes, the reference of the self-test, is the interface's step.\<close>

interpretation portable4: iter_kernel lane4 hash_hex4 "map4 (\<lambda>w. hexEncode64 w (sha256 w))"
  by unfold_locales
    (auto simp: lane4_def hash_hex4_def map4_def hexEncode64_sha256)

lemma x4_want_hash_hex: "lane1 b \<Longrightarrow> x4_want n b = (hash_hex ^^ n) b"
  unfolding x4_want_def by (rule portable.it_steps)

text \<open>The self-test accepts exactly the assembly that computes the step on the sampled lanes.\<close>

lemma x4_case_contract: "lane4 b \<Longrightarrow> x4_case asm n b \<longleftrightarrow> riskChain4x asm b n = (hash_hex4 ^^ n) b"
  by (cases b) (auto simp: x4_case_def lane4_def hash_hex4_funpow x4_want_hash_hex)

lemma riskChainQuadKernel_naive:
  assumes "asm4_ok asm"
  shows "fst (riskChainQuadKernel asm msk a b c d) =
    (naiveRiskChain a, naiveRiskChain b, naiveRiskChain c, naiveRiskChain d)"
proof -
  let ?bufs = "(hash_hex (bytes_of a), hash_hex (bytes_of b),
    hash_hex (bytes_of c), hash_hex (bytes_of d))"
  have "counted_kernel lane4 hash_hex4 (riskChain4x asm)"
    using assms
    by unfold_locales (auto simp: asm4_ok_def lane4_def hash_hex4_def)
  then have "fst (chunk_loop (riskChain4x asm) (msk + 1) 50000 1 ?bufs []) =
      (hash_hex4 ^^ (50000 - 1)) ?bufs"
    by (subst counted_kernel.chunk_loop_steps [where inv = lane4 and step = hash_hex4])
      (simp_all only: chain_bound lane4_def lane1_hash_hex prod.case simp_thms)
  then have "fst (riskChainQuadKernel asm msk a b c d) =
      map4 str_of ((hash_hex4 ^^ (50000 - 1)) ?bufs)"
    unfolding riskChainQuadKernel_def first_round Let_def
    by (simp only: split_beta fst_conv)
  then show ?thesis
    by (simp only: hash_hex4_funpow funpow_49999 map4_simp naiveRiskChain_def starter_loop_funpow)
qed

lemma initRiskKernelX4_ok:
  assumes "asm4_ok asm" "quad_ok k"
  shows "quad_ok (initRiskKernelX4 env asm r pair2 quad k)"
  using assms riskChainQuadKernel_naive [OF assms(1)]
  by (auto simp: initRiskKernelX4_def quad_ok_def Let_def)

lemma initRiskKernelX4_frame [kernel_simps]:
  "scalar_ok (initRiskKernelX4 env asm r pair2 quad k) = scalar_ok k"
  "pair_ok (initRiskKernelX4 env asm r pair2 quad k) = pair_ok k"
  "riskSumPair (initRiskKernelX4 env asm r pair2 quad k) = riskSumPair k"
  "riskChainX16 (initRiskKernelX4 env asm r pair2 quad k) = riskChainX16 k"
  "riskYieldMask (initRiskKernelX4 env asm r pair2 quad k) = riskYieldMask k"
  "kernelUseSHANI (initRiskKernelX4 env asm r pair2 quad k) = kernelUseSHANI k"
  by (auto simp: initRiskKernelX4_def scalar_ok_def pair_ok_def Let_def)

lemma quad_needs_pair:
  "riskChainQuad (initRiskKernelX4 env asm r pair2 quad k) \<noteq> riskChainQuad k \<Longrightarrow>
     kernelUseSHANI k \<and> riskSumPair k \<noteq> None \<and>
     fst (staged_test (draw4 (read64 r)) (x4_case asm) 128 x4_rounds (newSource r 0x4a4e5f))"
  by (auto simp: initRiskKernelX4_def Let_def split: if_splits)

end
