(* ===== verification/X16_Kernel.thy ===== *)
theory X16_Kernel
  imports Quad_Kernel
begin

text \<open>
  The 16-lane batch of \<open>app/shakernel_x16_amd64.go\<close>: the transposed digest layout (word \<open>w\<close> of lane
  \<open>i\<close> is a little-endian word at offset \<open>4 i + 64 w\<close>), the pooled working state whose buffers carry
  the constant padding block behind each lane, one lockstep iteration, \<open>x16Sum64\<close>, \<open>x16ChainRun\<close> and
  the boot code that installs it. The AVX-512 routine is a parameter with the contract \<open>asm16_ok\<close>.
  The batch simulates sixteen independent chains whatever a recycled state held before.
\<close>

section \<open>The transposed layout\<close>

definition put32le :: "bytes \<Rightarrow> nat \<Rightarrow> u32 \<Rightarrow> bytes" where
  "put32le t off v =
     t[off := ucast v, off + 1 := ucast (drop_bit 8 v),
       off + 2 := ucast (drop_bit 16 v), off + 3 := ucast (drop_bit 24 v)]"

definition get32le :: "bytes \<Rightarrow> nat \<Rightarrow> u32" where
  "get32le t off = of_be32 (t ! (off + 3)) (t ! (off + 2)) (t ! (off + 1)) (t ! off)"

definition x16IVTemplate :: bytes where
  "x16IVTemplate =
     foldl (\<lambda>t (i, w). put32le t (i * 4 + w * 64) (shaIV ! w)) (replicate 512 0)
       (List.product [0..<16] [0..<8])"

definition x16MaskAll :: "u64 list" where
  "x16MaskAll = [0xffff, 0xffff]"

definition x16Table :: "u64 list" where
  "x16Table = [
     0x428a2f98428a2f98, 0x428a2f98428a2f98, 0x428a2f98428a2f98, 0x428a2f98428a2f98,
     0x428a2f98428a2f98, 0x428a2f98428a2f98, 0x428a2f98428a2f98, 0x428a2f98428a2f98,
     0x7137449171374491, 0x7137449171374491, 0x7137449171374491, 0x7137449171374491,
     0x7137449171374491, 0x7137449171374491, 0x7137449171374491, 0x7137449171374491,
     0xb5c0fbcfb5c0fbcf, 0xb5c0fbcfb5c0fbcf, 0xb5c0fbcfb5c0fbcf, 0xb5c0fbcfb5c0fbcf,
     0xb5c0fbcfb5c0fbcf, 0xb5c0fbcfb5c0fbcf, 0xb5c0fbcfb5c0fbcf, 0xb5c0fbcfb5c0fbcf,
     0xe9b5dba5e9b5dba5, 0xe9b5dba5e9b5dba5, 0xe9b5dba5e9b5dba5, 0xe9b5dba5e9b5dba5,
     0xe9b5dba5e9b5dba5, 0xe9b5dba5e9b5dba5, 0xe9b5dba5e9b5dba5, 0xe9b5dba5e9b5dba5,
     0x3956c25b3956c25b, 0x3956c25b3956c25b, 0x3956c25b3956c25b, 0x3956c25b3956c25b,
     0x3956c25b3956c25b, 0x3956c25b3956c25b, 0x3956c25b3956c25b, 0x3956c25b3956c25b,
     0x59f111f159f111f1, 0x59f111f159f111f1, 0x59f111f159f111f1, 0x59f111f159f111f1,
     0x59f111f159f111f1, 0x59f111f159f111f1, 0x59f111f159f111f1, 0x59f111f159f111f1,
     0x923f82a4923f82a4, 0x923f82a4923f82a4, 0x923f82a4923f82a4, 0x923f82a4923f82a4,
     0x923f82a4923f82a4, 0x923f82a4923f82a4, 0x923f82a4923f82a4, 0x923f82a4923f82a4,
     0xab1c5ed5ab1c5ed5, 0xab1c5ed5ab1c5ed5, 0xab1c5ed5ab1c5ed5, 0xab1c5ed5ab1c5ed5,
     0xab1c5ed5ab1c5ed5, 0xab1c5ed5ab1c5ed5, 0xab1c5ed5ab1c5ed5, 0xab1c5ed5ab1c5ed5,
     0xd807aa98d807aa98, 0xd807aa98d807aa98, 0xd807aa98d807aa98, 0xd807aa98d807aa98,
     0xd807aa98d807aa98, 0xd807aa98d807aa98, 0xd807aa98d807aa98, 0xd807aa98d807aa98,
     0x12835b0112835b01, 0x12835b0112835b01, 0x12835b0112835b01, 0x12835b0112835b01,
     0x12835b0112835b01, 0x12835b0112835b01, 0x12835b0112835b01, 0x12835b0112835b01,
     0x243185be243185be, 0x243185be243185be, 0x243185be243185be, 0x243185be243185be,
     0x243185be243185be, 0x243185be243185be, 0x243185be243185be, 0x243185be243185be,
     0x550c7dc3550c7dc3, 0x550c7dc3550c7dc3, 0x550c7dc3550c7dc3, 0x550c7dc3550c7dc3,
     0x550c7dc3550c7dc3, 0x550c7dc3550c7dc3, 0x550c7dc3550c7dc3, 0x550c7dc3550c7dc3,
     0x72be5d7472be5d74, 0x72be5d7472be5d74, 0x72be5d7472be5d74, 0x72be5d7472be5d74,
     0x72be5d7472be5d74, 0x72be5d7472be5d74, 0x72be5d7472be5d74, 0x72be5d7472be5d74,
     0x80deb1fe80deb1fe, 0x80deb1fe80deb1fe, 0x80deb1fe80deb1fe, 0x80deb1fe80deb1fe,
     0x80deb1fe80deb1fe, 0x80deb1fe80deb1fe, 0x80deb1fe80deb1fe, 0x80deb1fe80deb1fe,
     0x9bdc06a79bdc06a7, 0x9bdc06a79bdc06a7, 0x9bdc06a79bdc06a7, 0x9bdc06a79bdc06a7,
     0x9bdc06a79bdc06a7, 0x9bdc06a79bdc06a7, 0x9bdc06a79bdc06a7, 0x9bdc06a79bdc06a7,
     0xc19bf174c19bf174, 0xc19bf174c19bf174, 0xc19bf174c19bf174, 0xc19bf174c19bf174,
     0xc19bf174c19bf174, 0xc19bf174c19bf174, 0xc19bf174c19bf174, 0xc19bf174c19bf174,
     0xe49b69c1e49b69c1, 0xe49b69c1e49b69c1, 0xe49b69c1e49b69c1, 0xe49b69c1e49b69c1,
     0xe49b69c1e49b69c1, 0xe49b69c1e49b69c1, 0xe49b69c1e49b69c1, 0xe49b69c1e49b69c1,
     0xefbe4786efbe4786, 0xefbe4786efbe4786, 0xefbe4786efbe4786, 0xefbe4786efbe4786,
     0xefbe4786efbe4786, 0xefbe4786efbe4786, 0xefbe4786efbe4786, 0xefbe4786efbe4786,
     0x0fc19dc60fc19dc6, 0x0fc19dc60fc19dc6, 0x0fc19dc60fc19dc6, 0x0fc19dc60fc19dc6,
     0x0fc19dc60fc19dc6, 0x0fc19dc60fc19dc6, 0x0fc19dc60fc19dc6, 0x0fc19dc60fc19dc6,
     0x240ca1cc240ca1cc, 0x240ca1cc240ca1cc, 0x240ca1cc240ca1cc, 0x240ca1cc240ca1cc,
     0x240ca1cc240ca1cc, 0x240ca1cc240ca1cc, 0x240ca1cc240ca1cc, 0x240ca1cc240ca1cc,
     0x2de92c6f2de92c6f, 0x2de92c6f2de92c6f, 0x2de92c6f2de92c6f, 0x2de92c6f2de92c6f,
     0x2de92c6f2de92c6f, 0x2de92c6f2de92c6f, 0x2de92c6f2de92c6f, 0x2de92c6f2de92c6f,
     0x4a7484aa4a7484aa, 0x4a7484aa4a7484aa, 0x4a7484aa4a7484aa, 0x4a7484aa4a7484aa,
     0x4a7484aa4a7484aa, 0x4a7484aa4a7484aa, 0x4a7484aa4a7484aa, 0x4a7484aa4a7484aa,
     0x5cb0a9dc5cb0a9dc, 0x5cb0a9dc5cb0a9dc, 0x5cb0a9dc5cb0a9dc, 0x5cb0a9dc5cb0a9dc,
     0x5cb0a9dc5cb0a9dc, 0x5cb0a9dc5cb0a9dc, 0x5cb0a9dc5cb0a9dc, 0x5cb0a9dc5cb0a9dc,
     0x76f988da76f988da, 0x76f988da76f988da, 0x76f988da76f988da, 0x76f988da76f988da,
     0x76f988da76f988da, 0x76f988da76f988da, 0x76f988da76f988da, 0x76f988da76f988da,
     0x983e5152983e5152, 0x983e5152983e5152, 0x983e5152983e5152, 0x983e5152983e5152,
     0x983e5152983e5152, 0x983e5152983e5152, 0x983e5152983e5152, 0x983e5152983e5152,
     0xa831c66da831c66d, 0xa831c66da831c66d, 0xa831c66da831c66d, 0xa831c66da831c66d,
     0xa831c66da831c66d, 0xa831c66da831c66d, 0xa831c66da831c66d, 0xa831c66da831c66d,
     0xb00327c8b00327c8, 0xb00327c8b00327c8, 0xb00327c8b00327c8, 0xb00327c8b00327c8,
     0xb00327c8b00327c8, 0xb00327c8b00327c8, 0xb00327c8b00327c8, 0xb00327c8b00327c8,
     0xbf597fc7bf597fc7, 0xbf597fc7bf597fc7, 0xbf597fc7bf597fc7, 0xbf597fc7bf597fc7,
     0xbf597fc7bf597fc7, 0xbf597fc7bf597fc7, 0xbf597fc7bf597fc7, 0xbf597fc7bf597fc7,
     0xc6e00bf3c6e00bf3, 0xc6e00bf3c6e00bf3, 0xc6e00bf3c6e00bf3, 0xc6e00bf3c6e00bf3,
     0xc6e00bf3c6e00bf3, 0xc6e00bf3c6e00bf3, 0xc6e00bf3c6e00bf3, 0xc6e00bf3c6e00bf3,
     0xd5a79147d5a79147, 0xd5a79147d5a79147, 0xd5a79147d5a79147, 0xd5a79147d5a79147,
     0xd5a79147d5a79147, 0xd5a79147d5a79147, 0xd5a79147d5a79147, 0xd5a79147d5a79147,
     0x06ca635106ca6351, 0x06ca635106ca6351, 0x06ca635106ca6351, 0x06ca635106ca6351,
     0x06ca635106ca6351, 0x06ca635106ca6351, 0x06ca635106ca6351, 0x06ca635106ca6351,
     0x1429296714292967, 0x1429296714292967, 0x1429296714292967, 0x1429296714292967,
     0x1429296714292967, 0x1429296714292967, 0x1429296714292967, 0x1429296714292967,
     0x27b70a8527b70a85, 0x27b70a8527b70a85, 0x27b70a8527b70a85, 0x27b70a8527b70a85,
     0x27b70a8527b70a85, 0x27b70a8527b70a85, 0x27b70a8527b70a85, 0x27b70a8527b70a85,
     0x2e1b21382e1b2138, 0x2e1b21382e1b2138, 0x2e1b21382e1b2138, 0x2e1b21382e1b2138,
     0x2e1b21382e1b2138, 0x2e1b21382e1b2138, 0x2e1b21382e1b2138, 0x2e1b21382e1b2138,
     0x4d2c6dfc4d2c6dfc, 0x4d2c6dfc4d2c6dfc, 0x4d2c6dfc4d2c6dfc, 0x4d2c6dfc4d2c6dfc,
     0x4d2c6dfc4d2c6dfc, 0x4d2c6dfc4d2c6dfc, 0x4d2c6dfc4d2c6dfc, 0x4d2c6dfc4d2c6dfc,
     0x53380d1353380d13, 0x53380d1353380d13, 0x53380d1353380d13, 0x53380d1353380d13,
     0x53380d1353380d13, 0x53380d1353380d13, 0x53380d1353380d13, 0x53380d1353380d13,
     0x650a7354650a7354, 0x650a7354650a7354, 0x650a7354650a7354, 0x650a7354650a7354,
     0x650a7354650a7354, 0x650a7354650a7354, 0x650a7354650a7354, 0x650a7354650a7354,
     0x766a0abb766a0abb, 0x766a0abb766a0abb, 0x766a0abb766a0abb, 0x766a0abb766a0abb,
     0x766a0abb766a0abb, 0x766a0abb766a0abb, 0x766a0abb766a0abb, 0x766a0abb766a0abb,
     0x81c2c92e81c2c92e, 0x81c2c92e81c2c92e, 0x81c2c92e81c2c92e, 0x81c2c92e81c2c92e,
     0x81c2c92e81c2c92e, 0x81c2c92e81c2c92e, 0x81c2c92e81c2c92e, 0x81c2c92e81c2c92e,
     0x92722c8592722c85, 0x92722c8592722c85, 0x92722c8592722c85, 0x92722c8592722c85,
     0x92722c8592722c85, 0x92722c8592722c85, 0x92722c8592722c85, 0x92722c8592722c85,
     0xa2bfe8a1a2bfe8a1, 0xa2bfe8a1a2bfe8a1, 0xa2bfe8a1a2bfe8a1, 0xa2bfe8a1a2bfe8a1,
     0xa2bfe8a1a2bfe8a1, 0xa2bfe8a1a2bfe8a1, 0xa2bfe8a1a2bfe8a1, 0xa2bfe8a1a2bfe8a1,
     0xa81a664ba81a664b, 0xa81a664ba81a664b, 0xa81a664ba81a664b, 0xa81a664ba81a664b,
     0xa81a664ba81a664b, 0xa81a664ba81a664b, 0xa81a664ba81a664b, 0xa81a664ba81a664b,
     0xc24b8b70c24b8b70, 0xc24b8b70c24b8b70, 0xc24b8b70c24b8b70, 0xc24b8b70c24b8b70,
     0xc24b8b70c24b8b70, 0xc24b8b70c24b8b70, 0xc24b8b70c24b8b70, 0xc24b8b70c24b8b70,
     0xc76c51a3c76c51a3, 0xc76c51a3c76c51a3, 0xc76c51a3c76c51a3, 0xc76c51a3c76c51a3,
     0xc76c51a3c76c51a3, 0xc76c51a3c76c51a3, 0xc76c51a3c76c51a3, 0xc76c51a3c76c51a3,
     0xd192e819d192e819, 0xd192e819d192e819, 0xd192e819d192e819, 0xd192e819d192e819,
     0xd192e819d192e819, 0xd192e819d192e819, 0xd192e819d192e819, 0xd192e819d192e819,
     0xd6990624d6990624, 0xd6990624d6990624, 0xd6990624d6990624, 0xd6990624d6990624,
     0xd6990624d6990624, 0xd6990624d6990624, 0xd6990624d6990624, 0xd6990624d6990624,
     0xf40e3585f40e3585, 0xf40e3585f40e3585, 0xf40e3585f40e3585, 0xf40e3585f40e3585,
     0xf40e3585f40e3585, 0xf40e3585f40e3585, 0xf40e3585f40e3585, 0xf40e3585f40e3585,
     0x106aa070106aa070, 0x106aa070106aa070, 0x106aa070106aa070, 0x106aa070106aa070,
     0x106aa070106aa070, 0x106aa070106aa070, 0x106aa070106aa070, 0x106aa070106aa070,
     0x19a4c11619a4c116, 0x19a4c11619a4c116, 0x19a4c11619a4c116, 0x19a4c11619a4c116,
     0x19a4c11619a4c116, 0x19a4c11619a4c116, 0x19a4c11619a4c116, 0x19a4c11619a4c116,
     0x1e376c081e376c08, 0x1e376c081e376c08, 0x1e376c081e376c08, 0x1e376c081e376c08,
     0x1e376c081e376c08, 0x1e376c081e376c08, 0x1e376c081e376c08, 0x1e376c081e376c08,
     0x2748774c2748774c, 0x2748774c2748774c, 0x2748774c2748774c, 0x2748774c2748774c,
     0x2748774c2748774c, 0x2748774c2748774c, 0x2748774c2748774c, 0x2748774c2748774c,
     0x34b0bcb534b0bcb5, 0x34b0bcb534b0bcb5, 0x34b0bcb534b0bcb5, 0x34b0bcb534b0bcb5,
     0x34b0bcb534b0bcb5, 0x34b0bcb534b0bcb5, 0x34b0bcb534b0bcb5, 0x34b0bcb534b0bcb5,
     0x391c0cb3391c0cb3, 0x391c0cb3391c0cb3, 0x391c0cb3391c0cb3, 0x391c0cb3391c0cb3,
     0x391c0cb3391c0cb3, 0x391c0cb3391c0cb3, 0x391c0cb3391c0cb3, 0x391c0cb3391c0cb3,
     0x4ed8aa4a4ed8aa4a, 0x4ed8aa4a4ed8aa4a, 0x4ed8aa4a4ed8aa4a, 0x4ed8aa4a4ed8aa4a,
     0x4ed8aa4a4ed8aa4a, 0x4ed8aa4a4ed8aa4a, 0x4ed8aa4a4ed8aa4a, 0x4ed8aa4a4ed8aa4a,
     0x5b9cca4f5b9cca4f, 0x5b9cca4f5b9cca4f, 0x5b9cca4f5b9cca4f, 0x5b9cca4f5b9cca4f,
     0x5b9cca4f5b9cca4f, 0x5b9cca4f5b9cca4f, 0x5b9cca4f5b9cca4f, 0x5b9cca4f5b9cca4f,
     0x682e6ff3682e6ff3, 0x682e6ff3682e6ff3, 0x682e6ff3682e6ff3, 0x682e6ff3682e6ff3,
     0x682e6ff3682e6ff3, 0x682e6ff3682e6ff3, 0x682e6ff3682e6ff3, 0x682e6ff3682e6ff3,
     0x748f82ee748f82ee, 0x748f82ee748f82ee, 0x748f82ee748f82ee, 0x748f82ee748f82ee,
     0x748f82ee748f82ee, 0x748f82ee748f82ee, 0x748f82ee748f82ee, 0x748f82ee748f82ee,
     0x78a5636f78a5636f, 0x78a5636f78a5636f, 0x78a5636f78a5636f, 0x78a5636f78a5636f,
     0x78a5636f78a5636f, 0x78a5636f78a5636f, 0x78a5636f78a5636f, 0x78a5636f78a5636f,
     0x84c8781484c87814, 0x84c8781484c87814, 0x84c8781484c87814, 0x84c8781484c87814,
     0x84c8781484c87814, 0x84c8781484c87814, 0x84c8781484c87814, 0x84c8781484c87814,
     0x8cc702088cc70208, 0x8cc702088cc70208, 0x8cc702088cc70208, 0x8cc702088cc70208,
     0x8cc702088cc70208, 0x8cc702088cc70208, 0x8cc702088cc70208, 0x8cc702088cc70208,
     0x90befffa90befffa, 0x90befffa90befffa, 0x90befffa90befffa, 0x90befffa90befffa,
     0x90befffa90befffa, 0x90befffa90befffa, 0x90befffa90befffa, 0x90befffa90befffa,
     0xa4506ceba4506ceb, 0xa4506ceba4506ceb, 0xa4506ceba4506ceb, 0xa4506ceba4506ceb,
     0xa4506ceba4506ceb, 0xa4506ceba4506ceb, 0xa4506ceba4506ceb, 0xa4506ceba4506ceb,
     0xbef9a3f7bef9a3f7, 0xbef9a3f7bef9a3f7, 0xbef9a3f7bef9a3f7, 0xbef9a3f7bef9a3f7,
     0xbef9a3f7bef9a3f7, 0xbef9a3f7bef9a3f7, 0xbef9a3f7bef9a3f7, 0xbef9a3f7bef9a3f7,
     0xc67178f2c67178f2, 0xc67178f2c67178f2, 0xc67178f2c67178f2, 0xc67178f2c67178f2,
     0xc67178f2c67178f2, 0xc67178f2c67178f2, 0xc67178f2c67178f2, 0xc67178f2c67178f2]"

section \<open>The pooled working state\<close>

text \<open>\<open>inputs[i]\<close> is a slice of the whole of \<open>bufs[i]\<close>, so it is read off \<open>bufs\<close>.\<close>

record x16Chains =
  digests :: bytes
  scratch :: bytes
  bufs :: "bytes list"

definition x16New :: x16Chains where
  "x16New = \<lparr>digests = replicate 512 0, scratch = replicate 512 0,
             bufs = replicate 16 (replicate 64 0 @ shaPad64)\<rparr>"

definition lane :: "x16Chains \<Rightarrow> nat \<Rightarrow> bytes" where
  "lane x i = take 64 (bufs x ! i)"

definition set_lane :: "x16Chains \<Rightarrow> nat \<Rightarrow> bytes \<Rightarrow> x16Chains" where
  "set_lane x i b = x\<lparr>bufs := (bufs x)[i := b @ drop 64 (bufs x ! i)]\<rparr>"

text \<open>The digest of lane \<open>i\<close>: little-endian loads, big-endian stores.\<close>

definition x16_sum :: "bytes \<Rightarrow> nat \<Rightarrow> bytes" where
  "x16_sum ds i = concat (map (\<lambda>w. be32 (get32le ds (i * 4 + w * 64))) [0..<8])"

text \<open>Reset digests and scratch, call the assembly.\<close>

definition x16_call :: "asm_routines \<Rightarrow> x16Chains \<Rightarrow> x16Chains" where
  "x16_call asm x =
     (let (ds, sc) =
        sha256X16Avx512 asm x16IVTemplate (replicate 512 0) x16Table x16MaskAll (bufs x)
      in x\<lparr>digests := ds, scratch := sc\<rparr>)"

definition x16_step :: "asm_routines \<Rightarrow> x16Chains \<Rightarrow> x16Chains" where
  "x16_step asm x =
     foldl (\<lambda>x i. set_lane x i (hexEncode64 (lane x i) (x16_sum (digests x) i))) (x16_call asm x)
       [0..<16]"

text \<open>\<open>x16Sum64\<close> on the state \<open>x\<close> taken from the pool; the state goes back to the pool.\<close>

definition x16Sum64 :: "asm_routines \<Rightarrow> x16Chains \<Rightarrow> bytes list \<Rightarrow> bytes list \<times> x16Chains" where
  "x16Sum64 asm x inp =
     (let x = foldl (\<lambda>x i. set_lane x i (inp ! i)) x [0..<16];
          x = x16_call asm x
      in (map (x16_sum (digests x)) [0..<16], x))"

text \<open>\<open>x16ChainRun\<close>: more than sixteen seeds index past the lanes, which panics (\<open>None\<close>).\<close>

definition x16ChainRun ::
  "asm_routines \<Rightarrow> u32 \<Rightarrow> x16Chains \<Rightarrow> string list \<Rightarrow> (string list \<times> x16Chains \<times> u32 list) option"
where
  "x16ChainRun asm msk x seeds =
     (if 16 < length seeds then None
      else let x = foldl (\<lambda>x i. set_lane x i (hexEncode64 (lane x i) (sha256 (bytes_of (seeds ! i)))))
                     x [0..<length seeds];
               x = foldl (\<lambda>x i. set_lane x i (replicate 64 0)) x [length seeds..<16];
               (x, ys) = iter_loop (x16_step asm) msk 50000 1 x []
           in Some (map (\<lambda>i. str_of (lane x i)) [0..<length seeds], x, ys))"

section \<open>\<open>initRiskKernelX16\<close>\<close>

definition x16_gate :: "boot_env \<Rightarrow> kernels \<Rightarrow> bool" where
  "x16_gate env k =
     (let forced = (env_KERNEL env = ''avx512'');
          has = has_flag (cpuinfoFlags (cpuinfo env));
          avx512 = (has ''avx512f'' \<and> has ''avx512dq'' \<and> has ''avx512bw'' \<and> has ''avx512vl'')
      in env_X16 env \<noteq> ''off'' \<and> avx512 \<and>
         \<not> (\<not> forced \<and> env_KERNEL env = ''off'') \<and>
         \<not> (kernelUseSHANI k \<and> \<not> forced \<and> env_X16 env \<noteq> ''on''))"

fun draw_n :: "('g \<Rightarrow> bytes \<times> 'g) \<Rightarrow> nat \<Rightarrow> 'g \<Rightarrow> bytes list \<times> 'g" where
  "draw_n draw 0 g = ([], g)"
| "draw_n draw (Suc n) g =
     (let (b, g) = draw g; (bs, g) = draw_n draw n g in (b # bs, g))"

text \<open>The differential wall: \<open>n\<close> cases from case number \<open>c\<close> on, every eighth with two equal lanes; the
  pooled state is handed from case to case.\<close>

fun x16_wall :: "asm_routines \<Rightarrow> 'g rng \<Rightarrow> nat \<Rightarrow> nat \<Rightarrow> 'g \<Rightarrow> x16Chains \<Rightarrow> bool \<times> x16Chains" where
  "x16_wall asm r 0 c g x = (True, x)"
| "x16_wall asm r (Suc n) c g x =
     (let (inp, g) = draw_n (read64 r) 16 g;
          inp = (if c mod 8 = 7 then inp[3 := inp ! 12] else inp);
          (got, x) = x16Sum64 asm x inp
      in if got = map sha256 inp then x16_wall asm r n (c + 1) g x else (False, x))"

text \<open>The 300-deep composed chain on lanes 0 and 15 against the active scalar path.\<close>

definition x16_deep :: "asm_routines \<Rightarrow> kernels \<Rightarrow> x16Chains \<Rightarrow> bool \<times> x16Chains" where
  "x16_deep asm k x =
     (let w0 = hexEncode64 (replicate 64 0) (sha256 (bytes_of ''x16-boot''));
          want = ((\<lambda>w. hexEncode64 w (riskSum64 k w)) ^^ 299) w0;
          dg = sha256 (bytes_of ''x16-boot'');
          x = foldl (\<lambda>x i. set_lane x i (hexEncode64 (lane x i) dg)) x [0..<16];
          x = (x16_step asm ^^ 299) x
      in (lane x 0 = want \<and> lane x 15 = want, x))"

definition race_seeds :: "string list" where
  "race_seeds = map (\<lambda>d. ''x16-race-'' @ d)
     [''0'', ''1'', ''2'', ''3'', ''4'', ''5'', ''6'', ''7'', ''8'', ''9'',
      ''10'', ''11'', ''12'', ''13'', ''14'', ''15'']"

text \<open>The reference run of the race doubles as a digest cross-check: four pair calls or four serial
  chains must reproduce the batch. A panic of the pair path fails the check.\<close>

definition race_digests_ok :: "kernels \<Rightarrow> string list \<Rightarrow> bool" where
  "race_digests_ok k batchOut =
     (if riskSumPair k \<noteq> None
      then \<forall>i \<in> {0, 2, 4, 6}.
             map_option fst (riskChainPair k (race_seeds ! i) (race_seeds ! (i + 1))) =
               Some (batchOut ! i, batchOut ! (i + 1))
      else \<forall>i \<in> {0, 1, 2, 3}. fst (riskChain k (race_seeds ! i)) = batchOut ! i)"

text \<open>The batch floor, from the duration of a full batch and of sixteen displaced chains.\<close>

definition x16_min_batch :: "int \<Rightarrow> int \<Rightarrow> int" where
  "x16_min_batch batch displaced =
     (let perChain = displaced sdiv 16;
          minBatch = (if perChain > 0 then (batch * 10) sdiv (perChain * 9) + 1 else 16)
      in if minBatch < 8 then 8 else if minBatch > 16 then 16 else minBatch)"

text \<open>\<open>batch\<close> and \<open>ref\<close> are the measured durations of the batch and of the reference run; \<open>x\<close> is the
  state the pool hands out.\<close>

definition initRiskKernelX16 ::
  "boot_env \<Rightarrow> asm_routines \<Rightarrow> 'g rng \<Rightarrow> x16Chains \<Rightarrow> int \<Rightarrow> int \<Rightarrow> kernels \<Rightarrow> kernels" where
  "initRiskKernelX16 env asm r x batch ref k =
     (if \<not> x16_gate env k then k
      else let (wallOK, x) = x16_wall asm r 64 0 (newSource r 0xa5f31600) x
           in if \<not> wallOK then k
              else let (chainOK, x) = x16_deep asm k x
                   in if \<not> chainOK then k
                      else case x16ChainRun asm (riskYieldMask k) x race_seeds of
                             None \<Rightarrow> k
                           | Some (batchOut, x, ys) \<Rightarrow>
                               if \<not> race_digests_ok k batchOut then k
                               else let displaced = (if riskSumPair k \<noteq> None then ref * 2 else ref * 4);
                                        num = (if riskSumPair k \<noteq> None then 11 else 13)
                                    in if batch * num \<ge> displaced * 10 then k
                                       else k\<lparr>riskX16MinBatch := x16_min_batch batch displaced,
                                              riskChainX16 := Some (\<lambda>seeds.
                                                map_option fst
                                                  (x16ChainRun asm (riskYieldMask k) x seeds))\<rparr>)"

section \<open>Facts about the layout\<close>

lemma length_put32le [simp]: "length (put32le t off v) = length t"
  by (simp add: put32le_def)

lemma get_put_same: "off + 3 < length t \<Longrightarrow> get32le (put32le t off v) off = v"
  by (simp add: get32le_def put32le_def of_be32_bytes nth_list_update)

lemma get_put_other:
  assumes "4 dvd off" "4 dvd off'" "off \<noteq> off'"
  shows "get32le (put32le t off v) off' = get32le t off'"
proof -
  from assms have "off + 3 < off' \<or> off' + 3 < off" by presburger
  then show ?thesis
    by (auto simp: get32le_def put32le_def)
qed

text \<open>Stores at distinct aligned offsets do not disturb each other.\<close>

lemma get_puts:
  assumes "distinct (map fst ws)" and "\<forall>(off, v) \<in> set ws. 4 dvd off \<and> off + 3 < length t"
    and "(off, v) \<in> set ws"
  shows "get32le (foldl (\<lambda>t (off, v). put32le t off v) t ws) off = v"
  using assms
proof (induction ws rule: rev_induct)
  case (snoc w ws)
  obtain off' v' where w: "w = (off', v')" by force
  have len: "length (foldl (\<lambda>t (off, v). put32le t off v) t ws) = length t"
    by (induction ws rule: rev_induct) (auto split: prod.split)
  show ?case
  proof (cases "(off, v) = w")
    case True
    with snoc.prems len show ?thesis by (simp add: w get_put_same)
  next
    case False
    with snoc.prems have mem: "(off, v) \<in> set ws" by auto
    then have "off \<noteq> off'" using snoc.prems(1) w by (auto intro: rev_image_eqI)
    moreover have "4 dvd off" "4 dvd off'" using snoc.prems(2) mem w by auto
    ultimately show ?thesis
      using snoc.IH snoc.prems mem by (simp add: w get_put_other)
  qed
qed simp

definition lane_words :: "bytes \<Rightarrow> nat \<Rightarrow> u32 list" where
  "lane_words ds i = map (\<lambda>w. get32le ds (i * 4 + w * 64)) [0..<8]"

lemma length_x16IVTemplate [simp]: "length x16IVTemplate = 512"
proof -
  have "length (foldl (\<lambda>t (i, w). put32le t (f i w) (g w)) t ps) = length t"
    for f g t and ps :: "(nat \<times> nat) list"
    by (induction ps arbitrary: t) auto
  then show ?thesis by (simp add: x16IVTemplate_def)
qed

text \<open>A transposed buffer filled word by word, lane by lane, reads back what was stored.\<close>

lemma lane_words_stores:
  assumes "i < 16"
  shows "lane_words (foldl (\<lambda>t (i, w). put32le t (i * 4 + w * 64) (F i w)) (replicate 512 0)
    (List.product [0..<16] [0..<8])) i = map (F i) [0..<8]"
proof -
  let ?ps = "List.product [0..<16] [0..<8 :: nat]"
  let ?ws = "map (\<lambda>(i, w). (i * 4 + w * 64, F i w)) ?ps"
  let ?buf = "foldl (\<lambda>t (i, w). put32le t (i * 4 + w * 64) (F i w)) (replicate 512 0) ?ps"
  have buf: "?buf = foldl (\<lambda>t (off, v). put32le t off v) (replicate 512 0) ?ws"
    by (simp add: foldl_map case_prod_unfold)
  have "inj_on (\<lambda>(i, w). i * 4 + w * 64 :: nat) (set ?ps)"
  proof (rule inj_onI)
    fix x y
    assume mem: "x \<in> set ?ps" "y \<in> set ?ps"
      and eq: "(\<lambda>(i, w). i * 4 + w * 64 :: nat) x = (\<lambda>(i, w). i * 4 + w * 64) y"
    obtain a b c d where xy: "x = (a, b)" "y = (c, d)" by fastforce
    with mem have "a < 16" "c < 16" by auto
    moreover from eq xy have "(a + 16 * b) mod 16 = (c + 16 * d) mod 16"
      by (intro arg_cong [where f = "\<lambda>n. n mod 16"]) simp
    ultimately have "a = c" by simp
    with eq xy show "x = y" by simp
  qed
  then have "distinct (map (\<lambda>(i, w). i * 4 + w * 64) ?ps)"
    by (simp add: distinct_map distinct_product)
  then have dist: "distinct (map fst ?ws)"
    by (simp add: comp_def case_prod_unfold)
  have range: "\<forall>(off, v) \<in> set ?ws. 4 dvd off \<and> off + 3 < length (replicate 512 (0 :: byte))"
    by (auto intro: dvd_add dvd_mult)
  have "get32le ?buf (i * 4 + w * 64) = F i w" if "w < 8" for w
    unfolding buf using assms that by (intro get_puts [OF dist range]) force
  then show ?thesis by (simp add: lane_words_def)
qed

text \<open>Every lane of the template starts from the SHA-256 initial state.\<close>

lemma x16IVTemplate_lane:
  assumes "i < 16"
  shows "lane_words x16IVTemplate i = shaIV"
proof -
  have "lane_words x16IVTemplate i = map ((!) shaIV) [0..<8]"
    unfolding x16IVTemplate_def by (rule lane_words_stores [OF assms])
  also have "\<dots> = shaIV"
    by (simp add: shaIV_def upt_rec)
  finally show ?thesis .
qed

lemma x16_sum_words: "x16_sum ds i = concat (map be32 (lane_words ds i))"
  by (simp add: x16_sum_def lane_words_def comp_def)

text \<open>The table is the 64 round constants, each broadcast over eight doubled words.\<close>

lemma replicate_8: "replicate 8 x = [x, x, x, x, x, x, x, x]"
  by (simp add: numeral_eq_Suc)

lemma x16Table_K:
  "x16Table = concat (map (\<lambda>k. replicate 8 (push_bit 32 (ucast k) OR ucast k)) sha_K)"
  by (simp add: x16Table_def sha_K_def replicate_8)

section \<open>The batch simulates sixteen chains\<close>

definition asm16_ok :: "asm_routines \<Rightarrow> bool" where
  "asm16_ok asm \<longleftrightarrow>
     (\<forall>ds sc ins. length ds = 512 \<longrightarrow> length ins = 16 \<longrightarrow> (\<forall>i<16. length (ins ! i) = 128) \<longrightarrow>
        (\<forall>i<16. lane_words (fst (sha256X16Avx512 asm ds sc x16Table x16MaskAll ins)) i =
           sha_compress (sha_compress (lane_words ds i) (take 64 (ins ! i))) (drop 64 (ins ! i))))"

text \<open>What every state of the pool satisfies: sixteen buffers of 128 bytes whose second half is the
  padding block.\<close>

definition x16_inv :: "x16Chains \<Rightarrow> bool" where
  "x16_inv x \<longleftrightarrow> length (bufs x) = 16 \<and>
     (\<forall>i<16. length (bufs x ! i) = 128 \<and> drop 64 (bufs x ! i) = shaPad64)"

definition lanes_of :: "x16Chains \<Rightarrow> bytes list" where
  "lanes_of x = map (lane x) [0..<16]"

lemma x16_inv_New: "x16_inv x16New"
  by (simp add: x16_inv_def x16New_def)

lemma lane_length: "x16_inv x \<Longrightarrow> i < 16 \<Longrightarrow> length (lane x i) = 64"
  by (simp add: x16_inv_def lane_def)

lemma set_lane:
  assumes "x16_inv x" "i < 16" "length b = 64"
  shows "x16_inv (set_lane x i b)" and "digests (set_lane x i b) = digests x"
    and "lane (set_lane x i b) j = (if j = i then b else lane x j)"
  using assms by (auto simp: x16_inv_def set_lane_def lane_def nth_list_update)

text \<open>A loop that rewrites lanes one after the other, each from the digests and its own old
  contents.\<close>

lemma set_lanes:
  assumes "x16_inv x" "distinct js" "set js \<subseteq> {..<16}"
    and "\<And>d b j. length b = 64 \<Longrightarrow> length (F d b j) = 64"
  defines "y \<equiv> foldl (\<lambda>x i. set_lane x i (F (digests x) (lane x i) i)) x js"
  shows "x16_inv y \<and> digests y = digests x \<and>
    (\<forall>j. lane y j = (if j \<in> set js then F (digests x) (lane x j) j else lane x j))"
  using assms(1-3) unfolding y_def
proof (induction js arbitrary: x)
  case (Cons i js)
  let ?x = "set_lane x i (F (digests x) (lane x i) i)"
  have i: "i < 16" using Cons.prems by simp
  have x: "x16_inv ?x" "digests ?x = digests x"
      "\<And>j. lane ?x j = (if j = i then F (digests x) (lane x i) i else lane x j)"
    using Cons.prems(1) i by (simp_all add: set_lane lane_length assms(4))
  show ?case
    using Cons.IH [of ?x] Cons.prems x by auto
qed simp

lemma set_all_lanes:
  assumes "x16_inv x" and "\<And>d b j. length b = 64 \<Longrightarrow> length (F d b j) = 64"
  shows "x16_inv (foldl (\<lambda>x i. set_lane x i (F (digests x) (lane x i) i)) x [0..<16])"
    and "j < 16 \<Longrightarrow> lane (foldl (\<lambda>x i. set_lane x i (F (digests x) (lane x i) i)) x [0..<16]) j =
      F (digests x) (lane x j) j"
proof -
  have "distinct [0..<16::nat]" "set [0..<16::nat] \<subseteq> {..<16}" by auto
  from set_lanes [where F = F, OF assms(1) this assms(2)]
  show "x16_inv (foldl (\<lambda>x i. set_lane x i (F (digests x) (lane x i) i)) x [0..<16])"
    and "j < 16 \<Longrightarrow> lane (foldl (\<lambda>x i. set_lane x i (F (digests x) (lane x i) i)) x [0..<16]) j =
      F (digests x) (lane x j) j"
    by simp_all
qed

lemma x16_call:
  assumes "asm16_ok asm" "x16_inv x"
  shows "x16_inv (x16_call asm x)" and "lane (x16_call asm x) i = lane x i"
    and "i < 16 \<Longrightarrow> x16_sum (digests (x16_call asm x)) i = sha256 (lane x i)"
proof -
  have bufs: "bufs (x16_call asm x) = bufs x"
    by (simp add: x16_call_def split_beta)
  then show "x16_inv (x16_call asm x)" "lane (x16_call asm x) i = lane x i"
    using assms(2) by (simp_all add: x16_inv_def lane_def)
  assume i: "i < 16"
  have "lane_words (digests (x16_call asm x)) i =
      sha_compress (sha_compress shaIV (take 64 (bufs x ! i))) (drop 64 (bufs x ! i))"
    using assms i by (simp add: x16_call_def split_beta asm16_ok_def x16_inv_def x16IVTemplate_lane)
  then show "x16_sum (digests (x16_call asm x)) i = sha256 (lane x i)"
    using assms(2) i lane_length [OF assms(2) i]
    by (simp add: x16_sum_words sha256_two_blocks shaIV_H0 x16_inv_def lane_def
        flip: shaPad64_pad)
qed

lemma x16_step_sim:
  assumes "asm16_ok asm" "x16_inv x"
  shows "x16_inv (x16_step asm x) \<and> lanes_of (x16_step asm x) = map hash_hex (lanes_of x)"
proof -
  have len: "length b = 64 \<Longrightarrow> length (hexEncode64 b (x16_sum d j)) = 64" for b d j
    by (simp add: length_hexEncode64)
  from set_all_lanes [where F = "\<lambda>d b j. hexEncode64 b (x16_sum d j)",
      OF x16_call(1) [OF assms] len]
  have inv: "x16_inv (x16_step asm x)"
    and lanes: "\<And>j. j < 16 \<Longrightarrow> lane (x16_step asm x) j =
      hexEncode64 (lane (x16_call asm x) j) (x16_sum (digests (x16_call asm x)) j)"
    unfolding x16_step_def by simp_all
  have "lane (x16_step asm x) j = hash_hex (lane x j)" if "j < 16" for j
    using that lanes [OF that] x16_call(2,3) [OF assms] lane_length [OF assms(2) that]
    by (simp add: hexEncode64_sha256 lane1_def)
  with inv show ?thesis by (simp add: lanes_of_def)
qed

lemma map_funpow: "(map f ^^ n) xs = map (f ^^ n) xs" for f :: "'a \<Rightarrow> 'a"
  by (induction n) (simp_all add: comp_def)

lemma x16ChainRun_naive:
  assumes asm: "asm16_ok asm" and inv: "x16_inv x" and len: "length seeds \<le> 16"
  shows "\<exists>x' ys. x16ChainRun asm msk x seeds = Some (map naiveRiskChain seeds, x', ys) \<and> x16_inv x'"
proof -
  let ?n = "length seeds"
  let ?x1 = "foldl (\<lambda>x i. set_lane x i (hexEncode64 (lane x i) (sha256 (bytes_of (seeds ! i))))) x [0..<?n]"
  let ?x2 = "foldl (\<lambda>x i. set_lane x i (replicate 64 0)) ?x1 [?n..<16]"
  let ?r = "iter_loop (x16_step asm) msk 50000 1 ?x2 []"
  have js: "distinct [0..<?n]" "set [0..<?n] \<subseteq> {..<16}" "distinct [?n..<16]" "set [?n..<16] \<subseteq> {..<16}"
    using len by auto
  have x1: "x16_inv ?x1" "\<And>i. i < ?n \<Longrightarrow> lane ?x1 i = hexEncode64 (lane x i) (sha256 (bytes_of (seeds ! i)))"
    using set_lanes [where F = "\<lambda>d b j. hexEncode64 b (sha256 (bytes_of (seeds ! j)))", OF inv js(1,2)]
    by (simp_all add: length_hexEncode64)
  have x2: "x16_inv ?x2" "\<And>i. i < ?n \<Longrightarrow> lane ?x2 i = lane ?x1 i"
    using set_lanes [where F = "\<lambda>d b j. replicate 64 0", OF x1(1) js(3,4)]
    by simp_all
  have seed: "lane ?x2 i = hash_hex (bytes_of (seeds ! i))" if "i < ?n" for i
    using that len lane_length [OF inv, of i] by (simp add: x2 x1 hexEncode64_sha256 lane1_def)
  have "sim_kernel x16_inv lanes_of (map hash_hex) (x16_step asm)"
    using x16_step_sim [OF asm] by unfold_locales auto
  from sim_kernel.iter_loop_sim [OF this x2(1), where msk = msk and lim = 50000 and i = 1 and ys = "[]"]
  have r: "x16_inv (fst ?r)" "lanes_of (fst ?r) = map (hash_hex ^^ (50000 - 1)) (lanes_of ?x2)"
    by (simp_all only: chain_bound map_funpow)
  have "lane (fst ?r) i = (hash_hex ^^ (50000 - 1)) (lane ?x2 i)" if "i < 16" for i
    using that arg_cong [OF r(2), where f = "\<lambda>l. l ! i"] by (simp add: lanes_of_def del: funpow.simps)
  then have "str_of (lane (fst ?r) i) = naiveRiskChain (seeds ! i)" if "i < ?n" for i
    using that len seed [OF that]
    by (simp only: funpow_49999 naiveRiskChain_def starter_loop_funpow)
  then have "map (\<lambda>i. str_of (lane (fst ?r) i)) [0..<?n] = map naiveRiskChain seeds"
    by (intro nth_equalityI) simp_all
  with len r(1) show ?thesis
    by (cases ?r) (simp add: x16ChainRun_def Let_def)
qed

section \<open>What boot installs\<close>

definition x16_ok :: "kernels \<Rightarrow> bool" where
  "x16_ok k \<longleftrightarrow>
     (\<forall>f. riskChainX16 k = Some f \<longrightarrow>
        (\<forall>seeds. length seeds \<le> 16 \<longrightarrow> f seeds = Some (map naiveRiskChain seeds)))"

lemma x16Sum64_sha256:
  assumes asm: "asm16_ok asm" and inv: "x16_inv x"
    and inp: "length inp = 16" "\<forall>i<16. length (inp ! i) = 64"
  shows "fst (x16Sum64 asm x inp) = map sha256 inp \<and> x16_inv (snd (x16Sum64 asm x inp))"
proof -
  let ?F = "\<lambda>(d :: bytes) (b :: bytes) j. if j < 16 then inp ! j else replicate 64 0"
  let ?x = "foldl (\<lambda>x i. set_lane x i (inp ! i)) x [0..<16]"
  have eq: "?x = foldl (\<lambda>x i. set_lane x i (?F (digests x) (lane x i) i)) x [0..<16]"
    by (rule foldl_cong) auto
  have len: "length (?F d b j) = 64" for d b j using inp(2) by simp
  have x: "x16_inv ?x" "\<And>j. j < 16 \<Longrightarrow> lane ?x j = inp ! j"
    unfolding eq using set_all_lanes [where F = ?F, OF inv len] by simp_all
  have "map (x16_sum (digests (x16_call asm ?x))) [0..<16] = map sha256 inp"
    using inp(1) by (intro nth_equalityI) (simp_all add: x16_call(3) [OF asm x(1)] x(2))
  then show ?thesis
    using x16_call(1) [OF asm x(1)] by (simp add: x16Sum64_def)
qed

lemma draw_n_lengths:
  assumes "\<And>g. length (fst (draw g)) = 64"
  shows "length (fst (draw_n draw n g)) = n \<and> (\<forall>b \<in> set (fst (draw_n draw n g)). length b = 64)"
proof (induction n arbitrary: g)
  case (Suc n)
  then show ?case
    using assms by (simp add: split_beta Let_def)
qed simp

lemma x16_wall_inv:
  assumes asm: "asm16_ok asm" and rnd: "\<And>g. length (fst (read64 r g)) = 64" and inv: "x16_inv x"
  shows "x16_wall asm r n c g x = (True, snd (x16_wall asm r n c g x)) \<and>
    x16_inv (snd (x16_wall asm r n c g x))"
  using inv
proof (induction n arbitrary: c g x)
  case (Suc n)
  obtain inp0 g' where d: "draw_n (read64 r) 16 g = (inp0, g')" by force
  let ?inp = "if c mod 8 = 7 then inp0[3 := inp0 ! 12] else inp0"
  have "length inp0 = 16" "\<forall>b \<in> set inp0. length b = 64"
    using draw_n_lengths [where draw = "read64 r" and n = 16 and g = g, OF rnd] d by auto
  then have "length ?inp = 16" "\<forall>i<16. length (?inp ! i) = 64"
    by (auto simp: nth_list_update)
  then have s: "fst (x16Sum64 asm x ?inp) = map sha256 ?inp" "x16_inv (snd (x16Sum64 asm x ?inp))"
    using x16Sum64_sha256 [OF asm Suc.prems] by auto
  obtain x' where sum: "x16Sum64 asm x ?inp = (map sha256 ?inp, x')" and x': "x16_inv x'"
    using s by (cases "x16Sum64 asm x ?inp") auto
  have "x16_wall asm r (Suc n) c g x = x16_wall asm r n (c + 1) g' x'"
    by (simp only: x16_wall.simps d Let_def prod.case sum refl if_True)
  then show ?case
    using Suc.IH [OF x', of "c + 1" g'] by simp
qed simp

lemma x16_deep_inv:
  assumes asm: "asm16_ok asm" and inv: "x16_inv x"
  shows "x16_inv (snd (x16_deep asm k x))"
proof -
  let ?F = "\<lambda>(d :: bytes) b (j :: nat). hexEncode64 b (sha256 (bytes_of ''x16-boot''))"
  let ?x = "foldl (\<lambda>x i. set_lane x i (?F (digests x) (lane x i) i)) x [0..<16]"
  have "x16_inv ?x"
    by (rule set_all_lanes(1) [OF inv]) (simp add: length_hexEncode64)
  then have "x16_inv ((x16_step asm ^^ 299) ?x)"
    by (rule funpow_invariant [rotated]) (use x16_step_sim [OF asm] in blast)
  then show ?thesis by (simp only: x16_deep_def Let_def snd_conv)
qed

lemma initRiskKernelX16_ok:
  assumes asm: "asm16_ok asm" and rnd: "\<And>g. length (fst (read64 r g)) = 64"
    and inv: "x16_inv x" and k: "x16_ok k"
  shows "x16_ok (initRiskKernelX16 env asm r x batch ref k)"
proof -
  let ?wall = "x16_wall asm r 64 0 (newSource r 0xa5f31600) x"
  have x1: "x16_inv (snd ?wall)"
    using x16_wall_inv [OF asm rnd inv] by blast
  have x2: "x16_inv (snd (x16_deep asm k (snd ?wall)))"
    by (rule x16_deep_inv [OF asm x1])
  have "x16_ok (k\<lparr>riskX16MinBatch := m, riskChainX16 := Some (\<lambda>seeds.
      map_option fst (x16ChainRun asm (riskYieldMask k) x' seeds))\<rparr>)"
    if "x16_inv x'" for m x'
    using x16ChainRun_naive [OF asm that] by (fastforce simp: x16_ok_def)
  moreover have "x16_inv x'"
    if "x16ChainRun asm (riskYieldMask k) (snd (x16_deep asm k (snd ?wall))) race_seeds =
      Some (out, x', ys)" for out x' ys
    using that x16ChainRun_naive [OF asm x2, of race_seeds "riskYieldMask k"]
    by (auto simp: race_seeds_def)
  ultimately show ?thesis
    using k by (auto simp: initRiskKernelX16_def split_beta Let_def split: option.split)
qed

lemma initRiskKernelX16_frame [kernel_simps]:
  "scalar_ok (initRiskKernelX16 env asm r x batch ref k) = scalar_ok k"
  "pair_ok (initRiskKernelX16 env asm r x batch ref k) = pair_ok k"
  "quad_ok (initRiskKernelX16 env asm r x batch ref k) = quad_ok k"
  "riskSumPair (initRiskKernelX16 env asm r x batch ref k) = riskSumPair k"
  by (auto simp: initRiskKernelX16_def scalar_ok_def pair_ok_def quad_ok_def Let_def
      split: prod.split option.split)

lemma x16_min_batch_range: "8 \<le> x16_min_batch b d \<and> x16_min_batch b d \<le> 16"
  by (simp add: x16_min_batch_def Let_def)

lemma x16_min_batch_margin:
  assumes "0 \<le> b" "16 \<le> d" "x16_min_batch b d < 16"
  shows "b * 10 < x16_min_batch b d * (d div 16) * 9"
proof -
  let ?p = "d div 16"
  let ?m = "b * 10 div (?p * 9) + 1"
  have p: "0 < ?p" using assms(2) by (simp add: pos_imp_zdiv_pos_iff)
  have "d sdiv 16 = ?p" "(b * 10) sdiv (?p * 9) = b * 10 div (?p * 9)"
    using assms(1,2) p by (simp_all add: signed_divide_int_def sgn_if)
  then have m: "x16_min_batch b d = max 8 ?m"
    using assms(3) p by (auto simp: x16_min_batch_def Let_def split: if_splits)
  have "b * 10 < ?m * (?p * 9)"
  proof -
    have "n < (n div q + 1) * q" if "0 < q" for n q :: int
      using pos_mod_bound [OF that, of n] div_mult_mod_eq [of n q] by (simp only: distrib_right)
    then show ?thesis using p by simp
  qed
  also have "\<dots> \<le> max 8 ?m * (?p * 9)"
    using p by (intro mult_right_mono) auto
  finally show ?thesis by (simp add: m mult.assoc)
qed

section \<open>The constant tables\<close>

text \<open>The constant tables of the batch: every lane of the digest template is the SHA-256 initial
  state, the table of the routine holds each round constant broadcast over eight doubled words, and
  the padding block is the padding of a 64-byte message.\<close>

theorem batch_tables_correct:
  "(\<forall>i \<in> {0..<16}. lane_words x16IVTemplate i = sha_H0) \<and>
   x16Table = concat (map (\<lambda>k. replicate 8 (push_bit 32 (ucast k) OR ucast k)) sha_K) \<and>
   shaPad64 = sha_pad 64"
  using x16IVTemplate_lane x16Table_K shaPad64_pad by (simp add: shaIV_H0)

end
