(* ===== verification/Latency.thy ===== *)
theory Latency
  imports Go_Float Go_Strings
begin

text \<open>
  The patience window and its live estimate in \<open>app/main.go\<close>: \<open>observeChainCost\<close> folds the wall time
  of a finished chain into an average and re-derives the window; \<open>calibrateRisk\<close> seeds both at boot and
  picks the yield stride. Durations are nanoseconds, as in \<open>time.Duration\<close>; Go's integer division
  truncates towards zero (\<open>sdiv\<close>).
\<close>

section \<open>Constants and state\<close>

definition millisecond :: int where "millisecond = 1000000"
definition riskLatencyBudget :: int where "riskLatencyBudget = 1500 * millisecond"
definition riskSafetyMargin :: int where "riskSafetyMargin = 300 * millisecond"

record latency =
  riskPatienceNs :: int
  riskChainEWMANs :: int

text \<open>The window for an estimated chain cost, with its floor.\<close>

definition patience_for :: "int \<Rightarrow> int" where
  "patience_for cost =
     (let p = riskLatencyBudget - cost - riskSafetyMargin
      in if p < 100 * millisecond then 100 * millisecond else p)"

section \<open>\<open>observeChainCost\<close>\<close>

definition clamp_sample :: "int \<Rightarrow> int" where
  "clamp_sample d =
     (if d < millisecond then millisecond
      else if d > 500 * millisecond then 500 * millisecond else d)"

definition observeChainCost :: "int \<Rightarrow> latency \<Rightarrow> latency" where
  "observeChainCost d l =
     (let d = clamp_sample d;
          old = riskChainEWMANs l;
          ewma = old + (d - old) sdiv 8
      in l\<lparr>riskChainEWMANs := ewma, riskPatienceNs := patience_for ewma\<rparr>)"

section \<open>\<open>calibrateRisk\<close>\<close>

text \<open>The yield stride doubles while two strides' worth of iterations fit the target (\<open>fits\<close>).\<close>

function grow_stride :: "(nat \<Rightarrow> bool) \<Rightarrow> nat \<Rightarrow> nat" where
  "grow_stride fits stride =
     (if 0 < stride \<and> stride < 8192 \<and> fits (stride * 2) then grow_stride fits (stride * 2)
      else stride)"
  by pat_completeness auto
termination
  by (relation "measure (\<lambda>(fits, stride). 8192 - stride)") auto

declare grow_stride.simps [simp del]

text \<open>\<open>RISK_YIELD_STRIDE\<close> overrides the calibrated stride when it is set at all; a value that does not
  parse leaves the default 4096. The conversion to \<open>uint32\<close> keeps the low 32 bits.\<close>

definition yield_stride :: "string \<Rightarrow> (nat \<Rightarrow> bool) \<Rightarrow> u32" where
  "yield_stride env fits =
     (if env \<noteq> ''''
      then case go_atoi env of
             Some v \<Rightarrow> if 0 \<le> v then word_of_int v else 4096
           | None \<Rightarrow> 4096
      else word_of_nat (grow_stride fits 256))"

definition yield_mask :: "u32 \<Rightarrow> u32" where
  "yield_mask stride = (if stride = 0 then NOT 0 else stride - 1)"

text \<open>The target of about a millisecond per slice of the chain, for an idle chain of \<open>unitCost\<close> nanoseconds,
  and the loop's comparison \<open>float64(s) <= target\<close>.\<close>

definition stride_fits :: "'f float64 \<Rightarrow> int \<Rightarrow> nat \<Rightarrow> bool" where
  "stride_fits F unitCost s =
     (let perIter = fdiv F (flit F (of_int unitCost)) (flit F 50000);
          target = fdiv F (flit F (of_int millisecond)) perIter
      in fleq F (flit F (of_nat s)) target)"

text \<open>The state \<open>calibrateRisk\<close> leaves, from the measured durations: of the three idle chains, whose median
  sets the stride, and of the contended chains, whose upper median seeds the estimate. The timed runs
  themselves leave nothing behind.\<close>

definition unit_cost :: "int list \<Rightarrow> int" where
  "unit_cost samples = sort samples ! 1"

definition contended_cost :: "int list \<Rightarrow> int" where
  "contended_cost ds = sort ds ! (length ds div 2)"

definition calibrateRisk ::
  "'f float64 \<Rightarrow> int list \<Rightarrow> int list \<Rightarrow> string \<Rightarrow> latency \<Rightarrow> latency \<times> u32"
where
  "calibrateRisk F samples contended env l =
     (let unitCost = unit_cost samples; cost = contended_cost contended
      in (l\<lparr>riskChainEWMANs := cost, riskPatienceNs := patience_for cost\<rparr>,
          yield_mask (yield_stride env (stride_fits F unitCost))))"

section \<open>Facts\<close>

lemmas latency_defs = millisecond_def riskLatencyBudget_def riskSafetyMargin_def

lemma clamp_sample_range: "millisecond \<le> clamp_sample d \<and> clamp_sample d \<le> 500 * millisecond"
  by (simp add: clamp_sample_def latency_defs)

lemma patience_floor: "100 * millisecond \<le> patience_for cost"
  by (simp add: patience_for_def Let_def)

lemma patience_exact:
  "cost \<le> 1100 * millisecond \<Longrightarrow> patience_for cost + cost + riskSafetyMargin = riskLatencyBudget"
  by (simp add: patience_for_def Let_def latency_defs)

text \<open>Truncated division by eight moves towards the target by an eighth of the distance, rounded
  down.\<close>

lemma sdiv8_abs: "\<bar>x sdiv 8\<bar> = \<bar>x\<bar> div 8" for x :: int
  by (simp add: signed_divide_int_def abs_mult abs_sgn_eq sgn_if)

lemma sdiv8_nonneg: "0 \<le> x \<Longrightarrow> x sdiv 8 = x div 8" for x :: int
  by (auto simp: signed_divide_int_def sgn_if)

lemma sdiv8_neg: "x < 0 \<Longrightarrow> x sdiv 8 = - (- x div 8)" for x :: int
  by (simp add: signed_divide_int_def sgn_if)

lemma ewma_step_distance: "\<bar>old + (d - old) sdiv 8 - d\<bar> = \<bar>d - old\<bar> - \<bar>d - old\<bar> div 8" for old d :: int
proof (cases "old \<le> d")
  case True
  then have "(d - old) sdiv 8 = (d - old) div 8" by (intro sdiv8_nonneg) simp
  moreover have "(d - old) div 8 \<le> d - old" using True by simp
  ultimately show ?thesis using True by simp
next
  case False
  then have "(d - old) sdiv 8 = - ((old - d) div 8)" using sdiv8_neg [of "d - old"] by simp
  moreover have "(old - d) div 8 \<le> old - d" using False by simp
  ultimately show ?thesis using False by simp
qed

lemma ewma_between:
  fixes old d :: int
  shows "min old d \<le> old + (d - old) sdiv 8 \<and> old + (d - old) sdiv 8 \<le> max old d"
proof (cases "old \<le> d")
  case True
  then have "(d - old) sdiv 8 = (d - old) div 8" by (intro sdiv8_nonneg) simp
  moreover have "0 \<le> (d - old) div 8" "(d - old) div 8 \<le> d - old" using True by simp_all
  ultimately show ?thesis using True by simp
next
  case False
  then have "(d - old) sdiv 8 = - ((old - d) div 8)" using sdiv8_neg [of "d - old"] by simp
  moreover have "0 \<le> (old - d) div 8" "(old - d) div 8 \<le> old - d" using False by simp_all
  ultimately show ?thesis using False by simp
qed

text \<open>The stable range of the estimate, and what one sample can do inside it.\<close>

definition ewma_ok :: "latency \<Rightarrow> bool" where
  "ewma_ok l \<longleftrightarrow>
     millisecond \<le> riskChainEWMANs l \<and> riskChainEWMANs l \<le> 500 * millisecond \<and>
     riskPatienceNs l = patience_for (riskChainEWMANs l)"

lemma observe_ok: "ewma_ok l \<Longrightarrow> ewma_ok (observeChainCost d l)"
  using ewma_between [of "riskChainEWMANs l" "clamp_sample d"] clamp_sample_range [of d]
  by (auto simp: ewma_ok_def observeChainCost_def Let_def)

lemma observe_step:
  assumes "ewma_ok l"
  shows "\<bar>riskPatienceNs (observeChainCost d l) - riskPatienceNs l\<bar> \<le> 499 * millisecond div 8"
proof -
  let ?d = "clamp_sample d - riskChainEWMANs l"
  have "\<bar>?d\<bar> \<le> 499 * millisecond"
    using assms clamp_sample_range [of d] by (auto simp: ewma_ok_def latency_defs)
  then have "\<bar>?d sdiv 8\<bar> \<le> 499 * millisecond div 8"
    by (simp add: sdiv8_abs zdiv_mono1)
  moreover have "riskPatienceNs (observeChainCost d l) - riskPatienceNs l = - (?d sdiv 8)"
    using assms observe_ok [OF assms, of d]
    by (simp add: ewma_ok_def observeChainCost_def Let_def patience_for_def latency_defs)
  ultimately show ?thesis by simp
qed

text \<open>Under a steady cost the estimate comes within 7 ns of it and stays there.\<close>

lemma observe_distance:
  assumes "millisecond \<le> d" "d \<le> 500 * millisecond"
  shows "\<bar>riskChainEWMANs (observeChainCost d l) - d\<bar> =
    \<bar>d - riskChainEWMANs l\<bar> - \<bar>d - riskChainEWMANs l\<bar> div 8"
  using assms ewma_step_distance [of "riskChainEWMANs l" d]
  by (simp add: observeChainCost_def Let_def clamp_sample_def)

lemma observe_settles:
  assumes "millisecond \<le> d" "d \<le> 500 * millisecond"
  shows "\<exists>n. \<forall>m\<ge>n. \<bar>riskChainEWMANs ((observeChainCost d ^^ m) l) - d\<bar> < 8"
proof -
  let ?e = "\<lambda>m. \<bar>riskChainEWMANs ((observeChainCost d ^^ m) l) - d\<bar>"
  have step: "?e (Suc m) = ?e m - ?e m div 8" for m
    using observe_distance [OF assms, of "(observeChainCost d ^^ m) l"] by (simp add: abs_minus_commute)
  have down: "?e m < 8 \<or> ?e m \<le> ?e 0 - int m" for m
  proof (induction m)
    case (Suc m)
    show ?case
    proof (cases "?e m < 8")
      case True
      then show ?thesis using step [of m] by simp
    next
      case False
      then have "1 \<le> ?e m div 8" by simp
      with False Suc show ?thesis using step [of m] by simp
    qed
  qed simp
  have "?e m < 8" if "nat (?e 0) \<le> m" for m
  proof -
    have "?e m < 8 \<or> ?e m \<le> 0" using down [of m] that by linarith
    then show ?thesis by linarith
  qed
  then show ?thesis by blast
qed

section \<open>The stride\<close>

text \<open>The calibrated stride is a power of two between 256 and 8192: the largest that fits the target,
  or 256.\<close>

lemma grow_stride_pow2:
  "k \<le> 13 \<Longrightarrow> \<exists>j. k \<le> j \<and> j \<le> 13 \<and> grow_stride fits (2 ^ k) = 2 ^ j \<and>
     (j < 13 \<longrightarrow> \<not> fits (2 ^ Suc j)) \<and> (\<forall>i. k < i \<and> i \<le> j \<longrightarrow> fits (2 ^ i))"
proof (induction "13 - k" arbitrary: k)
  case 0
  then have "k = 13" by simp
  then show ?case by (intro exI [of _ 13]) (auto simp: grow_stride.simps)
next
  case (Suc n)
  then have k: "k < 13" by simp
  then have "(2 :: nat) ^ k < 2 ^ 13" by (intro power_strict_increasing) auto
  then have lt: "(2 :: nat) ^ k < 8192" by simp
  show ?case
  proof (cases "fits (2 ^ Suc k)")
    case True
    obtain j where j: "Suc k \<le> j" "j \<le> 13" "grow_stride fits (2 ^ Suc k) = 2 ^ j"
        "j < 13 \<longrightarrow> \<not> fits (2 ^ Suc j)" "\<forall>i. Suc k < i \<and> i \<le> j \<longrightarrow> fits (2 ^ i)"
      using Suc.hyps(1) [of "Suc k"] Suc.hyps(2) k
    proof -
      have "n = 13 - Suc k" "Suc k \<le> 13" using Suc.hyps(2) k by auto
      from Suc.hyps(1) [OF this] that show thesis by blast
    qed
    have "grow_stride fits (2 ^ k) = grow_stride fits (2 ^ Suc k)"
      using True lt by (subst grow_stride.simps) (simp add: mult.commute)
    moreover have "\<forall>i. k < i \<and> i \<le> j \<longrightarrow> fits (2 ^ i)"
      using j(5) True by (metis Suc_lessI)
    ultimately show ?thesis using j by (intro exI [of _ j]) auto
  next
    case False
    then have "grow_stride fits (2 ^ k) = 2 ^ k"
      by (subst grow_stride.simps) (simp add: mult.commute)
    with False k show ?thesis by (intro exI [of _ k]) auto
  qed
qed

lemma calibrated_mask:
  obtains j where "8 \<le> j" "j \<le> 13" "yield_mask (yield_stride '''' fits) = mask j"
    "j < 13 \<longrightarrow> \<not> fits (2 ^ Suc j)" "\<forall>i. 8 < i \<and> i \<le> j \<longrightarrow> fits (2 ^ i)"
proof -
  obtain j where j: "8 \<le> j" "j \<le> 13" "grow_stride fits (2 ^ 8) = 2 ^ j"
      "j < 13 \<longrightarrow> \<not> fits (2 ^ Suc j)" "\<forall>i. 8 < i \<and> i \<le> j \<longrightarrow> fits (2 ^ i)"
    using grow_stride_pow2 [of 8 fits] by auto
  have "(2 :: u32) ^ j \<noteq> 0" using j(2) by simp
  then have "yield_mask (yield_stride '''' fits) = mask j"
    using j(3) by (simp add: yield_stride_def yield_mask_def mask_eq_exp_minus_1)
  with j show thesis by (intro that) auto
qed

lemma calibrated_cases:
  obtains j where "8 \<le> j" "j \<le> 13" "snd (calibrateRisk F ss ds '''' l) = mask j"
    "j < 13 \<longrightarrow> \<not> stride_fits F (unit_cost ss) (2 ^ Suc j)"
    "\<forall>i. 8 < i \<and> i \<le> j \<longrightarrow> stride_fits F (unit_cost ss) (2 ^ i)"
  by (rule calibrated_mask [of "stride_fits F (unit_cost ss)"]) (auto simp: calibrateRisk_def Let_def intro: that)

text \<open>On exact arithmetic a stride fits when its share of the 50,000 rounds takes at most a millisecond.\<close>

lemma stride_fits_exact:
  assumes "exact_float F" "0 < unitCost"
  shows "stride_fits F unitCost s \<longleftrightarrow> int s * unitCost \<le> 50000 * millisecond"
proof -
  have "stride_fits F unitCost s \<longleftrightarrow> real s \<le> real_of_int millisecond / (real_of_int unitCost / 50000)"
    using assms(1) by (simp add: stride_fits_def exact_float_def Let_def)
  also have "\<dots> \<longleftrightarrow> real s * real_of_int unitCost \<le> 50000 * real_of_int millisecond"
    using assms(2) by (simp add: field_simps)
  also have "\<dots> \<longleftrightarrow> real_of_int (int s * unitCost) \<le> real_of_int (50000 * millisecond)"
    by simp
  finally show ?thesis by (simp only: of_int_le_iff)
qed

text \<open>The estimate is seeded with one of the contended durations.\<close>

lemma contended_cost_in: "ds \<noteq> [] \<Longrightarrow> contended_cost ds \<in> set ds"
proof -
  assume "ds \<noteq> []"
  then have "length ds div 2 < length (sort ds)" by simp
  then have "sort ds ! (length ds div 2) \<in> set (sort ds)" by (rule nth_mem)
  then show ?thesis by (simp add: contended_cost_def)
qed

end
