(* ===== verification/Waiter_Stack.thy ===== *)
theory Waiter_Stack
  imports Prelude
begin

text \<open>
  The LIFO stack of parked \<open>/risk\<close> waiters of \<open>app/main.go\<close>: a linked list of \<open>riskWaiter\<close> structs
  in a heap, with \<open>riskStackTop\<close> and \<open>riskStackDepth\<close>; the push of \<open>riskSubmit\<close> and the pop loop of
  \<open>riskTakeWork\<close>. The pop loop follows \<open>next\<close> pointers, so it is a \<open>partial_function\<close>: that it ends,
  and what it returns, is proved against \<open>scan\<close>, a function on the list of waiters, newest first.
\<close>

section \<open>Waiters in a heap\<close>

text \<open>\<open>wresult\<close> is the content of the one-place channel; \<open>wctx_done\<close> says that the request's context
  has ended; \<open>wenqueued\<close> is a time in nanoseconds.\<close>

record waiter =
  wseed :: string
  wresult :: "string option"
  wctx_done :: bool
  wnext :: "nat option"
  wenqueued :: int
  wtaken :: bool
  wabandoned :: bool

type_synonym heap = "nat \<rightharpoonup> waiter"

record wstack =
  heap :: heap
  riskStackTop :: "nat option"
  riskStackDepth :: int

definition new_waiter :: "string \<Rightarrow> bool \<Rightarrow> int \<Rightarrow> nat option \<Rightarrow> waiter" where
  "new_waiter seed ctx time nxt =
     \<lparr>wseed = seed, wresult = None, wctx_done = ctx, wnext = nxt, wenqueued = time,
      wtaken = False, wabandoned = False\<rparr>"

definition stack_push :: "nat \<Rightarrow> string \<Rightarrow> bool \<Rightarrow> int \<Rightarrow> 'a wstack_scheme \<Rightarrow> 'a wstack_scheme" where
  "stack_push a seed ctx time s =
     s\<lparr>heap := (heap s)(a \<mapsto> new_waiter seed ctx time (riskStackTop s)),
       riskStackTop := Some a, riskStackDepth := riskStackDepth s + 1\<rparr>"

section \<open>\<open>riskTakeWork\<close>\<close>

text \<open>What happens to a popped waiter.\<close>

datatype fate = Dead | Stale | Live

definition waiter_fate :: "int \<Rightarrow> int \<Rightarrow> waiter \<Rightarrow> fate" where
  "waiter_fate time stale w =
     (if wabandoned w \<or> wctx_done w then Dead
      else if time - wenqueued w > stale then Stale else Live)"

definition pop_top :: "waiter \<Rightarrow> 'a wstack_scheme \<Rightarrow> 'a wstack_scheme" where
  "pop_top w s = s\<lparr>riskStackTop := wnext w, riskStackDepth := riskStackDepth s - 1\<rparr>"

definition set_taken :: "nat \<Rightarrow> waiter \<Rightarrow> 'a wstack_scheme \<Rightarrow> 'a wstack_scheme" where
  "set_taken a w s = s\<lparr>heap := (heap s)(a \<mapsto> w\<lparr>wtaken := True\<rparr>)\<rparr>"

text \<open>The loop, with the waiters taken so far and the errors charged for stale ones. \<open>None\<close> is a run
  that does not end or that follows a dangling pointer.\<close>

partial_function (option) take_loop ::
  "int \<Rightarrow> int \<Rightarrow> nat \<Rightarrow> 'a wstack_scheme \<Rightarrow> nat list \<Rightarrow> nat \<Rightarrow>
     ('a wstack_scheme \<times> nat list \<times> nat) option"
where
  "take_loop time stale want s taken charged =
     (if length taken < want
      then case riskStackTop s of
             None \<Rightarrow> Some (s, taken, charged)
           | Some a \<Rightarrow>
               (case heap s a of
                  None \<Rightarrow> None
                | Some w \<Rightarrow>
                    (case waiter_fate time stale w of
                       Dead \<Rightarrow> take_loop time stale want (pop_top w s) taken charged
                     | Stale \<Rightarrow> take_loop time stale want (pop_top w s) taken (charged + 1)
                     | Live \<Rightarrow>
                         take_loop time stale want (set_taken a w (pop_top w s)) (taken @ [a]) charged))
      else Some (s, taken, charged))"

definition riskTakeWork ::
  "int \<Rightarrow> int \<Rightarrow> nat \<Rightarrow> 'a wstack_scheme \<Rightarrow> ('a wstack_scheme \<times> nat list \<times> nat) option" where
  "riskTakeWork time stale want s = take_loop time stale want s [] 0"

section \<open>The list a heap represents\<close>

primrec linked :: "heap \<Rightarrow> nat option \<Rightarrow> nat list \<Rightarrow> bool" where
  "linked h p [] = (p = None)"
| "linked h p (a # as) = (p = Some a \<and> (\<exists>w. h a = Some w \<and> linked h (wnext w) as))"

definition rep :: "'a wstack_scheme \<Rightarrow> nat list \<Rightarrow> bool" where
  "rep s xs \<longleftrightarrow> linked (heap s) (riskStackTop s) xs \<and> riskStackDepth s = int (length xs)"

lemma linked_cong:
  "(\<And>a. a \<in> set xs \<Longrightarrow> map_option wnext (h a) = map_option wnext (h' a)) \<Longrightarrow>
     linked h p xs = linked h' p xs"
proof (induction xs arbitrary: p)
  case (Cons a xs)
  have "map_option wnext (h a) = map_option wnext (h' a)" by (rule Cons.prems) simp
  moreover have "linked h q xs = linked h' q xs" for q
    by (rule Cons.IH) (simp add: Cons.prems)
  ultimately show ?case by (cases "h a"; cases "h' a") auto
qed simp

lemma linked_unique: "linked h p xs \<Longrightarrow> linked h p ys \<Longrightarrow> xs = ys"
proof (induction xs arbitrary: p ys)
  case Nil
  then show ?case by (cases ys) auto
next
  case (Cons a xs)
  then show ?case by (cases ys) auto
qed

lemma linked_append: "linked h p (xs @ ys) \<Longrightarrow> \<exists>q. linked h q ys"
  by (induction xs arbitrary: p) auto

lemma linked_distinct: "linked h p xs \<Longrightarrow> distinct xs"
proof (induction xs arbitrary: p)
  case (Cons a xs)
  then obtain w where w: "h a = Some w" "linked h (wnext w) xs" by auto
  have "a \<notin> set xs"
  proof
    assume "a \<in> set xs"
    then obtain us vs where "xs = us @ a # vs" by (auto simp: in_set_conv_decomp)
    with w(2) have "\<exists>q. linked h q (a # vs)" by (auto dest: linked_append)
    with w(1) have "linked h (wnext w) vs" by auto
    with w(2) have "xs = vs" by (rule linked_unique)
    with \<open>xs = us @ a # vs\<close> show False by simp
  qed
  with Cons.IH [OF w(2)] show ?case by simp
qed simp

lemma linked_heap: "linked h p xs \<Longrightarrow> a \<in> set xs \<Longrightarrow> h a \<noteq> None"
  by (induction xs arbitrary: p) auto

section \<open>The interface: an admission stack\<close>

text \<open>What one scan of the stack does, on the list of waiters (newest first): the waiters taken, the
  rest of the stack, and the number of stale waiters passed.\<close>

fun scan :: "(nat \<Rightarrow> fate) \<Rightarrow> nat \<Rightarrow> nat list \<Rightarrow> nat list \<times> nat list \<times> nat" where
  "scan f 0 xs = ([], xs, 0)"
| "scan f (Suc n) [] = ([], [], 0)"
| "scan f (Suc n) (a # xs) =
     (case f a of
        Dead \<Rightarrow> scan f (Suc n) xs
      | Stale \<Rightarrow> (let (t, r, c) = scan f (Suc n) xs in (t, r, c + 1))
      | Live \<Rightarrow> (let (t, r, c) = scan f n xs in (a # t, r, c)))"

text \<open>A stack that pushes on top and takes by such a scan.\<close>

locale lifo_stack =
  fixes repr :: "'s \<Rightarrow> nat list \<Rightarrow> bool"
    and fate_of :: "'s \<Rightarrow> nat \<Rightarrow> fate"
    and push :: "nat \<Rightarrow> 's \<Rightarrow> 's"
    and take_work :: "nat \<Rightarrow> 's \<Rightarrow> ('s \<times> nat list \<times> nat) option"
  assumes push_repr: "repr s xs \<Longrightarrow> a \<notin> set xs \<Longrightarrow> repr (push a s) (a # xs)"
    and take_repr: "repr s xs \<Longrightarrow>
      \<exists>s'. take_work n s = Some (s', fst (scan (fate_of s) n xs), snd (snd (scan (fate_of s) n xs))) \<and>
           repr s' (fst (snd (scan (fate_of s) n xs)))"
begin

text \<open>The scan splits the stack: what it passes is the taken waiters among dead and stale ones, and
  it stops early only at the bottom.\<close>

lemma scan_prefix:
  "scan f n xs = (t, r, c) \<Longrightarrow> \<exists>p. xs = p @ r \<and> t = filter (\<lambda>a. f a = Live) p \<and>
     c = length (filter (\<lambda>a. f a = Stale) p)"
proof (induction f n xs arbitrary: t r c rule: scan.induct)
  case (3 f n a xs)
  show ?case
  proof (cases "f a")
    case Dead
    with 3 obtain p where "xs = p @ r \<and> t = filter (\<lambda>a. f a = Live) p \<and>
        c = length (filter (\<lambda>a. f a = Stale) p)" by auto
    with Dead show ?thesis by (intro exI [of _ "a # p"]) simp
  next
    case Stale
    with "3.prems" obtain c' where "scan f (Suc n) xs = (t, r, c')" "c = c' + 1"
      by (auto split: prod.splits)
    with 3 Stale obtain p where "xs = p @ r \<and> t = filter (\<lambda>a. f a = Live) p \<and>
        c' = length (filter (\<lambda>a. f a = Stale) p)" by auto
    with Stale \<open>c = c' + 1\<close> show ?thesis by (intro exI [of _ "a # p"]) simp
  next
    case Live
    with "3.prems" obtain t' where "scan f n xs = (t', r, c)" "t = a # t'"
      by (auto split: prod.splits)
    with 3 Live obtain p where "xs = p @ r \<and> t' = filter (\<lambda>a. f a = Live) p \<and>
        c = length (filter (\<lambda>a. f a = Stale) p)" by auto
    with Live \<open>t = a # t'\<close> show ?thesis by (intro exI [of _ "a # p"]) simp
  qed
qed auto

lemma scan_bound: "scan f n xs = (t, r, c) \<Longrightarrow> length t \<le> n"
  by (induction f n xs arbitrary: t r c rule: scan.induct)
    (auto split: fate.splits prod.splits)

lemma scan_short: "scan f n xs = (t, r, c) \<Longrightarrow> length t < n \<Longrightarrow> r = []"
  by (induction f n xs arbitrary: t r c rule: scan.induct)
    (auto split: fate.splits prod.splits)

lemma take_returns: "repr s xs \<Longrightarrow> \<exists>s' t c. take_work n s = Some (s', t, c)"
  using take_repr by blast

text \<open>Adaptive LIFO: a live waiter that has just been pushed is the first one served.\<close>

lemma newest_first:
  assumes "repr s xs" "a \<notin> set xs" "fate_of (push a s) a = Live"
  shows "\<exists>s' t c. take_work (Suc n) (push a s) = Some (s', a # t, c)"
  using take_repr [OF push_repr [OF assms(1,2)], of "Suc n"] assms(3)
  by (auto split: prod.splits)

text \<open>A take that returns fewer waiters than asked has emptied the stack.\<close>

lemma short_take_empties:
  assumes "repr s xs" "take_work n s = Some (s', t, c)" "length t < n"
  shows "repr s' []"
proof -
  obtain t' r c' where sc: "scan (fate_of s) n xs = (t', r, c')" by (cases "scan (fate_of s) n xs")
  with take_repr [OF assms(1), of n] assms(2) have "t = t'" "repr s' r" by auto
  with scan_short [OF sc] assms(3) show ?thesis by simp
qed

end

section \<open>The linked heap is an admission stack\<close>

definition heap_fate :: "int \<Rightarrow> int \<Rightarrow> 'a wstack_scheme \<Rightarrow> nat \<Rightarrow> fate" where
  "heap_fate time stale s a =
     (case heap s a of None \<Rightarrow> Dead | Some w \<Rightarrow> waiter_fate time stale w)"

definition mark_taken :: "nat set \<Rightarrow> heap \<Rightarrow> heap" where
  "mark_taken A h = (\<lambda>a. if a \<in> A then map_option (wtaken_update (\<lambda>_. True)) (h a) else h a)"

lemma mark_taken_empty [simp]: "mark_taken {} h = h"
  by (simp add: mark_taken_def)

lemma mark_taken_insert:
  "h a = Some w \<Longrightarrow> mark_taken A (h(a \<mapsto> w\<lparr>wtaken := True\<rparr>)) = mark_taken (insert a A) h"
  by (auto simp: mark_taken_def fun_eq_iff)

lemma rep_nil [simp]: "rep s [] \<longleftrightarrow> riskStackTop s = None \<and> riskStackDepth s = 0"
  by (simp add: rep_def)

lemma rep_cons:
  "rep s (a # xs) \<longleftrightarrow>
     (\<exists>w. riskStackTop s = Some a \<and> heap s a = Some w \<and> linked (heap s) (wnext w) xs \<and>
          riskStackDepth s = int (length xs) + 1)"
  by (auto simp: rep_def)

lemma rep_distinct: "rep s xs \<Longrightarrow> distinct xs"
  by (auto simp: rep_def intro: linked_distinct)

lemma rep_heap: "rep s xs \<Longrightarrow> a \<in> set xs \<Longrightarrow> heap s a \<noteq> None"
  by (auto simp: rep_def dest: linked_heap)

lemma rep_pop:
  "rep s (a # xs) \<Longrightarrow> heap s a = Some w \<Longrightarrow> rep (pop_top w s) xs"
  by (auto simp: rep_def pop_top_def)

lemma rep_set_taken:
  "rep s xs \<Longrightarrow> heap s a = Some w \<Longrightarrow> rep (set_taken a w s) xs"
  by (auto simp: rep_def set_taken_def intro: linked_cong [THEN iffD1, rotated])

lemma rep_push:
  assumes "rep s xs" "a \<notin> set xs"
  shows "rep (stack_push a seed ctx time s) (a # xs)"
proof -
  have "linked ((heap s)(a \<mapsto> w)) (riskStackTop s) xs = linked (heap s) (riskStackTop s) xs" for w
    by (rule linked_cong) (use assms(2) in auto)
  with assms(1) show ?thesis by (simp add: rep_def stack_push_def new_waiter_def)
qed

lemma scan_cong:
  "(\<And>a. a \<in> set xs \<Longrightarrow> f a = g a) \<Longrightarrow> scan f n xs = scan g n xs"
  by (induction f n xs rule: scan.induct) (auto split: fate.splits)

lemma heap_fate_pop [simp]: "heap_fate time stale (pop_top w s) = heap_fate time stale s"
  by (simp add: heap_fate_def pop_top_def fun_eq_iff)

lemma heap_fate_set_taken [simp]:
  "heap s a = Some w \<Longrightarrow> heap_fate time stale (set_taken a w s) = heap_fate time stale s"
  by (auto simp: heap_fate_def set_taken_def fun_eq_iff waiter_fate_def)

lemma pop_top_fields [simp]:
  "heap (pop_top w s) = heap s" "wstack.more (pop_top w s) = wstack.more s"
  by (simp_all add: pop_top_def)

text \<open>The pop loop ends and does one scan; of the heap it changes only the \<open>taken\<close> flags of the
  waiters it returns.\<close>

lemma take_loop_scan:
  assumes "rep s xs" "length taken \<le> want"
    and "scan (heap_fate time stale s) (want - length taken) xs = (t, r, c)"
  shows "\<exists>s'. take_loop time stale want s taken charged = Some (s', taken @ t, charged + c) \<and>
    rep s' r \<and> heap s' = mark_taken (set t) (heap s) \<and> wstack.more s' = wstack.more s"
  using assms
proof (induction xs arbitrary: s taken charged t r c)
  case Nil
  then show ?case
    by (cases "want - length taken") (auto simp: take_loop.simps [of _ _ _ s])
next
  case (Cons a xs)
  show ?case
  proof (cases "want - length taken")
    case 0
    with Cons.prems show ?thesis by (auto simp: take_loop.simps [of _ _ _ s])
  next
    case (Suc n)
    from Cons.prems(1) obtain w where top: "riskStackTop s = Some a" and w: "heap s a = Some w"
      by (auto simp: rep_cons)
    have lt: "length taken < want" using Suc by simp
    have pop: "rep (pop_top w s) xs" by (rule rep_pop [OF Cons.prems(1) w])
    note step = take_loop.simps [of time stale want s]
    show ?thesis
    proof (cases "waiter_fate time stale w")
      case Dead
      with Cons.prems(3) Suc w
      have "scan (heap_fate time stale (pop_top w s)) (want - length taken) xs = (t, r, c)"
        by (simp add: heap_fate_def [of _ _ s a])
      from Cons.IH [OF pop Cons.prems(2) this] show ?thesis
        using Dead top w lt by (simp add: step)
    next
      case Stale
      with Cons.prems(3) Suc w obtain c' where
        "scan (heap_fate time stale (pop_top w s)) (want - length taken) xs = (t, r, c')" "c = c' + 1"
        by (auto simp: heap_fate_def [of _ _ s a] split: prod.splits)
      with Cons.IH [OF pop Cons.prems(2) this(1), of "charged + 1"] show ?thesis
        using Stale top w lt by (auto simp: step)
    next
      case Live
      let ?s = "set_taken a w (pop_top w s)"
      from Live Cons.prems(3) Suc w obtain t' where t':
        "scan (heap_fate time stale s) n xs = (t', r, c)" "t = a # t'"
        by (auto simp: heap_fate_def [of _ _ s a] split: prod.splits)
      have "rep ?s xs" by (rule rep_set_taken [OF pop]) (simp add: w)
      moreover have "length (taken @ [a]) \<le> want" using lt by simp
      moreover have "want - length (taken @ [a]) = n" using Suc by simp
      with t'(1) have "scan (heap_fate time stale ?s) (want - length (taken @ [a])) xs = (t', r, c)"
        by (simp add: w)
      ultimately obtain s' where
        "take_loop time stale want ?s (taken @ [a]) charged = Some (s', (taken @ [a]) @ t', charged + c)"
        "rep s' r" "heap s' = mark_taken (set t') (heap ?s)" "wstack.more s' = wstack.more ?s"
        using Cons.IH by metis
      then show ?thesis
        using Live top w lt t'(2) mark_taken_insert [of "heap s" a, OF w]
        by (simp add: step) (simp add: set_taken_def)
    qed
  qed
qed

lemma riskTakeWork_scan:
  assumes "rep s xs" "scan (heap_fate time stale s) n xs = (t, r, c)"
  shows "\<exists>s'. riskTakeWork time stale n s = Some (s', t, c) \<and> rep s' r \<and>
    heap s' = mark_taken (set t) (heap s) \<and> wstack.more s' = wstack.more s"
  using take_loop_scan [OF assms(1), of "[]" n time stale t r c 0] assms(2)
  by (simp add: riskTakeWork_def)

interpretation lifo: lifo_stack rep "heap_fate time stale"
  "\<lambda>a. stack_push a seed ctx born" "riskTakeWork time stale"
  for time stale seed ctx born
proof unfold_locales
  fix s :: "'a wstack_scheme" and xs a
  assume "rep s xs" "a \<notin> set xs"
  then show "rep (stack_push a seed ctx born s) (a # xs)" by (rule rep_push)
next
  fix s :: "'a wstack_scheme" and xs n
  assume rep: "rep s xs"
  obtain t r c where "scan (heap_fate time stale s) n xs = (t, r, c)" by (rule prod_cases3)
  with riskTakeWork_scan [OF rep this]
  show "\<exists>s'. riskTakeWork time stale n s =
      Some (s', fst (scan (heap_fate time stale s) n xs), snd (snd (scan (heap_fate time stale s) n xs))) \<and>
      rep s' (fst (snd (scan (heap_fate time stale s) n xs)))"
    by auto
qed

end
