(* ===== verification/Gate.thy ===== *)
theory Gate
  imports Waiter_Stack Governor Latency Chain
begin

text \<open>
  The \<open>/risk\<close> admission gate of \<open>app/main.go\<close> as a concurrent system: any number of request goroutines
  inside \<open>riskSubmit\<close>, the goroutines of \<open>riskWorker\<close>, and the environment (arrivals, disconnects, the
  clock, responses counted elsewhere), interleaved. A step is a critical section of \<open>riskMu\<close>, an
  atomic access, a channel operation, or the run of a chain kernel. The submitter of the \<open>i\<close>-th
  request owns waiter \<open>i\<close>. \<open>gate_exec\<close> computes one step, \<open>None\<close> when it is not enabled.
\<close>

section \<open>The state\<close>

text \<open>Where a request goroutine is in \<open>riskSubmit\<close>.\<close>

datatype sub_pc =
    SEnter string bool  \<comment> \<open>before the first \<open>Lock\<close>: the seed; has the context ended?\<close>
  | SBackstop  \<comment> \<open>backstop hit, before the charge\<close>
  | SNotify  \<comment> \<open>pushed, before the send on \<open>riskWork\<close>\<close>
  | STimer  \<comment> \<open>before \<open>NewTimer\<close>\<close>
  | SWait int  \<comment> \<open>in the \<open>select\<close>, with the deadline of the timer\<close>
  | SLeave bool  \<comment> \<open>after \<open>break wait\<close>, before the second \<open>Lock\<close>: \<open>reserved\<close>\<close>
  | SRefund  \<comment> \<open>taken by a worker, before the reservation is returned\<close>
  | SRecv  \<comment> \<open>in the final receive\<close>
  | SAbandon  \<comment> \<open>abandoned on the disconnect path, before the charge\<close>
  | SReturn "string option"  \<comment> \<open>returned: \<open>None\<close> is \<open>ok = false\<close>\<close>

text \<open>What a worker still does for a batch: \<open>observeChainCost\<close> (a load, then two stores, not atomic
  together) and the sends of the digests.\<close>

datatype wop = Obs int | StoreE int | StoreP int | Send nat string

text \<open>Where a worker is in \<open>riskWorker\<close>; \<open>WDead\<close> is a panic (or a take that never returns).\<close>

datatype wrk_pc =
    WTop
  | WTake nat  \<comment> \<open>\<open>lanes\<close> chosen\<close>
  | WIdleInc | WRecv | WIdleDec
  | WWork "nat list"  \<comment> \<open>holding waiters, before the kernel dispatch\<close>
  | WOps "wop list" "nat list"  \<comment> \<open>delivering; the waiters left for the pair and serial loops\<close>
  | WRest "nat list"
  | WDead

record gate = wstack +
  cnt :: counters
  lat :: latency
  clock :: int
  riskWork :: nat
  riskIdleWorkers :: int
  subs :: "sub_pc list"
  workers :: "wrk_pc list"

definition gate_init :: "nat \<Rightarrow> counters \<Rightarrow> latency \<Rightarrow> int \<Rightarrow> gate" where
  "gate_init slots c l time =
     \<lparr>heap = Map.empty, riskStackTop = None, riskStackDepth = 0, cnt = c, lat = l, clock = time,
      riskWork = 0, riskIdleWorkers = 0, subs = [], workers = replicate slots WTop\<rparr>"

definition set_sub :: "nat \<Rightarrow> sub_pc \<Rightarrow> gate \<Rightarrow> gate" where
  "set_sub i pc g = g\<lparr>subs := (subs g)[i := pc]\<rparr>"

definition set_wrk :: "nat \<Rightarrow> wrk_pc \<Rightarrow> gate \<Rightarrow> gate" where
  "set_wrk j pc g = g\<lparr>workers := (workers g)[j := pc]\<rparr>"

definition charge :: "int \<Rightarrow> gate \<Rightarrow> gate" where
  "charge n g = g\<lparr>cnt := (cnt g)\<lparr>respErr := respErr (cnt g) + n\<rparr>\<rparr>"

definition set_waiter :: "nat \<Rightarrow> waiter \<Rightarrow> gate \<Rightarrow> gate" where
  "set_waiter a w g = g\<lparr>heap := (heap g)(a \<mapsto> w)\<rparr>"

section \<open>\<open>riskSubmit\<close>\<close>

definition riskStackBackstop :: int where "riskStackBackstop = 2048"

text \<open>What the scheduler chooses: which ready case of the \<open>select\<close> runs, and the value of \<open>respOK\<close> that
  \<open>shedReserveError\<close> had loaded before its deciding access of \<open>respErr\<close>.\<close>

datatype choice = Go int | GotResult | GotDone | GotTimer int

text \<open>The first critical section: backstop, front-door shed, or push.\<close>

definition front_door :: "int \<Rightarrow> nat \<Rightarrow> int \<Rightarrow> string \<Rightarrow> bool \<Rightarrow> gate \<Rightarrow> gate" where
  "front_door bp i seen seed ctx g =
     (if riskStackBackstop \<le> riskStackDepth g then set_sub i SBackstop g
      else if 0 < riskStackDepth g \<and> riskIdleWorkers g = 0 \<and> shed_admit bp seen (respErr (cnt g))
      then set_sub i (SReturn None) (charge 1 g)
      else set_sub i SNotify (stack_push i seed ctx (clock g) g))"

text \<open>The non-blocking send on the wake channel, of capacity 16.\<close>

definition notify :: "gate \<Rightarrow> gate" where
  "notify g = (if riskWork g < 16 then g\<lparr>riskWork := riskWork g + 1\<rparr> else g)"

text \<open>The patience timer has fired.\<close>

definition patience_fired :: "int \<Rightarrow> nat \<Rightarrow> int \<Rightarrow> gate \<Rightarrow> gate" where
  "patience_fired bp i seen g =
     (if shed_admit bp seen (respErr (cnt g)) then set_sub i (SLeave True) (charge 1 g)
      else set_sub i (SWait (clock g + 100 * millisecond)) g)"

text \<open>The second critical section: owned by a worker, or abandoned.\<close>

definition leave_wait :: "nat \<Rightarrow> bool \<Rightarrow> waiter \<Rightarrow> gate \<Rightarrow> gate" where
  "leave_wait i reserved w g =
     (if wtaken w then set_sub i (if reserved then SRefund else SRecv) g
      else set_sub i (if reserved then SReturn None else SAbandon)
             (set_waiter i (w\<lparr>wabandoned := True\<rparr>) g))"

text \<open>A receive on \<open>w.result\<close>.\<close>

definition receive :: "nat \<Rightarrow> waiter \<Rightarrow> gate \<Rightarrow> gate option" where
  "receive i w g =
     (case wresult w of
        None \<Rightarrow> None
      | Some h \<Rightarrow> Some (set_sub i (SReturn (Some h)) (set_waiter i (w\<lparr>wresult := None\<rparr>) g)))"

fun sub_step :: "int \<Rightarrow> nat \<Rightarrow> choice \<Rightarrow> sub_pc \<Rightarrow> gate \<Rightarrow> gate option" where
  "sub_step bp i (Go seen) (SEnter seed ctx) g =
     (if seen \<le> respOK (cnt g) then Some (front_door bp i seen seed ctx g) else None)"
| "sub_step bp i (Go seen) SBackstop g = Some (set_sub i (SReturn None) (charge 1 g))"
| "sub_step bp i (Go seen) SNotify g = Some (set_sub i STimer (notify g))"
| "sub_step bp i (Go seen) STimer g = Some (set_sub i (SWait (clock g + riskPatienceNs (lat g))) g)"
| "sub_step bp i GotResult (SWait deadline) g =
     (case heap g i of None \<Rightarrow> None | Some w \<Rightarrow> receive i w g)"
| "sub_step bp i GotDone (SWait deadline) g =
     (case heap g i of
        None \<Rightarrow> None
      | Some w \<Rightarrow> if wctx_done w then Some (set_sub i (SLeave False) g) else None)"
| "sub_step bp i (GotTimer seen) (SWait deadline) g =
     (if deadline \<le> clock g \<and> seen \<le> respOK (cnt g) then Some (patience_fired bp i seen g) else None)"
| "sub_step bp i (Go seen) (SLeave reserved) g =
     (case heap g i of None \<Rightarrow> None | Some w \<Rightarrow> Some (leave_wait i reserved w g))"
| "sub_step bp i (Go seen) SRefund g = Some (set_sub i SRecv (charge (- 1) g))"
| "sub_step bp i (Go seen) SRecv g = (case heap g i of None \<Rightarrow> None | Some w \<Rightarrow> receive i w g)"
| "sub_step bp i (Go seen) SAbandon g = Some (set_sub i (SReturn None) (charge 1 g))"
| "sub_step bp i _ _ g = None"

lemmas sub_step_defs = front_door_def patience_fired_def leave_wait_def receive_def

section \<open>\<open>riskWorker\<close>\<close>

definition choose_lanes :: "kernels \<Rightarrow> int \<Rightarrow> nat" where
  "choose_lanes k depth =
     (let lanes = (if riskChainX16 k \<noteq> None \<and> riskX16MinBatch k \<le> depth then 16 else 1);
          lanes = (if lanes = 1 \<and> riskChainQuad k \<noteq> None then 4 else lanes);
          lanes = (if lanes = 1 \<and> riskSumPair k \<noteq> None then 2 else lanes)
      in lanes)"

text \<open>The kernel runs of the loop body, for the seeds \<open>sd\<close> of the waiters held and the measured duration
  \<open>d\<close>: what remains to be done for this run, and the waiters left for the next. \<open>None\<close> is a panic:
  a \<open>nil\<close> kernel, a kernel that panics, \<open>outs[i]\<close> out of range.\<close>

definition x16_run :: "kernels \<Rightarrow> (nat \<Rightarrow> string) \<Rightarrow> nat list \<Rightarrow> int \<Rightarrow> (wop list \<times> nat list) option" where
  "x16_run k sd ids d =
     (case riskChainX16 k of
        None \<Rightarrow> None
      | Some f \<Rightarrow>
          (case f (map sd ids) of
             None \<Rightarrow> None
           | Some outs \<Rightarrow>
               if length outs < length ids then None
               else Some (concat (map (\<lambda>(a, h). [Obs d, Send a h]) (zip ids outs)), [])))"

definition quad_run :: "kernels \<Rightarrow> (nat \<Rightarrow> string) \<Rightarrow> nat list \<Rightarrow> int \<Rightarrow> (wop list \<times> nat list) option" where
  "quad_run k sd ids d =
     (case riskChainQuad k of
        None \<Rightarrow> None
      | Some f \<Rightarrow>
          (let (h0, h1, h2, h3) = f (sd (ids ! 0)) (sd (ids ! 1)) (sd (ids ! 2)) (sd (ids ! 3))
           in Some (replicate (length ids) (Obs d) @
                [Send (ids ! 0) h0, Send (ids ! 1) h1, Send (ids ! 2) h2, Send (ids ! 3) h3], [])))"

fun rest_run :: "kernels \<Rightarrow> (nat \<Rightarrow> string) \<Rightarrow> nat list \<Rightarrow> int \<Rightarrow> (wop list \<times> nat list) option" where
  "rest_run k sd [] d = Some ([], [])"
| "rest_run k sd [a] d = Some ([Obs d, Send a (fst (riskChain k (sd a)))], [])"
| "rest_run k sd (a # b # ids) d =
     (if riskSumPair k \<noteq> None
      then map_option (\<lambda>((ha, hb), ys). ([Obs d, Obs d, Send a ha, Send b hb], ids))
             (riskChainPair k (sd a) (sd b))
      else Some ([Obs d, Send a (fst (riskChain k (sd a)))], b # ids))"

definition dispatch :: "kernels \<Rightarrow> (nat \<Rightarrow> string) \<Rightarrow> nat list \<Rightarrow> int \<Rightarrow> (wop list \<times> nat list) option" where
  "dispatch k sd ids d =
     (if riskChainX16 k \<noteq> None \<and> riskX16MinBatch k \<le> int (length ids) then x16_run k sd ids d
      else if riskChainQuad k \<noteq> None \<and> length ids = 4 then quad_run k sd ids d
      else rest_run k sd ids d)"

definition seed_of :: "gate \<Rightarrow> nat \<Rightarrow> string" where
  "seed_of g a = (case heap g a of None \<Rightarrow> '''' | Some w \<Rightarrow> wseed w)"

definition after_run :: "nat \<Rightarrow> (wop list \<times> nat list) option \<Rightarrow> gate \<Rightarrow> gate" where
  "after_run j r g =
     set_wrk j (case r of None \<Rightarrow> WDead | Some (ops, rest) \<Rightarrow> WOps ops rest) g"

text \<open>The critical section of \<open>riskTakeWork\<close>.\<close>

definition take_step :: "nat \<Rightarrow> nat \<Rightarrow> gate \<Rightarrow> gate" where
  "take_step j lanes g =
     (case riskTakeWork (clock g) (riskPatienceNs (lat g)) lanes g of
        None \<Rightarrow> set_wrk j WDead g
      | Some (g', taken, stale) \<Rightarrow>
          set_wrk j (if taken = [] then WIdleInc else WWork taken) (charge (int stale) g'))"

fun op_step :: "nat \<Rightarrow> wop \<Rightarrow> wop list \<Rightarrow> nat list \<Rightarrow> gate \<Rightarrow> gate option" where
  "op_step j (Obs d) ops rest g =
     (let old = riskChainEWMANs (lat g)
      in Some (set_wrk j (WOps (StoreE (old + (clamp_sample d - old) sdiv 8) # ops) rest) g))"
| "op_step j (StoreE e) ops rest g =
     Some (set_wrk j (WOps (StoreP (patience_for e) # ops) rest)
       (g\<lparr>lat := (lat g)\<lparr>riskChainEWMANs := e\<rparr>\<rparr>))"
| "op_step j (StoreP p) ops rest g =
     Some (set_wrk j (WOps ops rest) (g\<lparr>lat := (lat g)\<lparr>riskPatienceNs := p\<rparr>\<rparr>))"
| "op_step j (Send a h) ops rest g =
     (case heap g a of
        None \<Rightarrow> None
      | Some w \<Rightarrow>
          (case wresult w of
             Some _ \<Rightarrow> None
           | None \<Rightarrow> Some (set_wrk j (WOps ops rest) (set_waiter a (w\<lparr>wresult := Some h\<rparr>) g))))"

fun wrk_step :: "kernels \<Rightarrow> nat \<Rightarrow> int \<Rightarrow> wrk_pc \<Rightarrow> gate \<Rightarrow> gate option" where
  "wrk_step k j d WTop g = Some (set_wrk j (WTake (choose_lanes k (riskStackDepth g))) g)"
| "wrk_step k j d (WTake lanes) g = Some (take_step j lanes g)"
| "wrk_step k j d WIdleInc g =
     Some (set_wrk j WRecv (g\<lparr>riskIdleWorkers := riskIdleWorkers g + 1\<rparr>))"
| "wrk_step k j d WRecv g =
     (if 0 < riskWork g then Some (set_wrk j WIdleDec (g\<lparr>riskWork := riskWork g - 1\<rparr>)) else None)"
| "wrk_step k j d WIdleDec g =
     Some (set_wrk j WTop (g\<lparr>riskIdleWorkers := riskIdleWorkers g - 1\<rparr>))"
| "wrk_step k j d (WWork ids) g = Some (after_run j (dispatch k (seed_of g) ids d) g)"
| "wrk_step k j d (WOps [] rest) g = Some (set_wrk j (WRest rest) g)"
| "wrk_step k j d (WOps (op # ops) rest) g = op_step j op ops rest g"
| "wrk_step k j d (WRest []) g = Some (set_wrk j WTop g)"
| "wrk_step k j d (WRest (a # ids)) g = Some (after_run j (rest_run k (seed_of g) (a # ids) d) g)"
| "wrk_step k j d WDead g = None"

section \<open>Runs of the gate\<close>

datatype gate_event =
    Arrive string bool
  | Cancel nat  \<comment> \<open>the client of request \<open>i\<close> disconnects\<close>
  | Tick int
  | Respond int  \<comment> \<open>\<open>writeJSON\<close> counts a response with this status\<close>
  | Sub nat choice
  | Wrk nat int

definition cancel :: "nat \<Rightarrow> gate \<Rightarrow> gate" where
  "cancel i g =
     (case subs g ! i of
        SEnter seed ctx \<Rightarrow> set_sub i (SEnter seed True) g
      | _ \<Rightarrow> (case heap g i of
                None \<Rightarrow> g
              | Some w \<Rightarrow> set_waiter i (w\<lparr>wctx_done := True\<rparr>) g))"

fun gate_exec :: "kernels \<Rightarrow> int \<Rightarrow> gate_event \<Rightarrow> gate \<Rightarrow> gate option" where
  "gate_exec k bp (Arrive seed ctx) g = Some (g\<lparr>subs := subs g @ [SEnter seed ctx]\<rparr>)"
| "gate_exec k bp (Cancel i) g = (if i < length (subs g) then Some (cancel i g) else None)"
| "gate_exec k bp (Tick d) g = (if 0 \<le> d then Some (g\<lparr>clock := clock g + d\<rparr>) else None)"
| "gate_exec k bp (Respond code) g = Some (g\<lparr>cnt := count_response code (cnt g)\<rparr>)"
| "gate_exec k bp (Sub i ch) g =
     (if i < length (subs g) then sub_step bp i ch (subs g ! i) g else None)"
| "gate_exec k bp (Wrk j d) g =
     (if j < length (workers g) then wrk_step k j d (workers g ! j) g else None)"

inductive gate_runs :: "kernels \<Rightarrow> int \<Rightarrow> gate \<Rightarrow> gate_event list \<Rightarrow> gate \<Rightarrow> bool"
  for k :: kernels and bp :: int and g\<^sub>0 :: gate where
  start: "gate_runs k bp g\<^sub>0 [] g\<^sub>0"
| exec: "gate_runs k bp g\<^sub>0 es g \<Longrightarrow> gate_exec k bp e g = Some g' \<Longrightarrow> gate_runs k bp g\<^sub>0 (es @ [e]) g'"

inductive_cases gate_runs_snocE: "gate_runs k bp g\<^sub>0 (es @ [e]) g"

text \<open>Runs as computations.\<close>

fun run_events :: "kernels \<Rightarrow> int \<Rightarrow> gate_event list \<Rightarrow> gate \<Rightarrow> gate option" where
  "run_events k bp [] g = Some g"
| "run_events k bp (e # es) g =
     (case gate_exec k bp e g of None \<Rightarrow> None | Some g' \<Rightarrow> run_events k bp es g')"

lemma run_events_append:
  "run_events k bp (es @ es') g =
     (case run_events k bp es g of None \<Rightarrow> None | Some g' \<Rightarrow> run_events k bp es' g')"
  by (induction es arbitrary: g) (auto split: option.split)

lemma gate_runs_iff: "gate_runs k bp g es g' \<longleftrightarrow> run_events k bp es g = Some g'"
proof
  assume "gate_runs k bp g es g'"
  then show "run_events k bp es g = Some g'"
    by induction (simp_all add: run_events_append)
next
  assume "run_events k bp es g = Some g'"
  then show "gate_runs k bp g es g'"
  proof (induction es arbitrary: g' rule: rev_induct)
    case (snoc e es)
    then show ?case
      by (auto simp: run_events_append intro: gate_runs.exec split: option.splits)
  qed (auto intro: gate_runs.start)
qed

end
