(* ===== verification/Gate_Invariant.thy ===== *)
theory Gate_Invariant
  imports Gate
begin

text \<open>
  The invariant of the admission gate: the linked stack is well formed, within the backstop, and
  holds untaken waiters only; every waiter a worker has taken is owed exactly one digest, by exactly one
  worker, until it is in the waiter's channel; a digest in a channel or returned is the digest of the
  waiter's seed; no worker panics. What the gate needs of the kernels is the locale \<open>batch_kernels\<close>.
\<close>

section \<open>The interface: kernels that compute a digest function\<close>

locale batch_kernels =
  fixes k :: kernels and digest :: "string \<Rightarrow> string"
  assumes chain: "fst (riskChain k s) = digest s"
    and pair: "riskSumPair k \<noteq> None \<Longrightarrow> map_option fst (riskChainPair k s t) = Some (digest s, digest t)"
    and quad: "riskChainQuad k = Some f \<Longrightarrow> f s t u v = (digest s, digest t, digest u, digest v)"
    and x16: "riskChainX16 k = Some b \<Longrightarrow> length ss \<le> 16 \<Longrightarrow> b ss = Some (map digest ss)"

text \<open>The digests a worker still has to send, in order, and the observations still to be made.\<close>

fun sends :: "wop list \<Rightarrow> (nat \<times> string) list" where
  "sends [] = []"
| "sends (Send a h # ops) = (a, h) # sends ops"
| "sends (_ # ops) = sends ops"

fun observations :: "wop list \<Rightarrow> nat" where
  "observations [] = 0"
| "observations (Obs d # ops) = Suc (observations ops)"
| "observations (_ # ops) = observations ops"

lemma sends_append [simp]: "sends (xs @ ys) = sends xs @ sends ys"
  by (induction xs rule: sends.induct) auto

lemma sends_Obs [simp]: "sends (replicate n (Obs d)) = []"
  by (induction n) auto

lemma sends_interleaved [simp]:
  "sends (concat (map (\<lambda>(a, h). [Obs d, Send a h]) xs)) = xs"
  by (induction xs) auto

lemma observations_append [simp]: "observations (xs @ ys) = observations xs + observations ys"
  by (induction xs rule: observations.induct) auto

lemma observations_Obs [simp]: "observations (replicate n (Obs d)) = n"
  by (induction n) auto

lemma observations_interleaved [simp]:
  "observations (concat (map (\<lambda>(a, h). [Obs d, Send a h]) xs)) = length xs"
  by (induction xs) auto

context batch_kernels
begin

text \<open>A kernel run never panics; it serves a prefix of the waiters held, in order, each with the digest
  of its own seed, and the others are left for the next run; one chain cost is observed per digest.\<close>

lemma rest_run_ok:
  "ids \<noteq> [] \<Longrightarrow> \<exists>ops rest. rest_run k sd ids d = Some (ops, rest) \<and>
     map fst (sends ops) @ rest = ids \<and> (\<forall>(a, h) \<in> set (sends ops). h = digest (sd a)) \<and>
     observations ops = length (sends ops)"
proof (cases ids rule: remdups_adj.cases)
  case (3 a b xs)
  show ?thesis
  proof (cases "riskSumPair k = None")
    case False
    then obtain ys where "riskChainPair k (sd a) (sd b) = Some ((digest (sd a), digest (sd b)), ys)"
      using pair [of "sd a" "sd b"] by (cases "riskChainPair k (sd a) (sd b)") auto
    with False 3 show ?thesis by auto
  qed (simp add: 3 chain)
qed (simp_all add: chain)

lemma dispatch_ok:
  assumes "ids \<noteq> []" "length ids \<le> 16"
  shows "\<exists>ops rest. dispatch k sd ids d = Some (ops, rest) \<and>
     map fst (sends ops) @ rest = ids \<and> (\<forall>(a, h) \<in> set (sends ops). h = digest (sd a)) \<and>
     observations ops = length (sends ops)"
proof (cases "riskChainX16 k \<noteq> None \<and> riskX16MinBatch k \<le> int (length ids)")
  case True
  then obtain f where f: "riskChainX16 k = Some f" by auto
  have "f (map sd ids) = Some (map digest (map sd ids))"
    using assms(2) by (intro x16 [OF f]) simp
  with True f show ?thesis
    by (auto simp: dispatch_def x16_run_def set_zip)
next
  case x16: False
  show ?thesis
  proof (cases "riskChainQuad k \<noteq> None \<and> length ids = 4")
    case True
    then obtain f where f: "riskChainQuad k = Some f" by auto
    from True obtain a b c e where ids: "ids = [a, b, c, e]"
      by (auto simp: numeral_eq_Suc length_Suc_conv)
    have "f (sd a) (sd b) (sd c) (sd e) = (digest (sd a), digest (sd b), digest (sd c), digest (sd e))"
      by (rule quad [OF f])
    with f ids x16 show ?thesis by (auto simp: dispatch_def quad_run_def)
  next
    case False
    with x16 rest_run_ok [OF assms(1), of sd d] show ?thesis by (auto simp: dispatch_def)
  qed
qed

end

interpretation portable_build: batch_kernels default_kernels naiveRiskChain
  by unfold_locales
    (simp_all add: riskChain_naive scalar_ok_def default_kernels_def)

section \<open>The invariant\<close>

text \<open>The waiters a worker owes a digest.\<close>

fun owned :: "wrk_pc \<Rightarrow> nat list" where
  "owned (WWork ids) = ids"
| "owned (WOps ops rest) = map fst (sends ops) @ rest"
| "owned (WRest rest) = rest"
| "owned _ = []"

definition owners :: "gate \<Rightarrow> nat \<Rightarrow> int" where
  "owners g a = sum_list (map (\<lambda>pc. int (count_list (owned pc) a)) (workers g))"

text \<open>The states of a request goroutine: without a waiter, with the digest received, and what else it
  says of the flags of its waiter.\<close>

fun no_waiter :: "sub_pc \<Rightarrow> bool" where
  "no_waiter (SEnter _ _) = True"
| "no_waiter SBackstop = True"
| "no_waiter (SReturn None) = True"
| "no_waiter _ = False"

fun served :: "sub_pc \<Rightarrow> bool" where
  "served (SReturn (Some _)) = True"
| "served _ = False"

fun flags_ok :: "(string \<Rightarrow> string) \<Rightarrow> sub_pc \<Rightarrow> waiter \<Rightarrow> bool" where
  "flags_ok digest (SEnter _ _) w = False"
| "flags_ok digest SBackstop w = False"
| "flags_ok digest SRefund w = (wtaken w \<and> \<not> wabandoned w)"
| "flags_ok digest SRecv w = (wtaken w \<and> \<not> wabandoned w)"
| "flags_ok digest SAbandon w = (\<not> wtaken w \<and> wabandoned w)"
| "flags_ok digest (SReturn None) w = (\<not> wtaken w \<and> wabandoned w)"
| "flags_ok digest (SReturn (Some h)) w = (wtaken w \<and> \<not> wabandoned w \<and> h = digest (wseed w))"
| "flags_ok digest _ w = (\<not> wabandoned w)"

fun slot :: "(string \<Rightarrow> string) \<Rightarrow> waiter option \<Rightarrow> sub_pc option \<Rightarrow> int \<Rightarrow> bool" where
  "slot digest None None n = (n = 0)"
| "slot digest None (Some pc) n = (n = 0 \<and> no_waiter pc)"
| "slot digest (Some w) None n = False"
| "slot digest (Some w) (Some pc) n =
     (flags_ok digest pc w \<and>
      n = (if wtaken w \<and> wresult w = None \<and> \<not> served pc then 1 else 0) \<and>
      (\<forall>h. wresult w = Some h \<longrightarrow> wtaken w \<and> \<not> served pc \<and> h = digest (wseed w)))"

definition pc_at :: "gate \<Rightarrow> nat \<Rightarrow> sub_pc option" where
  "pc_at g a = (if a < length (subs g) then Some (subs g ! a) else None)"

definition stack_ok :: "gate \<Rightarrow> nat list \<Rightarrow> bool" where
  "stack_ok g xs \<longleftrightarrow> rep g xs \<and> int (length xs) \<le> riskStackBackstop \<and>
     (\<forall>a \<in> set xs. \<exists>w. heap g a = Some w \<and> \<not> wtaken w)"

fun wrk_ok :: "(string \<Rightarrow> string) \<Rightarrow> (nat \<Rightarrow> string) \<Rightarrow> wrk_pc \<Rightarrow> bool" where
  "wrk_ok digest sd (WTake n) = (1 \<le> n \<and> n \<le> 16)"
| "wrk_ok digest sd (WWork ids) = (ids \<noteq> [] \<and> length ids \<le> 16)"
| "wrk_ok digest sd (WOps ops rest) = (\<forall>(a, h) \<in> set (sends ops). h = digest (sd a))"
| "wrk_ok digest sd WDead = False"
| "wrk_ok digest sd _ = True"

definition gate_inv :: "(string \<Rightarrow> string) \<Rightarrow> gate \<Rightarrow> bool" where
  "gate_inv digest g \<longleftrightarrow>
     (\<exists>xs. stack_ok g xs) \<and> (\<forall>a. slot digest (heap g a) (pc_at g a) (owners g a)) \<and>
     (\<forall>pc \<in> set (workers g). wrk_ok digest (seed_of g) pc)"

lemma gate_invD:
  assumes "gate_inv digest g"
  shows "\<exists>xs. stack_ok g xs" "slot digest (heap g a) (pc_at g a) (owners g a)"
    "j < length (workers g) \<Longrightarrow> wrk_ok digest (seed_of g) (workers g ! j)"
  using assms by (auto simp: gate_inv_def)

section \<open>Frames\<close>

lemma set_sub_fields [gate_simps, simp]:
  "heap (set_sub i pc g) = heap g" "workers (set_sub i pc g) = workers g" "cnt (set_sub i pc g) = cnt g"
  "subs (set_sub i pc g) = (subs g)[i := pc]" "lat (set_sub i pc g) = lat g"
  "riskWork (set_sub i pc g) = riskWork g" "riskIdleWorkers (set_sub i pc g) = riskIdleWorkers g"
  "riskStackTop (set_sub i pc g) = riskStackTop g" "riskStackDepth (set_sub i pc g) = riskStackDepth g"
  "clock (set_sub i pc g) = clock g"
  by (simp_all add: set_sub_def)

lemma set_wrk_fields [gate_simps, simp]:
  "heap (set_wrk i pc g) = heap g" "workers (set_wrk i pc g) = (workers g)[i := pc]"
  "cnt (set_wrk i pc g) = cnt g" "subs (set_wrk i pc g) = subs g" "lat (set_wrk i pc g) = lat g"
  "riskWork (set_wrk i pc g) = riskWork g" "riskIdleWorkers (set_wrk i pc g) = riskIdleWorkers g"
  "riskStackTop (set_wrk i pc g) = riskStackTop g" "riskStackDepth (set_wrk i pc g) = riskStackDepth g"
  "clock (set_wrk i pc g) = clock g"
  by (simp_all add: set_wrk_def)

lemma charge_fields [gate_simps, simp]:
  "heap (charge n g) = heap g" "workers (charge n g) = workers g" "subs (charge n g) = subs g"
  "lat (charge n g) = lat g" "riskWork (charge n g) = riskWork g"
  "riskIdleWorkers (charge n g) = riskIdleWorkers g" "respOK (cnt (charge n g)) = respOK (cnt g)"
  "respErr (cnt (charge n g)) = respErr (cnt g) + n"
  "riskStackTop (charge n g) = riskStackTop g" "riskStackDepth (charge n g) = riskStackDepth g"
  "clock (charge n g) = clock g"
  by (simp_all add: charge_def)

lemma set_waiter_fields [gate_simps, simp]:
  "heap (set_waiter a w g) = (heap g)(a \<mapsto> w)" "workers (set_waiter a w g) = workers g"
  "cnt (set_waiter a w g) = cnt g" "subs (set_waiter a w g) = subs g" "lat (set_waiter a w g) = lat g"
  "riskWork (set_waiter a w g) = riskWork g" "riskIdleWorkers (set_waiter a w g) = riskIdleWorkers g"
  "riskStackTop (set_waiter a w g) = riskStackTop g"
  "riskStackDepth (set_waiter a w g) = riskStackDepth g" "clock (set_waiter a w g) = clock g"
  by (simp_all add: set_waiter_def)

lemma notify_fields [gate_simps, simp]:
  "heap (notify g) = heap g" "workers (notify g) = workers g" "cnt (notify g) = cnt g"
  "subs (notify g) = subs g" "lat (notify g) = lat g"
  "riskIdleWorkers (notify g) = riskIdleWorkers g" "riskStackTop (notify g) = riskStackTop g"
  "riskStackDepth (notify g) = riskStackDepth g" "clock (notify g) = clock g"
  by (simp_all add: notify_def)

lemma stack_push_fields [gate_simps, simp]:
  "heap (stack_push a s c t g) = (heap g)(a \<mapsto> new_waiter s c t (riskStackTop g))"
  "riskStackTop (stack_push a s c t g) = Some a" "riskStackDepth (stack_push a s c t g) = riskStackDepth g + 1"
  "workers (stack_push a s c t g) = workers g" "cnt (stack_push a s c t g) = cnt g"
  "subs (stack_push a s c t g) = subs g" "lat (stack_push a s c t g) = lat g"
  "riskWork (stack_push a s c t g) = riskWork g" "clock (stack_push a s c t g) = clock g"
  "riskIdleWorkers (stack_push a s c t g) = riskIdleWorkers g"
  by (simp_all add: stack_push_def)

lemma owners_update:
  "j < length (workers g) \<Longrightarrow> workers g' = (workers g)[j := pc] \<Longrightarrow>
     owners g' a = owners g a + int (count_list (owned pc) a) - int (count_list (owned (workers g ! j)) a)"
  by (simp add: owners_def sum_map_update_int)

lemma owners_cong: "workers g' = workers g \<Longrightarrow> owners g' = owners g"
  by (simp add: owners_def fun_eq_iff)

lemma owned_owners:
  assumes "pc \<in> set (workers g)" "a \<in> set (owned pc)"
  shows "0 < owners g a"
proof -
  have "0 < int (count_list (owned pc) a)"
    using assms(2) by (metis count_list_0_iff of_nat_0_less_iff neq0_conv)
  moreover have "int (count_list (owned pc) a) \<le> owners g a"
    unfolding owners_def using assms(1)
    by (intro member_le_sum_list) auto
  ultimately show ?thesis by simp
qed

lemma distinct_count_list_one: "distinct xs \<Longrightarrow> a \<in> set xs \<Longrightarrow> count_list xs a = 1"
  by (induction xs) (auto simp: count_list_0_iff)

text \<open>What a worker owes is in the heap, taken, with an empty channel.\<close>

lemma owned_waiter:
  assumes "gate_inv digest g" "pc \<in> set (workers g)" "a \<in> set (owned pc)"
  obtains w pc' where "heap g a = Some w" "wtaken w" "wresult w = None" "pc_at g a = Some pc'" "\<not> served pc'"
    "owners g a = 1" "flags_ok digest pc' w"
proof -
  have "0 < owners g a" using assms(2,3) by (rule owned_owners)
  with gate_invD(2) [OF assms(1), of a] show thesis
    by (cases "heap g a"; cases "pc_at g a") (auto intro: that split: if_splits)
qed

end
