(* ===== verification/Boot.thy ===== *)
theory Boot
  imports X16_Kernel Latency Gate_Invariant
begin

text \<open>
  The boot sequence of \<open>main\<close> for the hash kernels: \<open>initRiskKernel\<close>, \<open>calibrateRisk\<close>,
  \<open>raceKernelPairing\<close>, \<open>initRiskKernelX4\<close>, \<open>initRiskKernelX16\<close>, in that order, and the sizing of the
  worker pool. Under the contracts of the assembly the booted kernels satisfy the interface of the
  admission gate (\<open>batch_kernels\<close>), whatever the environment, the flags of the processor and the
  measured durations.
\<close>

section \<open>The worker pool\<close>

text \<open>\<open>riskSlots\<close>, from the cgroup budget (a floating-point number, here its value) and \<open>RISK_SLOTS\<close>. The conversion
  to \<open>int\<close> is the floor: a budget of 2^63 CPUs, where Go's conversion would overflow, does not occur.\<close>

definition cpuCap :: int where "cpuCap = 2"

definition riskSlots :: "rat \<Rightarrow> string \<Rightarrow> int" where
  "riskSlots cpus env =
     (let slots = cpuCap;
          slots = (if 1 / 2 \<le> cpus then \<lfloor>cpus + 1 / 2\<rfloor> else slots);
          slots = (if env \<noteq> ''''
                   then case go_atoi env of
                          Some v \<Rightarrow> if 1 \<le> v then v else slots
                        | None \<Rightarrow> slots
                   else slots)
      in if slots < 1 then 1 else if slots > 4 then 4 else slots)"

section \<open>The kernels\<close>

text \<open>What boot measures: the durations of the idle and the contended chains, and of the races.\<close>

record boot_times =
  idle :: "int list"
  contended :: "int list"
  race_serial :: "int list"
  race_paired :: "int list"
  race_pair2 :: "int list"
  race_quad :: "int list"
  race_batch :: int
  race_ref :: int

text \<open>The state the pool of 16-lane batches hands out is \<open>x\<close>; \<open>l\<close> is the latency state set by
  \<open>init\<close>.\<close>

definition boot_kernels ::
  "'f float64 \<Rightarrow> boot_env \<Rightarrow> string \<Rightarrow> asm_routines \<Rightarrow> 'g rng \<Rightarrow> boot_times \<Rightarrow> x16Chains \<Rightarrow> latency \<Rightarrow> kernels \<times> latency"
where
  "boot_kernels F env stride asm r t x l =
     (let k = initRiskKernel env asm r default_kernels;
          (l, msk) = calibrateRisk F (idle t) (contended t) stride l;
          k = k\<lparr>riskYieldMask := msk\<rparr>;
          k = raceKernelPairing (race_serial t) (race_paired t) k;
          k = initRiskKernelX4 env asm r (race_pair2 t) (race_quad t) k;
          k = initRiskKernelX16 env asm r x (race_batch t) (race_ref t) k
      in (k, l))"

text \<open>The portable build (\<open>shakernel_other.go\<close>): no kernel is ever installed.\<close>

definition portable_kernels :: "string \<Rightarrow> (nat \<Rightarrow> bool) \<Rightarrow> kernels" where
  "portable_kernels stride fits =
     default_kernels\<lparr>riskYieldMask := yield_mask (yield_stride stride fits)\<rparr>"

section \<open>The booted kernels satisfy the interface of the gate\<close>

definition kernels_ok :: "kernels \<Rightarrow> bool" where
  "kernels_ok k \<longleftrightarrow> scalar_ok k \<and> pair_ok k \<and> quad_ok k \<and> x16_ok k"

lemma kernels_ok_batch:
  assumes "kernels_ok k"
  shows "batch_kernels k naiveRiskChain"
proof
  show "fst (riskChain k s) = naiveRiskChain s" for s
    using assms by (simp add: kernels_ok_def riskChain_naive)
  show "map_option fst (riskChainPair k s t) = Some (naiveRiskChain s, naiveRiskChain t)"
    if "riskSumPair k \<noteq> None" for s t
    using assms that by (simp add: kernels_ok_def riskChainPair_naive)
qed (use assms in \<open>auto simp: kernels_ok_def quad_ok_def x16_ok_def\<close>)

definition asm_contract :: "asm_routines \<Rightarrow> bool" where
  "asm_contract asm \<longleftrightarrow> asm_ok asm \<and> asm4_ok asm \<and> asm16_ok asm"

lemma mask_ok [simp]:
  "scalar_ok (k\<lparr>riskYieldMask := m\<rparr>) = scalar_ok k"
  "pair_ok (k\<lparr>riskYieldMask := m\<rparr>) = pair_ok k"
  "quad_ok (k\<lparr>riskYieldMask := m\<rparr>) = quad_ok k"
  "x16_ok (k\<lparr>riskYieldMask := m\<rparr>) = x16_ok k"
  by (simp_all add: scalar_ok_def pair_ok_def quad_ok_def x16_ok_def)

lemma race_frame:
  "riskChainQuad (raceKernelPairing s p k) = riskChainQuad k"
  "riskChainX16 (raceKernelPairing s p k) = riskChainX16 k"
  by (simp_all add: raceKernelPairing_def Let_def)

lemma boot_kernels_ok:
  assumes asm: "asm_contract asm" and rnd: "\<And>g. length (fst (read64 r g)) = 64" and x: "x16_inv x"
  shows "kernels_ok (fst (boot_kernels F env stride asm r t x l))"
proof -
  let ?k = "initRiskKernel env asm r default_kernels"
  have k: "scalar_ok ?k \<and> pair_ok ?k" "riskChainQuad ?k = None" "riskChainX16 ?k = None"
    using asm initRiskKernel_ok [of asm default_kernels env r]
    by (simp_all add: asm_contract_def default_kernels_ok kernel_simps) (simp_all add: default_kernels_def)
  obtain l' msk where cal: "calibrateRisk F (idle t) (contended t) stride l = (l', msk)" by force
  let ?r = "raceKernelPairing (race_serial t) (race_paired t) (?k\<lparr>riskYieldMask := msk\<rparr>)"
  have r: "scalar_ok ?r" "pair_ok ?r" "quad_ok ?r" "x16_ok ?r"
    using k by (auto simp: raceKernelPairing_ok quad_ok_def x16_ok_def race_frame)
  let ?q = "initRiskKernelX4 env asm r (race_pair2 t) (race_quad t) ?r"
  have q: "scalar_ok ?q" "pair_ok ?q" "quad_ok ?q" "x16_ok ?q"
    using r asm initRiskKernelX4_ok [of asm ?r]
    by (simp_all add: initRiskKernelX4_frame asm_contract_def x16_ok_def)
  let ?b = "initRiskKernelX16 env asm r x (race_batch t) (race_ref t) ?q"
  have "kernels_ok ?b"
    using q asm initRiskKernelX16_ok [OF _ rnd x, of asm ?q]
    by (simp add: kernels_ok_def initRiskKernelX16_frame asm_contract_def)
  then show ?thesis by (simp add: boot_kernels_def Let_def cal)
qed

lemma portable_kernels_ok: "kernels_ok (portable_kernels stride fits)"
  by (simp add: kernels_ok_def portable_kernels_def default_kernels_ok)
    (simp add: default_kernels_def quad_ok_def x16_ok_def)

interpretation portable_boot: batch_kernels "portable_kernels stride fits" naiveRiskChain for stride fits
  by (rule kernels_ok_batch [OF portable_kernels_ok])

section \<open>Routines that meet the contract\<close>

text \<open>The contract of the assembly is satisfiable: the routines as their headers describe them.\<close>

definition ref_asm :: asm_routines where
  "ref_asm = \<lparr>
     blockAVX2 = sha_compress, blockSHANI = sha_compress,
     blockSHANI2 = (\<lambda>da db pa pb. (sha_compress da pa, sha_compress db pb)),
     pairHashHex = hash_hex2, hashHex1 = hash_hex,
     pairHashHexN = (\<lambda>p n. (hash_hex2 ^^ n) p), hashHex1N = (\<lambda>b n. (hash_hex ^^ n) b),
     riskChain4x = (\<lambda>b n. (hash_hex4 ^^ n) b),
     sha256X16Avx512 = (\<lambda>ds sc tab msk ins.
       (foldl (\<lambda>t (i, w). put32le t (i * 4 + w * 64)
           (sha_compress (sha_compress (lane_words ds i) (take 64 (ins ! i))) (drop 64 (ins ! i)) ! w))
         (replicate 512 0) (List.product [0..<16] [0..<8]), sc))\<rparr>"

lemma ref_asm_contract: "asm_contract ref_asm"
proof -
  have "map ((!) (sha_compress h b)) [0..<8] = sha_compress h b" if "length h = 8" for h b
    using that by (intro nth_equalityI) (simp_all add: byte_simps)
  moreover have "length (lane_words ds i) = 8" for ds i by (simp add: lane_words_def)
  ultimately show ?thesis
    by (simp add: asm_contract_def asm_ok_def asm4_ok_def asm16_ok_def ref_asm_def lane_words_stores
        byte_simps)
qed

end
