(* ===== verification/Gate_Safety.thy ===== *)
theory Gate_Safety
  imports Gate_Invariant
begin

text \<open>
  Every step of the admission gate keeps the invariant of theory \<open>Gate_Invariant\<close>, so every state a
  run reaches satisfies it.
\<close>

section \<open>Steps that leave the stack alone\<close>

text \<open>Fields of a waiter the stack depends on.\<close>

definition link :: "waiter option \<Rightarrow> (nat option \<times> bool) option" where
  "link = map_option (\<lambda>w. (wnext w, wtaken w))"

lemma stack_ok_cong:
  assumes "stack_ok g xs" "riskStackTop g' = riskStackTop g" "riskStackDepth g' = riskStackDepth g"
    and link: "\<And>a. link (heap g' a) = link (heap g a)"
  shows "stack_ok g' xs"
proof -
  have next_eq: "map_option wnext (heap g' a) = map_option wnext (heap g a)" for a
    using link [of a] by (cases "heap g' a"; cases "heap g a") (auto simp: link_def)
  have "linked (heap g') p xs = linked (heap g) p xs" for p
    by (rule linked_cong) (simp add: next_eq)
  moreover have "\<exists>w. heap g' a = Some w \<and> \<not> wtaken w" if "heap g a = Some w" "\<not> wtaken w" for a w
    using link [of a] that by (auto simp: link_def)
  ultimately show ?thesis
    using assms(1-3) by (fastforce simp: stack_ok_def rep_def)
qed

lemma wrk_ok_cong:
  assumes "wrk_ok digest sd pc" "\<And>a. a \<in> set (owned pc) \<Longrightarrow> sd' a = sd a"
  shows "wrk_ok digest sd' pc"
proof (cases pc)
  case (WOps ops rest)
  have "h = digest (sd' a)" if "(a, h) \<in> set (sends ops)" for a h
  proof -
    have "a \<in> set (owned pc)" using that WOps by (auto simp: rev_image_eqI)
    then show ?thesis using assms that WOps by auto
  qed
  with WOps show ?thesis by auto
qed (use assms(1) in simp_all)

text \<open>A step of request \<open>i\<close> that changes at most its own waiter.\<close>

lemma sub_update_inv:
  assumes inv: "gate_inv digest g" and i: "i < length (subs g)"
    and wrk: "workers g' = workers g" and subs: "subs g' = (subs g)[i := pc]"
    and heap: "\<And>a. a \<noteq> i \<Longrightarrow> heap g' a = heap g a"
    and seed: "\<And>w. heap g i = Some w \<Longrightarrow> seed_of g' i = wseed w"
    and slot: "slot digest (heap g' i) (Some pc) (owners g i)"
    and stack: "\<exists>xs. stack_ok g' xs"
  shows "gate_inv digest g'"
proof -
  have own: "owners g' = owners g" by (rule owners_cong [OF wrk])
  have "slot digest (heap g' a) (pc_at g' a) (owners g' a)" for a
  proof (cases "a = i")
    case True
    then show ?thesis using slot i by (simp add: pc_at_def subs own)
  next
    case False
    then have "pc_at g' a = pc_at g a" by (simp add: pc_at_def subs)
    with False show ?thesis using gate_invD(2) [OF inv, of a] by (simp add: heap own)
  qed
  moreover have "wrk_ok digest (seed_of g') pc'" if "pc' \<in> set (workers g)" for pc'
  proof -
    have "wrk_ok digest (seed_of g) pc'" using inv that by (simp add: gate_inv_def)
    moreover have "seed_of g' a = seed_of g a" if a: "a \<in> set (owned pc')" for a
    proof -
      obtain w where "heap g a = Some w"
        by (rule owned_waiter [OF inv \<open>pc' \<in> set (workers g)\<close> a])
      then show ?thesis using seed heap by (cases "a = i") (auto simp: seed_of_def)
    qed
    ultimately show ?thesis by (rule wrk_ok_cong)
  qed
  ultimately show ?thesis using stack by (simp add: gate_inv_def wrk)
qed

text \<open>The same when the links of the heap do not change.\<close>

lemma sub_local_inv:
  assumes inv: "gate_inv digest g" and i: "i < length (subs g)"
    and wrk: "workers g' = workers g" and subs: "subs g' = (subs g)[i := pc]"
    and stack: "riskStackTop g' = riskStackTop g" "riskStackDepth g' = riskStackDepth g"
    and heap: "\<And>a. a \<noteq> i \<Longrightarrow> heap g' a = heap g a"
    and link: "link (heap g' i) = link (heap g i)"
    and seed: "map_option wseed (heap g' i) = map_option wseed (heap g i)"
    and slot: "slot digest (heap g' i) (Some pc) (owners g i)"
  shows "gate_inv digest g'"
proof (rule sub_update_inv [OF inv i wrk subs heap _ slot])
  show "seed_of g' i = wseed w" if "heap g i = Some w" for w
    using seed that by (auto simp: seed_of_def)
  obtain xs where "stack_ok g xs" using gate_invD(1) [OF inv] by blast
  then have "stack_ok g' xs"
    by (rule stack_ok_cong) (use stack heap link in \<open>auto, metis\<close>)
  then show "\<exists>xs. stack_ok g' xs" by blast
qed

section \<open>The steps of \<open>riskSubmit\<close>\<close>

lemma slot_at:
  "gate_inv digest g \<Longrightarrow> i < length (subs g) \<Longrightarrow> slot digest (heap g i) (Some (subs g ! i)) (owners g i)"
  using gate_invD(2) [of digest g i] by (simp add: pc_at_def)

lemma push_inv:
  assumes inv: "gate_inv digest g" and i: "i < length (subs g)" "subs g ! i = SEnter seed ctx"
    and depth: "riskStackDepth g < riskStackBackstop"
  shows "gate_inv digest (set_sub i SNotify (stack_push i seed ctx time g))"
proof -
  have empty: "heap g i = None" "owners g i = 0"
    using slot_at [OF inv i(1)] i(2) by (cases "heap g i"; simp)+
  obtain xs where xs: "stack_ok g xs" using gate_invD(1) [OF inv] by blast
  then have notin: "i \<notin> set xs" using empty by (auto simp: stack_ok_def)
  have "rep (stack_push i seed ctx time g) (i # xs)"
    using xs notin by (intro rep_push) (auto simp: stack_ok_def)
  then have "rep (set_sub i SNotify (stack_push i seed ctx time g)) (i # xs)"
    by (simp add: rep_def)
  moreover have "int (length (i # xs)) \<le> riskStackBackstop"
    using depth xs by (simp add: stack_ok_def rep_def)
  ultimately have "stack_ok (set_sub i SNotify (stack_push i seed ctx time g)) (i # xs)"
    using xs notin by (auto simp: stack_ok_def new_waiter_def)
  then show ?thesis
    by (intro sub_update_inv [OF inv i(1), where pc = SNotify])
      (auto simp: empty new_waiter_def)
qed

lemma front_door_inv:
  assumes inv: "gate_inv digest g" and i: "i < length (subs g)" "subs g ! i = SEnter seed ctx"
  shows "gate_inv digest (front_door bp i seen seed ctx g)"
proof -
  have empty: "heap g i = None" "owners g i = 0"
    using slot_at [OF inv i(1)] i(2) by (cases "heap g i"; simp)+
  show ?thesis
    unfolding front_door_def using push_inv [OF inv i]
    by (auto intro!: sub_local_inv [OF inv i(1)] simp: empty)
qed

lemma slot_mono_flags:
  "slot digest h (Some pc) n \<Longrightarrow> (\<And>w. h = Some w \<Longrightarrow> flags_ok digest pc' w) \<Longrightarrow> h \<noteq> None \<or> no_waiter pc' \<Longrightarrow>
     served pc' = served pc \<Longrightarrow> slot digest h (Some pc') n"
  by (cases h) auto

lemma receive_inv:
  assumes inv: "gate_inv digest g" and i: "i < length (subs g)"
    and w: "heap g i = Some w" and res: "receive i w g = Some g'"
    and pc: "\<not> served (subs g ! i)" "flags_ok digest (subs g ! i) w \<Longrightarrow> \<not> wabandoned w"
  shows "gate_inv digest g'"
proof -
  from res obtain h where h: "wresult w = Some h"
      and g': "g' = set_sub i (SReturn (Some h)) (set_waiter i (w\<lparr>wresult := None\<rparr>) g)"
    by (auto simp: receive_def split: option.splits)
  have sl: "slot digest (Some w) (Some (subs g ! i)) (owners g i)"
    using slot_at [OF inv i] w by simp
  show ?thesis
    unfolding g'
    by (rule sub_local_inv [OF inv i, where pc = "SReturn (Some h)"])
      (use sl h pc w in \<open>auto simp: link_def\<close>)
qed

lemma leave_wait_inv:
  assumes inv: "gate_inv digest g" and i: "i < length (subs g)" "subs g ! i = SLeave reserved"
    and w: "heap g i = Some w"
  shows "gate_inv digest (leave_wait i reserved w g)"
proof -
  have sl: "slot digest (Some w) (Some (SLeave reserved)) (owners g i)"
    using slot_at [OF inv i(1)] w i(2) by simp
  show ?thesis
    unfolding leave_wait_def
    using sl w by (auto intro!: sub_local_inv [OF inv i(1)] simp: link_def split: if_splits)
qed

lemma sub_step_inv:
  assumes inv: "gate_inv digest g" and i: "i < length (subs g)"
    and step: "sub_step bp i ch (subs g ! i) g = Some g'"
  shows "gate_inv digest g'"
proof -
  have move: "gate_inv digest g''"
    if "workers g'' = workers g" "subs g'' = (subs g)[i := pc]" "heap g'' = heap g"
      "riskStackTop g'' = riskStackTop g" "riskStackDepth g'' = riskStackDepth g"
      "\<And>w. heap g i = Some w \<Longrightarrow> flags_ok digest (subs g ! i) w \<Longrightarrow> flags_ok digest pc w"
      "heap g i \<noteq> None \<or> no_waiter pc" "served pc = served (subs g ! i)" for g'' pc
  proof (rule sub_local_inv [OF inv i that(1,2,4,5)])
    have "slot digest (heap g i) (Some (subs g ! i)) (owners g i)" by (rule slot_at [OF inv i])
    then show "slot digest (heap g'' i) (Some pc) (owners g i)"
      using that(3,6-8) by (cases "heap g i") auto
  qed (simp_all add: that(3))
  have some: "heap g i \<noteq> None" if "\<not> no_waiter (subs g ! i)"
    using slot_at [OF inv i] that by (cases "heap g i") auto
  show ?thesis
  proof (cases "subs g ! i")
    case (SEnter seed ctx)
    with step show ?thesis
      by (cases ch) (auto intro: front_door_inv [OF inv i SEnter] split: if_splits)
  next
    case SBackstop
    with step have "g' = set_sub i (SReturn None) (charge 1 g)" by (cases ch) auto
    moreover have "heap g i = None" using slot_at [OF inv i] SBackstop by (cases "heap g i") auto
    ultimately show ?thesis using SBackstop by (auto intro!: move [of _ "SReturn None"])
  next
    case SNotify
    with step have "g' = set_sub i STimer (notify g)" by (cases ch) auto
    with SNotify some show ?thesis by (auto intro!: move [of _ STimer])
  next
    case STimer
    with step have "g' = set_sub i (SWait (clock g + riskPatienceNs (lat g))) g" by (cases ch) auto
    with STimer some show ?thesis
      by (auto intro!: move [of _ "SWait (clock g + riskPatienceNs (lat g))"])
  next
    case (SWait deadline)
    then obtain w where w: "heap g i = Some w" using some by auto
    show ?thesis
    proof (cases ch)
      case GotResult
      with step SWait w show ?thesis by (auto intro: receive_inv [OF inv i w])
    next
      case GotDone
      with step SWait w have "g' = set_sub i (SLeave False) g" by (auto split: if_splits)
      with SWait some show ?thesis by (auto intro!: move [of _ "SLeave False"])
    next
      case (GotTimer seen)
      with step SWait have "g' = patience_fired bp i seen g" by (auto split: if_splits)
      with SWait some show ?thesis
        using move [of "set_sub i (SLeave True) (charge 1 g)" "SLeave True"]
          move [of "set_sub i (SWait (clock g + 100 * millisecond)) g" "SWait (clock g + 100 * millisecond)"]
        by (auto simp: patience_fired_def)
    qed (use step SWait in auto)
  next
    case (SLeave reserved)
    then obtain w where w: "heap g i = Some w" using some by auto
    with step SLeave show ?thesis by (cases ch) (auto intro: leave_wait_inv [OF inv i])
  next
    case SRefund
    with step have "g' = set_sub i SRecv (charge (- 1) g)" by (cases ch) auto
    with SRefund some show ?thesis by (auto intro!: move [of _ SRecv])
  next
    case SRecv
    then obtain w where w: "heap g i = Some w" using some by auto
    with step SRecv show ?thesis by (cases ch) (auto intro: receive_inv [OF inv i w])
  next
    case SAbandon
    with step have "g' = set_sub i (SReturn None) (charge 1 g)" by (cases ch) auto
    with SAbandon show ?thesis
      using slot_at [OF inv i] by (auto intro!: move [of _ "SReturn None"])
  next
    case (SReturn r)
    with step show ?thesis by (cases ch) auto
  qed
qed

section \<open>The steps of \<open>riskWorker\<close>\<close>

lemma wrk_update_inv:
  assumes inv: "gate_inv digest g" and j: "j < length (workers g)"
    and wrk: "workers g' = (workers g)[j := pc]" and subs: "subs g' = subs g"
    and seed: "\<And>a. seed_of g' a = seed_of g a"
    and slot: "\<And>a. slot digest (heap g' a) (pc_at g a)
      (owners g a + int (count_list (owned pc) a) - int (count_list (owned (workers g ! j)) a))"
    and ok: "wrk_ok digest (seed_of g) pc" and stack: "\<exists>xs. stack_ok g' xs"
  shows "gate_inv digest g'"
proof -
  have sd: "seed_of g' = seed_of g" using seed by blast
  have "slot digest (heap g' a) (pc_at g' a) (owners g' a)" for a
  proof -
    have "pc_at g' a = pc_at g a" by (simp add: pc_at_def subs)
    with slot [of a] show ?thesis by (simp add: owners_update [OF j wrk])
  qed
  moreover have "\<forall>pc' \<in> set (workers g'). wrk_ok digest (seed_of g') pc'"
    using inv ok set_update_subset_insert [of "workers g" j pc]
    by (auto simp: gate_inv_def wrk sd)
  ultimately show ?thesis using stack by (simp add: gate_inv_def)
qed

lemma wrk_local_inv:
  assumes inv: "gate_inv digest g" and j: "j < length (workers g)"
    and wrk: "workers g' = (workers g)[j := pc]" and subs: "subs g' = subs g"
    and heap: "heap g' = heap g"
    and stack: "riskStackTop g' = riskStackTop g" "riskStackDepth g' = riskStackDepth g"
    and own: "owned pc = owned (workers g ! j)" and ok: "wrk_ok digest (seed_of g) pc"
  shows "gate_inv digest g'"
proof (rule wrk_update_inv [OF inv j wrk subs _ _ ok])
  show "seed_of g' a = seed_of g a" for a by (simp add: seed_of_def heap)
  show "slot digest (heap g' a) (pc_at g a)
      (owners g a + int (count_list (owned pc) a) - int (count_list (owned (workers g ! j)) a))" for a
    using gate_invD(2) [OF inv, of a] by (simp add: heap own)
  obtain xs where "stack_ok g xs" using gate_invD(1) [OF inv] by blast
  then have "stack_ok g' xs" by (rule stack_ok_cong) (simp_all add: stack heap)
  then show "\<exists>xs. stack_ok g' xs" by blast
qed

lemma send_inv:
  assumes inv: "gate_inv digest g" and j: "j < length (workers g)"
    and pc: "workers g ! j = WOps (Send a h # ops) rest"
    and step: "op_step j (Send a h) ops rest g = Some g'"
  shows "gate_inv digest g'"
proof -
  from step obtain w where w: "heap g a = Some w" "wresult w = None"
      and g': "g' = set_wrk j (WOps ops rest) (set_waiter a (w\<lparr>wresult := Some h\<rparr>) g)"
    by (auto split: option.splits)
  have ok: "wrk_ok digest (seed_of g) (WOps (Send a h # ops) rest)"
    using gate_invD(3) [OF inv j] pc by simp
  have h: "h = digest (wseed w)" using ok w by (simp add: seed_of_def)
  have "workers g ! j \<in> set (workers g)" "a \<in> set (owned (workers g ! j))"
    using nth_mem [OF j] pc by auto
  then obtain pc' where pc': "wtaken w" "pc_at g a = Some pc'" "\<not> served pc'" "owners g a = 1"
      "flags_ok digest pc' w"
    by (rule owned_waiter [OF inv]) (use w in auto)
  have flags: "flags_ok digest pc' (w\<lparr>wresult := Some h\<rparr>)"
    using pc'(5) by (cases "(digest, pc', w)" rule: flags_ok.cases) auto
  show ?thesis
  proof (rule wrk_update_inv [OF inv j])
    show "seed_of g' b = seed_of g b" for b using w by (auto simp: g' seed_of_def)
    show "slot digest (heap g' b) (pc_at g b)
        (owners g b + int (count_list (owned (WOps ops rest)) b) - int (count_list (owned (workers g ! j)) b))"
      for b
    proof (cases "b = a")
      case True
      then show ?thesis using w pc' flags h by (simp add: g' pc)
    next
      case False
      then show ?thesis using gate_invD(2) [OF inv, of b] by (simp add: g' pc)
    qed
    obtain xs where "stack_ok g xs" using gate_invD(1) [OF inv] by blast
    then have "stack_ok g' xs"
      by (rule stack_ok_cong) (use w in \<open>auto simp: g' link_def\<close>)
    then show "\<exists>xs. stack_ok g' xs" by blast
    show "wrk_ok digest (seed_of g) (WOps ops rest)" using ok by simp
  qed (simp_all add: g')
qed

lemma op_step_inv:
  assumes inv: "gate_inv digest g" and j: "j < length (workers g)"
    and pc: "workers g ! j = WOps (x # ops) rest" and step: "op_step j x ops rest g = Some g'"
  shows "gate_inv digest g'"
proof (cases x)
  case (Send a h)
  then show ?thesis using assms send_inv by blast
next
  case (Obs d)
  show ?thesis
    by (rule wrk_local_inv [OF inv j, of _ "WOps (StoreE _ # ops) rest"])
      (use step Obs pc gate_invD(3) [OF inv j] in \<open>auto simp: Let_def\<close>)
next
  case (StoreE e)
  show ?thesis
    by (rule wrk_local_inv [OF inv j, of _ "WOps (StoreP (patience_for e) # ops) rest"])
      (use step StoreE pc gate_invD(3) [OF inv j] in auto)
next
  case (StoreP p)
  show ?thesis
    by (rule wrk_local_inv [OF inv j, of _ "WOps ops rest"])
      (use step StoreP pc gate_invD(3) [OF inv j] in auto)
qed

text \<open>The take: the waiters handed out are live ones from the top of the stack, now taken.\<close>

lemma choose_lanes_range: "1 \<le> choose_lanes k depth \<and> choose_lanes k depth \<le> 16"
  by (simp add: choose_lanes_def Let_def)

lemma take_step_cases:
  assumes "stack_ok g xs"
  obtains g' t r c p where
    "riskTakeWork (clock g) (riskPatienceNs (lat g)) n g = Some (g', t, c)"
    "rep g' r" "heap g' = mark_taken (set t) (heap g)" "wstack.more g' = wstack.more g"
    "xs = p @ r" "t = filter (\<lambda>a. heap_fate (clock g) (riskPatienceNs (lat g)) g a = Live) p"
    "c = length (filter (\<lambda>a. heap_fate (clock g) (riskPatienceNs (lat g)) g a = Stale) p)"
    "length t \<le> n" "length t < n \<longrightarrow> r = []"
proof -
  let ?f = "heap_fate (clock g) (riskPatienceNs (lat g)) g"
  obtain t r c where sc: "scan ?f n xs = (t, r, c)" by (rule prod_cases3)
  have "rep g xs" using assms by (simp add: stack_ok_def)
  from riskTakeWork_scan [OF this sc] obtain g' where
    "riskTakeWork (clock g) (riskPatienceNs (lat g)) n g = Some (g', t, c)" "rep g' r"
    "heap g' = mark_taken (set t) (heap g)" "wstack.more g' = wstack.more g"
    by blast
  moreover obtain p where "xs = p @ r" "t = filter (\<lambda>a. ?f a = Live) p"
      "c = length (filter (\<lambda>a. ?f a = Stale) p)"
    using lifo.scan_prefix [OF sc] by blast
  moreover have "length t \<le> n" "length t < n \<longrightarrow> r = []"
    using lifo.scan_bound [OF sc] lifo.scan_short [OF sc] by simp_all
  ultimately show thesis by (rule that)
qed

lemma more_fields:
  assumes "wstack.more g' = wstack.more g"
  shows "workers g' = workers g" "subs g' = subs g" "cnt g' = cnt g" "lat g' = lat g"
    "clock g' = clock g" "riskWork g' = riskWork g" "riskIdleWorkers g' = riskIdleWorkers g"
  using assms by (cases g'; cases g; simp)+

lemma take_step_inv:
  assumes inv: "gate_inv digest g" and j: "j < length (workers g)"
    and pc: "workers g ! j = WTake n"
  shows "gate_inv digest (take_step j n g)"
proof -
  let ?f = "heap_fate (clock g) (riskPatienceNs (lat g)) g"
  obtain xs where xs: "stack_ok g xs" using gate_invD(1) [OF inv] by blast
  then obtain g' t r c p where take: "riskTakeWork (clock g) (riskPatienceNs (lat g)) n g = Some (g', t, c)"
      "rep g' r" "heap g' = mark_taken (set t) (heap g)" "wstack.more g' = wstack.more g"
    and p: "xs = p @ r" "t = filter (\<lambda>a. ?f a = Live) p" "length t \<le> n"
    by (rule take_step_cases)
  note more = more_fields [OF take(4)]
  have n: "n \<le> 16" using gate_invD(3) [OF inv j] pc by simp
  let ?pc = "if t = [] then WIdleInc else WWork t"
  have dist: "distinct xs" using xs rep_distinct by (auto simp: stack_ok_def)
  have eq: "take_step j n g = set_wrk j ?pc (charge (int c) g')"
    by (simp add: take_step_def take(1))
  have own: "owned ?pc = t" "owned (workers g ! j) = []" using pc by simp_all
  show ?thesis
    unfolding eq
  proof (rule wrk_update_inv [OF inv j])
    show "seed_of (set_wrk j ?pc (charge (int c) g')) a = seed_of g a" for a
      by (simp add: seed_of_def take(3) mark_taken_def split: option.split)
    show "wrk_ok digest (seed_of g) ?pc" using p(3) n by simp
    show "slot digest (heap (set_wrk j ?pc (charge (int c) g')) a) (pc_at g a)
        (owners g a + int (count_list (owned ?pc) a) - int (count_list (owned (workers g ! j)) a))" for a
    proof (cases "a \<in> set t")
      case True
      then have a: "a \<in> set xs" "?f a = Live" using p by auto
      then obtain w where w: "heap g a = Some w" "\<not> wtaken w" using xs by (auto simp: stack_ok_def)
      have live: "\<not> wabandoned w" using a(2) w by (auto simp: heap_fate_def waiter_fate_def split: if_splits)
      have one: "count_list t a = 1"
        using True dist p by (intro distinct_count_list_one) auto
      have sl: "slot digest (Some w) (pc_at g a) (owners g a)"
        using gate_invD(2) [OF inv, of a] w by simp
      then obtain q where q: "pc_at g a = Some q" "flags_ok digest q w" "owners g a = 0" "wresult w = None"
        using w(2) by (cases "pc_at g a"; cases "wresult w") auto
      then have "flags_ok digest q (w\<lparr>wtaken := True\<rparr>) \<and> \<not> served q"
        using w(2) live by (cases "(digest, q, w)" rule: flags_ok.cases) auto
      then show ?thesis
        using True w q one unfolding own by (simp add: take(3) mark_taken_def)
    next
      case False
      then show ?thesis
        using gate_invD(2) [OF inv, of a] unfolding own
        by (simp add: take(3) mark_taken_def count_list_0_iff)
    qed
    have "stack_ok (set_wrk j ?pc (charge (int c) g')) r"
    proof -
      have "rep (set_wrk j ?pc (charge (int c) g')) r"
        using take(2) by (simp add: rep_def)
      moreover have "\<exists>w. mark_taken (set t) (heap g) a = Some w \<and> \<not> wtaken w" if "a \<in> set r" for a
        using that xs p dist by (auto simp: stack_ok_def mark_taken_def)
      ultimately show ?thesis using xs p by (simp add: stack_ok_def take(3))
    qed
    then show "\<exists>xs. stack_ok (set_wrk j ?pc (charge (int c) g')) xs" by blast
  qed (simp_all add: more)
qed

section \<open>Every reachable state\<close>

lemma run_inv:
  assumes inv: "gate_inv digest g" and j: "j < length (workers g)"
    and r: "r = Some (ops, rest)" "map fst (sends ops) @ rest = owned (workers g ! j)"
      "\<forall>(a, h) \<in> set (sends ops). h = digest (seed_of g a)"
  shows "gate_inv digest (after_run j r g)"
  by (rule wrk_local_inv [OF inv j, of _ "WOps ops rest"]) (use r in \<open>auto simp: after_run_def\<close>)

context batch_kernels
begin

lemma wrk_step_inv:
  assumes inv: "gate_inv digest g" and j: "j < length (workers g)"
    and step: "wrk_step k j d (workers g ! j) g = Some g'"
  shows "gate_inv digest g'"
proof (cases "workers g ! j")
  case (WTake n)
  with step show ?thesis using take_step_inv [OF inv j] by auto
next
  case (WWork ids)
  then have "ids \<noteq> []" "length ids \<le> 16" using gate_invD(3) [OF inv j] by auto
  from dispatch_ok [OF this, of "seed_of g" d] obtain ops rest where
    "dispatch k (seed_of g) ids d = Some (ops, rest)" "map fst (sends ops) @ rest = ids"
    "\<forall>(a, h) \<in> set (sends ops). h = digest (seed_of g a)" by blast
  with WWork step show ?thesis using run_inv [OF inv j] by auto
next
  case (WOps ops rest)
  then have ok: "wrk_ok digest (seed_of g) (WOps ops rest)" using gate_invD(3) [OF inv j] by simp
  show ?thesis
  proof (cases ops)
    case Nil
    with WOps step have "g' = set_wrk j (WRest rest) g" by simp
    with WOps Nil show ?thesis by (auto intro: wrk_local_inv [OF inv j])
  next
    case (Cons x xs)
    with WOps step show ?thesis by (auto intro: op_step_inv [OF inv j])
  qed
next
  case (WRest ids)
  show ?thesis
  proof (cases ids)
    case Nil
    with WRest step have "g' = set_wrk j WTop g" by simp
    with WRest Nil show ?thesis by (auto intro: wrk_local_inv [OF inv j])
  next
    case (Cons a as)
    then have "ids \<noteq> []" by simp
    from rest_run_ok [OF this, of "seed_of g" d] obtain ops rest where
      "rest_run k (seed_of g) ids d = Some (ops, rest)" "map fst (sends ops) @ rest = ids"
      "\<forall>(a, h) \<in> set (sends ops). h = digest (seed_of g a)" by blast
    with WRest Cons step show ?thesis using run_inv [OF inv j] by auto
  qed
next
  case WTop
  with step have "g' = set_wrk j (WTake (choose_lanes k (riskStackDepth g))) g" by simp
  with WTop show ?thesis
    using choose_lanes_range [of k "riskStackDepth g"] by (auto intro: wrk_local_inv [OF inv j])
qed (use step in \<open>auto intro: wrk_local_inv [OF inv j] split: if_splits\<close>)

lemma cancel_inv:
  assumes inv: "gate_inv digest g" and i: "i < length (subs g)"
  shows "gate_inv digest (cancel i g)"
proof -
  have sl: "slot digest (heap g i) (Some (subs g ! i)) (owners g i)" by (rule slot_at [OF inv i])
  have done_inv: "gate_inv digest (set_waiter i (w\<lparr>wctx_done := True\<rparr>) g)" if w: "heap g i = Some w" for w
  proof (rule sub_local_inv [OF inv i])
    have "flags_ok digest (subs g ! i) (w\<lparr>wctx_done := True\<rparr>)"
      using sl w by (cases "(digest, subs g ! i, w)" rule: flags_ok.cases) auto
    then show "slot digest (heap (set_waiter i (w\<lparr>wctx_done := True\<rparr>) g) i) (Some (subs g ! i)) (owners g i)"
      using sl w by simp
  qed (use w in \<open>simp_all add: link_def\<close>)
  show ?thesis
  proof (cases "subs g ! i")
    case (SEnter seed ctx)
    then have "heap g i = None" using sl by (cases "heap g i") auto
    with SEnter sl show ?thesis
      by (auto simp: cancel_def intro!: sub_local_inv [OF inv i, where pc = "SEnter seed True"])
  qed (auto simp: cancel_def inv done_inv split: option.split)
qed

lemma gate_exec_inv:
  assumes inv: "gate_inv digest g" and step: "gate_exec k bp e g = Some g'"
  shows "gate_inv digest g'"
proof -
  have frame: "gate_inv digest g''"
    if "heap g'' = heap g" "workers g'' = workers g" "riskStackTop g'' = riskStackTop g"
      "riskStackDepth g'' = riskStackDepth g"
      "\<And>a. heap g a \<noteq> None \<Longrightarrow> pc_at g'' a = pc_at g a"
      "\<And>a. heap g a = None \<Longrightarrow> pc_at g'' a = pc_at g a \<or> (\<exists>pc. pc_at g'' a = Some pc \<and> no_waiter pc)" for g''
  proof -
    have "slot digest (heap g'' a) (pc_at g'' a) (owners g'' a)" for a
    proof (cases "heap g a")
      case None
      then have "owners g a = 0"
        using gate_invD(2) [OF inv, of a] by (cases "pc_at g a") auto
      then show ?thesis
        using None that(6) [of a] gate_invD(2) [OF inv, of a] by (auto simp: that(1) owners_cong [OF that(2)])
    next
      case (Some w)
      then show ?thesis
        using that(5) [of a] gate_invD(2) [OF inv, of a] by (simp add: that(1) owners_cong [OF that(2)])
    qed
    moreover obtain xs where "stack_ok g xs" using gate_invD(1) [OF inv] by blast
    then have "stack_ok g'' xs" by (rule stack_ok_cong) (simp_all add: that(1,3,4))
    moreover have "seed_of g'' = seed_of g" by (simp add: seed_of_def fun_eq_iff that(1))
    ultimately show ?thesis using inv by (auto simp: gate_inv_def that(2))
  qed
  show ?thesis
  proof (cases e)
    case (Arrive seed ctx)
    have lt: "a < length (subs g)" if "heap g a = Some w" for a w
      using that gate_invD(2) [OF inv, of a] by (auto simp: pc_at_def split: if_splits)
    show ?thesis
      using step Arrive by (intro frame) (auto simp: pc_at_def nth_append less_Suc_eq dest: lt)
  next
    case (Tick d)
    with step show ?thesis by (auto intro!: frame simp: pc_at_def split: if_splits)
  next
    case (Respond code)
    with step show ?thesis by (auto intro!: frame simp: pc_at_def)
  qed (use step in \<open>auto intro: cancel_inv [OF inv] sub_step_inv [OF inv] wrk_step_inv [OF inv]
        split: if_splits\<close>)
qed

lemma runs_inv: "gate_runs k bp g\<^sub>0 es g \<Longrightarrow> gate_inv digest g\<^sub>0 \<Longrightarrow> gate_inv digest g"
  by (induction rule: gate_runs.induct) (auto intro: gate_exec_inv)

end

lemma gate_init_inv: "gate_inv digest (gate_init slots c l time)"
proof -
  have "owners (gate_init slots c l time) a = 0" for a
    by (simp add: owners_def gate_init_def sum_list_replicate)
  then show ?thesis
    by (auto simp: gate_inv_def gate_init_def stack_ok_def pc_at_def riskStackBackstop_def)
qed

end
