(* ===== verification/Gate_Accounts.thy ===== *)
theory Gate_Accounts
  imports Gate_Progress
begin

text \<open>
  The accounts of the admission gate: which step charges \<open>respErr\<close> and for whom, that a reservation is
  within the budget when it is made, the range of the latency estimate under its non-atomic update, and
  the bound on the steps in which a worker delivers what it has taken.
\<close>

section \<open>Charges\<close>

text \<open>What a request goroutine has charged so far: a refusal, or a reservation it still holds.\<close>

fun charged :: "sub_pc \<Rightarrow> int" where
  "charged (SReturn None) = 1"
| "charged (SLeave True) = 1"
| "charged SRefund = 1"
| "charged _ = 0"

definition charges :: "gate \<Rightarrow> int" where
  "charges g = sum_list (map charged (subs g))"

definition refusals :: "gate \<Rightarrow> int" where
  "refusals g = int (count_list (subs g) (SReturn None))"

text \<open>Charges that no request makes itself: a stale waiter passed by \<open>riskTakeWork\<close>, an error response
  counted by \<open>writeJSON\<close>.\<close>

definition extra_charge :: "gate_event \<Rightarrow> gate \<Rightarrow> int" where
  "extra_charge e g =
     (case e of
        Respond code \<Rightarrow> if code < 400 then 0 else 1
      | Wrk j d \<Rightarrow>
          if j < length (workers g)
          then case workers g ! j of
                 WTake n \<Rightarrow>
                   (case riskTakeWork (clock g) (riskPatienceNs (lat g)) n g of
                      None \<Rightarrow> 0 | Some (_, _, c) \<Rightarrow> int c)
               | _ \<Rightarrow> 0
          else 0
      | _ \<Rightarrow> 0)"

lemma extra_charge_nonneg: "0 \<le> extra_charge e g"
  by (auto simp: extra_charge_def split: gate_event.split wrk_pc.split option.split)

lemma charged_nonneg: "0 \<le> charged pc"
  by (cases pc rule: charged.cases) auto

lemma refusals_le_charges: "refusals g \<le> charges g"
proof -
  have "int (count_list xs (SReturn None)) \<le> sum_list (map charged xs)" for xs
    using charged_nonneg by (induction xs) (auto simp: add_increasing)
  then show ?thesis by (simp add: refusals_def charges_def)
qed

lemma charges_update:
  "i < length (subs g) \<Longrightarrow> subs g' = (subs g)[i := pc] \<Longrightarrow>
     charges g' = charges g + charged pc - charged (subs g ! i)"
  by (simp add: charges_def sum_map_update_int)

lemma sub_step_charge:
  assumes i: "i < length (subs g)" and step: "sub_step bp i ch (subs g ! i) g = Some g'"
  shows "respErr (cnt g') - charges g' = respErr (cnt g) - charges g"
proof -
  have "\<exists>pc. subs g' = (subs g)[i := pc] \<and>
      respErr (cnt g') - charged pc = respErr (cnt g) - charged (subs g ! i)"
    using step by (cases "(bp, i, ch, subs g ! i, g)" rule: sub_step.cases)
      (auto simp: sub_step_defs
        split: if_splits option.splits)
  then obtain pc where "subs g' = (subs g)[i := pc]"
      "respErr (cnt g') - charged pc = respErr (cnt g) - charged (subs g ! i)" by blast
  then show ?thesis using charges_update [OF i] by simp
qed

lemma wrk_step_frame:
  assumes "wrk_step k j d (workers g ! j) g = Some g'" "\<And>n. workers g ! j \<noteq> WTake n"
  shows "subs g' = subs g \<and> cnt g' = cnt g"
  using assms by (cases "(k, j, d, workers g ! j, g)" rule: wrk_step.cases;
      cases "case workers g ! j of WOps (x # _) _ \<Rightarrow> x | _ \<Rightarrow> Obs 0")
    (auto simp: Let_def after_run_def split: if_splits option.splits)

text \<open>A step charges \<open>respErr\<close> exactly what the requests' own accounts grow by, plus the extra charges.\<close>

lemma gate_exec_charge:
  assumes "gate_inv digest g" "gate_exec k bp e g = Some g'"
  shows "respErr (cnt g') - charges g' = respErr (cnt g) - charges g + extra_charge e g"
proof (cases e)
  case (Sub i ch)
  with assms(2) show ?thesis
    using sub_step_charge by (auto simp: extra_charge_def split: if_splits)
next
  case (Wrk j d)
  with assms(2) have j: "j < length (workers g)" and step: "wrk_step k j d (workers g ! j) g = Some g'"
    by (auto split: if_splits)
  show ?thesis
  proof (cases "\<exists>n. workers g ! j = WTake n")
    case True
    then obtain n where n: "workers g ! j = WTake n" by blast
    with step have "g' = take_step j n g" by simp
    then show ?thesis
      using Wrk j n by (auto simp: charges_def extra_charge_def intro: take_step_fields [OF assms(1) j n])
  next
    case False
    then have "subs g' = subs g \<and> cnt g' = cnt g" by (intro wrk_step_frame [OF step]) auto
    with False Wrk show ?thesis
      by (auto simp: charges_def extra_charge_def split: wrk_pc.splits)
  qed
next
  case (Cancel i)
  with assms(2) have i: "i < length (subs g)" and g': "g' = cancel i g" by (auto split: if_splits)
  have "cnt g' = cnt g" by (simp add: g' cancel_def split: sub_pc.split option.split)
  moreover have "charges g' = charges g"
    by (auto simp: g' cancel_def charges_def sum_map_update_int i split: sub_pc.split option.split)
  ultimately show ?thesis using Cancel by (simp add: extra_charge_def)
qed (use assms(2) in \<open>auto simp: charges_def extra_charge_def count_response_def split: if_splits\<close>)

text \<open>The extra charges of a run.\<close>

fun extra_charges :: "kernels \<Rightarrow> int \<Rightarrow> gate_event list \<Rightarrow> gate \<Rightarrow> int" where
  "extra_charges k bp [] g = 0"
| "extra_charges k bp (e # es) g =
     (case gate_exec k bp e g of
        None \<Rightarrow> 0
      | Some g' \<Rightarrow> extra_charge e g + extra_charges k bp es g')"

lemma extra_charges_nonneg: "0 \<le> extra_charges k bp es g"
  by (induction es arbitrary: g)
    (auto intro: add_nonneg_nonneg extra_charge_nonneg split: option.split)

context batch_kernels
begin

lemma run_charges:
  "run_events k bp es g = Some g' \<Longrightarrow> gate_inv digest g \<Longrightarrow>
     respErr (cnt g') - charges g' = respErr (cnt g) - charges g + extra_charges k bp es g"
proof (induction es arbitrary: g)
  case (Cons e es)
  then obtain g1 where g1: "gate_exec k bp e g = Some g1" "run_events k bp es g1 = Some g'"
    by (auto split: option.splits)
  then have "gate_inv digest g1" using Cons.prems(2) by (blast intro: gate_exec_inv)
  with Cons.IH [OF g1(2)] gate_exec_charge [OF Cons.prems(2) g1(1)] g1(1) show ?case by simp
qed simp

end

section \<open>Reservations are within the budget\<close>

lemma grant_within_budget:
  assumes "gate_exec k (initShedBudget gate budget) (Sub i ch) g = Some g'"
    and "(\<exists>seed ctx. subs g ! i = SEnter seed ctx) \<or> (\<exists>t. subs g ! i = SWait t)"
    and "respErr (cnt g') \<noteq> respErr (cnt g)"
  shows "respErr (cnt g') = respErr (cnt g) + 1 \<and>
    shed.within gate budget (respOK (cnt g')) (respErr (cnt g'))"
proof -
  let ?bp = "initShedBudget gate budget"
  obtain seen where seen: "seen \<le> respOK (cnt g)" "shed_admit ?bp seen (respErr (cnt g))"
      "respErr (cnt g') = respErr (cnt g) + 1" "respOK (cnt g') = respOK (cnt g)"
    using assms by (cases ch)
      (auto simp: front_door_def patience_fired_def receive_def split: if_splits option.splits)
  then show ?thesis using shed.grant_within [OF seen(2,1)] by simp
qed

text \<open>A refusal that asks for no reservation: the backstop of the stack, and a request whose client has gone.\<close>

definition forced_charge :: "gate_event \<Rightarrow> gate \<Rightarrow> int" where
  "forced_charge e g =
     (case e of
        Sub i ch \<Rightarrow> if i < length (subs g) \<and> subs g ! i \<in> {SBackstop, SAbandon} then 1 else 0
      | _ \<Rightarrow> 0)"

lemma forced_charge_nonneg: "0 \<le> forced_charge e g"
  by (simp add: forced_charge_def split: gate_event.split)

lemma gate_exec_ok:
  assumes "gate_inv digest g" "gate_exec k bp e g = Some g'"
  shows "respOK (cnt g') = (case e of Respond code \<Rightarrow> respOK (count_response code (cnt g)) | _ \<Rightarrow> respOK (cnt g))"
proof (cases e)
  case (Sub i ch)
  with assms(2) show ?thesis
    by (cases "(bp, i, ch, subs g ! i, g)" rule: sub_step.cases)
      (auto simp: sub_step_defs split: if_splits option.splits)
next
  case (Wrk j d)
  with assms(2) have j: "j < length (workers g)" and step: "wrk_step k j d (workers g ! j) g = Some g'"
    by (auto split: if_splits)
  show ?thesis
  proof (cases "\<exists>n. workers g ! j = WTake n")
    case True
    then obtain n where n: "workers g ! j = WTake n" by blast
    with step have "g' = take_step j n g" by simp
    with Wrk show ?thesis by (auto intro: take_step_fields [OF assms(1) j n])
  next
    case False
    with Wrk wrk_step_frame [OF step] show ?thesis by auto
  qed
qed (use assms in \<open>auto simp: cancel_def split: if_splits sub_pc.splits option.splits\<close>)

lemma gate_exec_keeps_ok:
  assumes "gate_inv digest g" "gate_exec k bp e g = Some g'"
  shows "respOK (cnt g) \<le> respOK (cnt g')"
  unfolding gate_exec_ok [OF assms] by (simp add: count_response_OK split: gate_event.split)

text \<open>Only a reservation and a forced refusal add to the charges of the requests.\<close>

lemma charges_grow:
  assumes inv: "gate_inv digest g" and step: "gate_exec k bp e g = Some g'"
  shows "charges g' \<le> charges g + forced_charge e g \<or>
    (\<exists>i ch. e = Sub i ch \<and> ((\<exists>seed ctx. subs g ! i = SEnter seed ctx) \<or> (\<exists>t. subs g ! i = SWait t)) \<and>
       respErr (cnt g') \<noteq> respErr (cnt g))"
proof (cases e)
  case (Sub i ch)
  with step have i: "i < length (subs g)" and st: "sub_step bp i ch (subs g ! i) g = Some g'"
    by (auto split: if_splits)
  note diff = sub_step_charge [OF i st]
  show ?thesis
  proof (cases "(\<exists>seed ctx. subs g ! i = SEnter seed ctx) \<or> (\<exists>t. subs g ! i = SWait t)")
    case True
    show ?thesis
    proof (cases "respErr (cnt g') = respErr (cnt g)")
      case True
      with diff forced_charge_nonneg [of e g] show ?thesis by simp
    qed (use True Sub in blast)
  next
    case False
    with st have "respErr (cnt g') \<le> respErr (cnt g) + (if subs g ! i \<in> {SBackstop, SAbandon} then 1 else 0)"
      by (cases "(bp, i, ch, subs g ! i, g)" rule: sub_step.cases)
        (auto simp: leave_wait_def receive_def charge_def split: if_splits option.splits)
    with diff i Sub show ?thesis by (simp add: forced_charge_def split: if_splits)
  qed
next
  case (Cancel i)
  with step have i: "i < length (subs g)" and g': "g' = cancel i g" by (auto split: if_splits)
  have "charges g' = charges g"
    by (auto simp: g' cancel_def charges_def sum_map_update_int i split: sub_pc.split option.split)
  with Cancel show ?thesis by (simp add: forced_charge_def)
next
  case (Wrk j d)
  with step have j: "j < length (workers g)" and st: "wrk_step k j d (workers g ! j) g = Some g'"
    by (auto split: if_splits)
  have "subs g' = subs g"
  proof (cases "\<exists>n. workers g ! j = WTake n")
    case True
    then obtain n where n: "workers g ! j = WTake n" by blast
    with st have "g' = take_step j n g" by simp
    then show ?thesis by (auto intro: take_step_fields [OF inv j n])
  next
    case False
    with wrk_step_frame [OF st] show ?thesis by auto
  qed
  with Wrk show ?thesis by (simp add: charges_def forced_charge_def)
qed (use step in \<open>auto simp: charges_def forced_charge_def split: if_splits\<close>)

text \<open>At every moment, not only at a grant: the charges that asked for a reservation are within the budget of the
  responses counted so far.\<close>

definition paid_for :: "int \<Rightarrow> int \<Rightarrow> gate \<Rightarrow> bool" where
  "paid_for bp u g \<longleftrightarrow>
     0 \<le> u \<and> charges g \<le> respErr (cnt g) \<and> (charges g - u) * (10000 - bp) \<le> respOK (cnt g) * bp"

lemma gate_exec_paid:
  assumes inv: "gate_inv digest g" and step: "gate_exec k (initShedBudget gate budget) e g = Some g'"
    and paid: "paid_for (initShedBudget gate budget) u g"
  shows "paid_for (initShedBudget gate budget) (u + forced_charge e g) g'"
proof -
  let ?bp = "initShedBudget gate budget"
  have bp: "0 \<le> ?bp" "?bp \<le> 10000"
    using initShedBudget_range [of gate budget] gateBP_range [of gate] by auto
  have covered: "charges g' \<le> respErr (cnt g')"
    using gate_exec_charge [OF inv step] paid extra_charge_nonneg [of e g] by (simp add: paid_for_def)
  have ok: "respOK (cnt g) * ?bp \<le> respOK (cnt g') * ?bp"
    using gate_exec_keeps_ok [OF inv step] bp by (intro mult_right_mono) simp_all
  have u: "0 \<le> u + forced_charge e g"
    using paid forced_charge_nonneg [of e g] by (simp add: paid_for_def)
  have "(charges g' - (u + forced_charge e g)) * (10000 - ?bp) \<le> respOK (cnt g') * ?bp"
    using charges_grow [OF inv step]
  proof
    assume "charges g' \<le> charges g + forced_charge e g"
    then have "(charges g' - (u + forced_charge e g)) * (10000 - ?bp) \<le> (charges g - u) * (10000 - ?bp)"
      using bp by (intro mult_right_mono) simp_all
    with ok paid show ?thesis unfolding paid_for_def by linarith
  next
    assume "\<exists>i ch. e = Sub i ch \<and> ((\<exists>seed ctx. subs g ! i = SEnter seed ctx) \<or> (\<exists>t. subs g ! i = SWait t)) \<and>
       respErr (cnt g') \<noteq> respErr (cnt g)"
    then obtain i ch where e: "e = Sub i ch" and pc: "(\<exists>seed ctx. subs g ! i = SEnter seed ctx) \<or> (\<exists>t. subs g ! i = SWait t)"
      and grant: "respErr (cnt g') \<noteq> respErr (cnt g)" by blast
    have "respErr (cnt g') * 10000 \<le> (respOK (cnt g') + respErr (cnt g')) * ?bp"
      using grant_within_budget [OF step [unfolded e] pc grant] unfolding shed.within_def by (rule conjunct2)
    then have "respErr (cnt g') * (10000 - ?bp) \<le> respOK (cnt g') * ?bp"
      by (simp add: algebra_simps)
    moreover have "(charges g' - (u + forced_charge e g)) * (10000 - ?bp) \<le> respErr (cnt g') * (10000 - ?bp)"
      using covered u bp by (intro mult_right_mono) simp_all
    ultimately show ?thesis by linarith
  qed
  with covered u show ?thesis by (simp add: paid_for_def)
qed

section \<open>The latency estimate under the non-atomic update\<close>

definition cost_ok :: "int \<Rightarrow> bool" where
  "cost_ok e \<longleftrightarrow> millisecond \<le> e \<and> e \<le> 500 * millisecond"

definition window_ok :: "int \<Rightarrow> bool" where
  "window_ok p \<longleftrightarrow> 700 * millisecond \<le> p \<and> p \<le> 1199 * millisecond"

fun op_ok :: "wop \<Rightarrow> bool" where
  "op_ok (StoreE e) = cost_ok e"
| "op_ok (StoreP p) = window_ok p"
| "op_ok _ = True"

fun wrk_lat_ok :: "wrk_pc \<Rightarrow> bool" where
  "wrk_lat_ok (WOps ops rest) = (\<forall>x \<in> set ops. op_ok x)"
| "wrk_lat_ok _ = True"

definition lat_inv :: "gate \<Rightarrow> bool" where
  "lat_inv g \<longleftrightarrow> cost_ok (riskChainEWMANs (lat g)) \<and> window_ok (riskPatienceNs (lat g)) \<and>
     (\<forall>pc \<in> set (workers g). wrk_lat_ok pc)"

lemma cost_ok_step: "cost_ok e \<Longrightarrow> cost_ok (e + (clamp_sample d - e) sdiv 8)"
  using ewma_between [of e "clamp_sample d"] clamp_sample_range [of d]
  by (auto simp: cost_ok_def)

lemma window_ok_patience: "cost_ok e \<Longrightarrow> window_ok (patience_for e)"
  by (auto simp: cost_ok_def window_ok_def patience_for_def Let_def latency_defs)

lemma rest_run_ops: "rest_run k sd ids d = Some (ops, rest) \<Longrightarrow> x \<in> set ops \<Longrightarrow> op_ok x"
  by (cases ids rule: remdups_adj.cases) (auto split: if_splits)

lemma dispatch_ops: "dispatch k sd ids d = Some (ops, rest) \<Longrightarrow> x \<in> set ops \<Longrightarrow> op_ok x"
  by (auto simp: dispatch_def x16_run_def quad_run_def dest: rest_run_ops
      split: if_splits option.splits prod.splits)

lemma after_run_lat:
  assumes "lat_inv g" "\<And>ops rest x. r = Some (ops, rest) \<Longrightarrow> x \<in> set ops \<Longrightarrow> op_ok x"
  shows "lat_inv (after_run j r g)"
proof -
  have "wrk_lat_ok (case r of None \<Rightarrow> WDead | Some (ops, rest) \<Rightarrow> WOps ops rest)"
    using assms(2) by (auto split: option.split)
  then show ?thesis
    using assms(1) set_update_subset_insert [of "workers g" j]
    by (fastforce simp: lat_inv_def after_run_def)
qed

lemma lat_inv_worker:
  assumes "lat_inv g" "workers g' = (workers g)[j := pc]" "wrk_lat_ok pc"
    and "cost_ok (riskChainEWMANs (lat g'))" "window_ok (riskPatienceNs (lat g'))"
  shows "lat_inv g'"
  using assms set_update_subset_insert [of "workers g" j pc] by (auto simp: lat_inv_def)

lemma gate_exec_lat:
  assumes inv: "lat_inv g" and safe: "gate_inv digest g" and step: "gate_exec k bp e g = Some g'"
  shows "lat_inv g'"
proof (cases e)
  case (Sub i ch)
  have "lat g' = lat g \<and> workers g' = workers g"
    using step Sub by (cases "(bp, i, ch, subs g ! i, g)" rule: sub_step.cases)
      (auto simp: sub_step_defs
        split: if_splits option.splits)
  with inv show ?thesis by (simp add: lat_inv_def)
next
  case (Cancel i)
  have "lat g' = lat g \<and> workers g' = workers g"
    using step Cancel by (auto simp: cancel_def split: if_splits sub_pc.splits option.splits)
  with inv show ?thesis by (simp add: lat_inv_def)
next
  case (Wrk j d)
  with step have j: "j < length (workers g)" and st: "wrk_step k j d (workers g ! j) g = Some g'"
    by (auto split: if_splits)
  note now = inv [unfolded lat_inv_def, THEN conjunct1] inv [unfolded lat_inv_def, THEN conjunct2, THEN conjunct1]
  show ?thesis
  proof (cases "workers g ! j")
    case (WTake n)
    then obtain pc where "workers g' = (workers g)[j := pc]" "pc = WIdleInc \<or> (\<exists>t. pc = WWork t)"
        "lat g' = lat g"
      using st take_step_fields [OF safe j WTake] by (metis option.inject wrk_step.simps(2))
    with now show ?thesis by (auto intro: lat_inv_worker [OF inv])
  next
    case (WWork ids)
    with st show ?thesis by (auto intro!: after_run_lat [OF inv] dest: dispatch_ops)
  next
    case (WOps ops rest)
    have ok: "\<forall>x \<in> set ops. op_ok x"
      using inv WOps nth_mem [OF j] by (fastforce simp: lat_inv_def)
    show ?thesis
    proof (cases ops)
      case Nil
      with WOps st now show ?thesis by (auto intro!: lat_inv_worker [OF inv])
    next
      case (Cons x xs)
      with WOps st ok now show ?thesis
        by (cases x) (auto simp: Let_def cost_ok_step window_ok_patience
            intro!: lat_inv_worker [OF inv] split: option.splits)
    qed
  next
    case (WRest ids)
    with st now show ?thesis
      by (cases ids) (auto intro!: after_run_lat [OF inv] lat_inv_worker [OF inv] dest: rest_run_ops)
  qed (use st now in \<open>auto intro!: lat_inv_worker [OF inv] split: if_splits\<close>)
qed (use inv step in \<open>auto simp: lat_inv_def split: if_splits\<close>)

lemma gate_init_lat:
  "cost_ok (riskChainEWMANs l) \<Longrightarrow> window_ok (riskPatienceNs l) \<Longrightarrow> lat_inv (gate_init slots c l time)"
  by (simp add: lat_inv_def gate_init_def)

context batch_kernels
begin

lemma runs_lat: "gate_runs k bp g\<^sub>0 es g \<Longrightarrow> gate_inv digest g\<^sub>0 \<Longrightarrow> lat_inv g\<^sub>0 \<Longrightarrow> lat_inv g"
  by (induction rule: gate_runs.induct) (auto intro: gate_exec_lat runs_inv)

end

section \<open>A worker delivers in bounded time\<close>

fun op_work :: "wop \<Rightarrow> nat" where
  "op_work (Obs d) = 3"
| "op_work (StoreE e) = 2"
| "op_work (StoreP p) = 1"
| "op_work (Send a h) = 1"

fun work_left :: "wrk_pc \<Rightarrow> nat" where
  "work_left (WWork ids) = 6 * length ids + 2"
| "work_left (WOps ops rest) = sum_list (map op_work ops) + 6 * length rest + 2"
| "work_left (WRest ids) = 6 * length ids + 1"
| "work_left _ = 0"

lemma op_work_run:
  assumes "\<And>x. x \<in> set ops \<Longrightarrow> (\<exists>d. x = Obs d) \<or> (\<exists>a h. x = Send a h)"
  shows "sum_list (map op_work ops) = 3 * observations ops + length (sends ops)"
  using assms
proof (induction ops)
  case (Cons x xs)
  then have "sum_list (map op_work xs) = 3 * observations xs + length (sends xs)" by simp
  then show ?case using Cons.prems [of x] by auto
qed simp

lemma rest_run_shape:
  "rest_run k sd ids d = Some (ops, rest) \<Longrightarrow> x \<in> set ops \<Longrightarrow> (\<exists>d. x = Obs d) \<or> (\<exists>a h. x = Send a h)"
  by (cases ids rule: remdups_adj.cases) (auto split: if_splits)

lemma dispatch_shape:
  "dispatch k sd ids d = Some (ops, rest) \<Longrightarrow> x \<in> set ops \<Longrightarrow> (\<exists>d. x = Obs d) \<or> (\<exists>a h. x = Send a h)"
  by (auto simp: dispatch_def x16_run_def quad_run_def dest: rest_run_shape
      split: if_splits option.splits prod.splits)

lemma rest_run_serves:
  "rest_run k sd ids d = Some (ops, rest) \<Longrightarrow> ids \<noteq> [] \<Longrightarrow> sends ops \<noteq> []"
  by (cases ids rule: remdups_adj.cases) (auto split: if_splits)

context batch_kernels
begin

text \<open>Every own step of a worker with waiters in hand is enabled and brings it closer to the top of its
  loop.\<close>

lemma busy_worker_steps:
  assumes inv: "gate_inv digest g" and j: "j < length (workers g)"
    and busy: "0 < work_left (workers g ! j)"
  obtains g' where "wrk_step k j d (workers g ! j) g = Some g'"
    "work_left (workers g' ! j) < work_left (workers g ! j)"
proof (cases "workers g ! j")
  case (WWork ids)
  then have ids: "ids \<noteq> []" "length ids \<le> 16" using gate_invD(3) [OF inv j] by auto
  from dispatch_ok [OF this, of "seed_of g" d] obtain ops rest where r:
    "dispatch k (seed_of g) ids d = Some (ops, rest)" "map fst (sends ops) @ rest = ids"
    "observations ops = length (sends ops)" by blast
  have "sum_list (map op_work ops) = 4 * length (sends ops)"
    using op_work_run [of ops] dispatch_shape [OF r(1)] r(3) by fastforce
  moreover have "length (sends ops) + length rest = length ids" "sends ops \<noteq> []"
  proof -
    show "length (sends ops) + length rest = length ids"
      using arg_cong [OF r(2), of length] by simp
    show "sends ops \<noteq> []"
      using r ids rest_run_serves [of k "seed_of g" ids d ops rest]
      by (auto simp: dispatch_def x16_run_def quad_run_def split: if_splits option.splits prod.splits)
  qed
  ultimately show thesis
    using WWork r(1) j by (intro that [of "after_run j (Some (ops, rest)) g"])
      (auto simp: after_run_def neq_Nil_conv)
next
  case (WOps ops rest)
  show thesis
  proof (cases ops)
    case Nil
    then show ?thesis using WOps j by (intro that [of "set_wrk j (WRest rest) g"]) auto
  next
    case (Cons x xs)
    have "\<exists>w. heap g a = Some w \<and> wresult w = None" if "x = Send a h" for a h
      by (rule owned_waiter [OF inv nth_mem [OF j], of a]) (use that WOps Cons in auto)
    then obtain g' where "op_step j x xs rest g = Some g'"
      by (cases x) (auto simp: Let_def)
    moreover have "work_left (workers g' ! j) < work_left (WOps (x # xs) rest)"
      using calculation j by (cases x) (auto simp: Let_def split: option.splits)
    ultimately show ?thesis using WOps Cons by (intro that) auto
  qed
next
  case (WRest ids)
  show thesis
  proof (cases ids)
    case Nil
    then show ?thesis using WRest j by (intro that [of "set_wrk j WTop g"]) auto
  next
    case (Cons a as)
    then have "ids \<noteq> []" by simp
    from rest_run_ok [OF this, of "seed_of g" d] obtain ops rest where r:
      "rest_run k (seed_of g) ids d = Some (ops, rest)" "map fst (sends ops) @ rest = ids"
      "observations ops = length (sends ops)" by blast
    have "sum_list (map op_work ops) = 4 * length (sends ops)"
      using op_work_run [of ops] rest_run_shape [OF r(1)] r(3) by fastforce
    moreover have "length (sends ops) + length rest = length ids"
      using arg_cong [OF r(2), of length] by simp
    moreover obtain n where "length (sends ops) = Suc n"
      using rest_run_serves [OF r(1)] Cons by (cases "sends ops") auto
    ultimately show ?thesis
      using WRest Cons r(1) j by (intro that [of "after_run j (Some (ops, rest)) g"])
        (auto simp: after_run_def)
  qed
qed (use busy in simp_all)

text \<open>A worker blocks nowhere but on the empty wake channel.\<close>

lemma worker_blocks:
  assumes "gate_inv digest g" "j < length (workers g)" "wrk_step k j d (workers g ! j) g = None"
  shows "workers g ! j = WRecv \<and> riskWork g = 0"
proof (cases "0 < work_left (workers g ! j)")
  case True
  then show ?thesis using busy_worker_steps [OF assms(1,2)] assms(3) by (metis option.distinct(1))
next
  case False
  then show ?thesis
    using assms(3) gate_invD(3) [OF assms(1,2)] by (cases "workers g ! j") (auto split: if_splits)
qed

end

end
