(* ===== verification/Gate_Answers.thy ===== *)
theory Gate_Answers
  imports Gate_Accounts
begin

text \<open>
  The answers of the admission gate, end to end: the \<open>i\<close>-th request to arrive is answered, if it is,
  with the digest of the \<open>i\<close>-th seed.
\<close>

text \<open>The seeds of a run, in order of arrival.\<close>

fun arrivals :: "gate_event list \<Rightarrow> string list" where
  "arrivals [] = []"
| "arrivals (Arrive seed ctx # es) = seed # arrivals es"
| "arrivals (_ # es) = arrivals es"

lemma arrivals_append [simp]: "arrivals (xs @ ys) = arrivals xs @ arrivals ys"
  by (induction xs rule: arrivals.induct) auto

definition seeds_inv :: "string list \<Rightarrow> gate \<Rightarrow> bool" where
  "seeds_inv ss g \<longleftrightarrow> length (subs g) = length ss \<and>
     (\<forall>i < length ss. (\<forall>w. heap g i = Some w \<longrightarrow> wseed w = ss ! i) \<and>
        (\<forall>s c. subs g ! i = SEnter s c \<longrightarrow> s = ss ! i))"

text \<open>A step keeps the seed of every request.\<close>

definition keeps_seeds :: "gate \<Rightarrow> gate \<Rightarrow> bool" where
  "keeps_seeds g g' \<longleftrightarrow> length (subs g') = length (subs g) \<and>
     (\<forall>i w'. heap g' i = Some w' \<longrightarrow>
        (\<exists>w. heap g i = Some w \<and> wseed w = wseed w') \<or> (\<exists>c. subs g ! i = SEnter (wseed w') c)) \<and>
     (\<forall>i s c. subs g' ! i = SEnter s c \<longrightarrow> (\<exists>c'. subs g ! i = SEnter s c'))"

lemma seeds_inv_keeps: "seeds_inv ss g \<Longrightarrow> keeps_seeds g g' \<Longrightarrow> seeds_inv ss g'"
  unfolding seeds_inv_def keeps_seeds_def by metis

lemma keeps_same: "heap g' = heap g \<Longrightarrow> subs g' = subs g \<Longrightarrow> keeps_seeds g g'"
  by (auto simp: keeps_seeds_def)

lemma keeps_update:
  assumes "subs g' = (subs g)[i := pc]" "\<And>s c. pc = SEnter s c \<Longrightarrow> \<exists>c'. subs g ! i = SEnter s c'"
    and "\<And>a w'. heap g' a = Some w' \<Longrightarrow>
      (\<exists>w. heap g a = Some w \<and> wseed w = wseed w') \<or> (\<exists>c. subs g ! a = SEnter (wseed w') c)"
  shows "keeps_seeds g g'"
proof -
  have "\<exists>c'. subs g ! a = SEnter s c'" if "subs g' ! a = SEnter s c" for a s c
    using that assms(1,2) by (cases "a = i"; cases "i < length (subs g)") (auto simp: list_update_beyond)
  with assms(1,3) show ?thesis by (simp add: keeps_seeds_def)
qed

lemma sub_step_seeds:
  assumes "sub_step bp i ch (subs g ! i) g = Some g'"
  shows "keeps_seeds g g'"
proof -
  have keep: "\<exists>pc. subs g' = (subs g)[i := pc] \<and> (\<forall>s c. pc \<noteq> SEnter s c) \<and>
      (\<forall>a w'. heap g' a = Some w' \<longrightarrow>
         (\<exists>w. heap g a = Some w \<and> wseed w = wseed w') \<or> (\<exists>c. subs g ! a = SEnter (wseed w') c))"
    using assms by (cases "(bp, i, ch, subs g ! i, g)" rule: sub_step.cases)
      (auto simp: sub_step_defs new_waiter_def
        split: if_splits option.splits)
  then obtain pc where "subs g' = (subs g)[i := pc]" "\<And>s c. pc \<noteq> SEnter s c"
      "\<And>a w'. heap g' a = Some w' \<Longrightarrow>
         (\<exists>w. heap g a = Some w \<and> wseed w = wseed w') \<or> (\<exists>c. subs g ! a = SEnter (wseed w') c)"
    by blast
  then show ?thesis by (intro keeps_update) auto
qed

lemma take_step_seeds:
  assumes "gate_inv digest g"
  shows "keeps_seeds g (take_step j n g)"
proof -
  obtain xs where "stack_ok g xs" using gate_invD(1) [OF assms] by blast
  then obtain g' t r c where take: "riskTakeWork (clock g) (riskPatienceNs (lat g)) n g = Some (g', t, c)"
      "heap g' = mark_taken (set t) (heap g)" "wstack.more g' = wstack.more g"
    by (rule take_step_cases)
  then show ?thesis
    using more_fields(2) [OF take(3)]
    by (auto simp: keeps_seeds_def take_step_def mark_taken_def split: if_splits)
qed

lemma wrk_step_seeds:
  assumes "gate_inv digest g" "wrk_step k j d (workers g ! j) g = Some g'"
  shows "keeps_seeds g g'"
proof (cases "\<exists>n. workers g ! j = WTake n")
  case True
  with assms show ?thesis by (auto intro: take_step_seeds)
next
  case False
  show ?thesis
    using assms(2) False by (cases "(k, j, d, workers g ! j, g)" rule: wrk_step.cases;
        cases "case workers g ! j of WOps (x # _) _ \<Rightarrow> x | _ \<Rightarrow> Obs 0")
      (auto simp: Let_def after_run_def keeps_seeds_def split: if_splits option.splits)
qed

lemma gate_exec_seeds:
  assumes inv: "gate_inv digest g" and ss: "seeds_inv ss g" and step: "gate_exec k bp e g = Some g'"
  shows "seeds_inv (ss @ arrivals [e]) g'"
proof (cases e)
  case (Arrive seed ctx)
  have "heap g (length (subs g)) = None"
    using gate_invD(2) [OF inv, of "length (subs g)"] by (cases "heap g (length (subs g))") (auto simp: pc_at_def)
  then show ?thesis
    using Arrive step ss by (auto simp: seeds_inv_def nth_append less_Suc_eq)
next
  case (Cancel i)
  have "keeps_seeds g g'"
  proof (cases "\<exists>s c. subs g ! i = SEnter s c")
    case True
    then obtain s c where "subs g ! i = SEnter s c" by blast
    with Cancel step show ?thesis
      by (auto simp: cancel_def intro!: keeps_update [where i = i and pc = "SEnter s True"] split: if_splits)
  next
    case False
    with Cancel step show ?thesis
      by (auto simp: cancel_def keeps_seeds_def split: if_splits sub_pc.splits option.splits)
  qed
  with ss Cancel show ?thesis by (auto intro: seeds_inv_keeps)
next
  case (Sub i ch)
  with step ss show ?thesis by (auto intro: seeds_inv_keeps sub_step_seeds split: if_splits)
next
  case (Wrk j d)
  with step ss show ?thesis by (auto intro: seeds_inv_keeps wrk_step_seeds [OF inv] split: if_splits)
next
  case (Tick d)
  have "keeps_seeds g g'" using step Tick by (intro keeps_same) (auto split: if_splits)
  with ss Tick show ?thesis by (auto intro: seeds_inv_keeps)
next
  case (Respond code)
  have "keeps_seeds g g'" using step Respond by (intro keeps_same) auto
  with ss Respond show ?thesis by (auto intro: seeds_inv_keeps)
qed

context batch_kernels
begin

lemma runs_seeds:
  "gate_runs k bp (gate_init slots c l time) es g \<Longrightarrow> seeds_inv (arrivals es) g"
proof (induction rule: gate_runs.induct)
  case start
  show ?case by (simp add: seeds_inv_def gate_init_def)
next
  case (exec es g e g')
  then show ?case
    using gate_exec_seeds [OF runs_inv [OF exec.hyps(1) gate_init_inv]] by simp
qed

lemma answers:
  assumes run: "gate_runs k bp (gate_init slots c l time) es g"
    and i: "i < length (subs g)" "subs g ! i = SReturn (Some h)"
  shows "h = digest (arrivals es ! i)"
proof -
  have inv: "gate_inv digest g" by (rule runs_inv [OF run gate_init_inv])
  obtain w where "heap g i = Some w" "h = digest (wseed w)"
    using slot_at [OF inv i(1)] i(2) by (cases "heap g i") auto
  then show ?thesis using runs_seeds [OF run] i(1) by (simp add: seeds_inv_def)
qed

end

end
