(* ===== verification/Service.thy ===== *)
theory Service
  imports Contract Boot Gate_Answers
begin

text \<open>
  The parts together: the handlers over the tables and the admission gate over the waiters share the response
  counters, and connection goroutines run them interleaved. A request to \<open>/risk\<close> enters the gate and its handler
  responds when \<open>riskSubmit\<close> has returned; any other request runs its handler at once. \<open>writeJSON\<close> writes first and
  counts afterwards: a response is sent in one step and counted in a later one, with anything in between. The
  service refines the gate (its steps are runs of the gate), and its counters are compared with the responses the
  clients have got and those still to be counted.
\<close>

section \<open>The state and its steps\<close>

record 'f service =
  gate_of :: gate
  app_of :: "'f app"
  risk_reqs :: "request list"
  risk_done :: "nat list"
  responses :: "(request \<times> int \<times> string) list"  \<comment> \<open>written to their connections\<close>
  uncounted :: "(request \<times> counters) list"  \<comment> \<open>written, with what their handler has yet to add to the counters\<close>

definition zero_counters :: counters where
  "zero_counters = \<lparr>respOK = 0, respErr = 0\<rparr>"

definition add_counters :: "counters \<Rightarrow> counters \<Rightarrow> counters" where
  "add_counters d c = \<lparr>respOK = respOK c + respOK d, respErr = respErr c + respErr d\<rparr>"

definition service_init :: "nat \<Rightarrow> 'f app \<Rightarrow> latency \<Rightarrow> int \<Rightarrow> 'f service" where
  "service_init slots a l time =
     \<lparr>gate_of = gate_init slots (resp_counters a) l time, app_of = a, risk_reqs = [], risk_done = [],
      responses = [], uncounted = []\<rparr>"

text \<open>A handler runs on the tables and its response goes out. What the handler adds to the counters (it is run on
  counters at zero) is left for a later step: \<open>writeJSON\<close> counts when its write has returned, and
  \<open>writeJSONUncounted\<close> leaves nothing to count.\<close>

definition respond :: "'f float64 \<Rightarrow> 'f submit \<Rightarrow> request \<Rightarrow> 'f service \<Rightarrow> 'f service" where
  "respond F submit q s =
     (let ((code, body), a) = answer_of F submit q ((app_of s)\<lparr>resp_counters := zero_counters\<rparr>) in
      s\<lparr>app_of := a, responses := responses s @ [(q, code, body)],
        uncounted := uncounted s @ (if resp_counters a = zero_counters then [] else [(q, resp_counters a)])\<rparr>)"

text \<open>The \<open>i\<close>-th of the goroutines that have written and not counted does its atomic addition.\<close>

definition count_next :: "nat \<Rightarrow> 'f service \<Rightarrow> 'f service" where
  "count_next i s =
     s\<lparr>gate_of := (gate_of s)\<lparr>cnt := add_counters (snd (uncounted s ! i)) (cnt (gate_of s))\<rparr>,
       uncounted := take i (uncounted s) @ drop (Suc i) (uncounted s)\<rparr>"

datatype service_event =
    Step gate_event  \<comment> \<open>inside the gate: a submitter, a worker, the clock, a disconnect\<close>
  | Request request  \<comment> \<open>a request to another path, from arrival to the write of its response\<close>
  | RiskRequest request bool  \<comment> \<open>a request to \<open>/risk\<close> calls \<open>riskSubmit\<close>\<close>
  | RiskReply nat  \<comment> \<open>\<open>riskSubmit\<close> has returned for the \<open>i\<close>-th of them: the handler responds\<close>
  | AddCounter nat  \<comment> \<open>the atomic addition of \<open>writeJSON\<close>, after the write\<close>

fun internal :: "gate_event \<Rightarrow> bool" where
  "internal (Arrive seed ctx) = False"
| "internal (Respond code) = False"
| "internal e = True"

fun service_exec :: "'f float64 \<Rightarrow> kernels \<Rightarrow> int \<Rightarrow> service_event \<Rightarrow> 'f service \<Rightarrow> 'f service option" where
  "service_exec F k bp (Step e) s =
     (if internal e then map_option (\<lambda>g. s\<lparr>gate_of := g\<rparr>) (gate_exec k bp e (gate_of s)) else None)"
| "service_exec F k bp (Request q) s =
     (if Path q = ''/risk'' then None else Some (respond F (\<lambda>seed a. (None, a)) q s))"
| "service_exec F k bp (RiskRequest q ctx) s =
     (if Path q = ''/risk''
      then map_option (\<lambda>g. s\<lparr>gate_of := g, risk_reqs := risk_reqs s @ [q]\<rparr>)
             (gate_exec k bp (Arrive (risk_seed q) ctx) (gate_of s))
      else None)"
| "service_exec F k bp (RiskReply i) s =
     (if i < length (subs (gate_of s)) \<and> i \<notin> set (risk_done s)
      then case subs (gate_of s) ! i of
             SReturn res \<Rightarrow>
               Some (respond F (\<lambda>seed a. (res, a)) (risk_reqs s ! i) (s\<lparr>risk_done := i # risk_done s\<rparr>))
           | _ \<Rightarrow> None
      else None)"
| "service_exec F k bp (AddCounter i) s = (if i < length (uncounted s) then Some (count_next i s) else None)"

fun service_run :: "'f float64 \<Rightarrow> kernels \<Rightarrow> int \<Rightarrow> service_event list \<Rightarrow> 'f service \<Rightarrow> 'f service option" where
  "service_run F k bp [] s = Some s"
| "service_run F k bp (e # es) s = Option.bind (service_exec F k bp e s) (service_run F k bp es)"

lemma service_run_invariant:
  assumes "service_run F k bp es s = Some s'" "P s"
    and "\<And>e s s'. P s \<Longrightarrow> service_exec F k bp e s = Some s' \<Longrightarrow> P s'"
  shows "P s'"
  using assms(1,2) by (induction es arbitrary: s) (auto simp: bind_eq_Some_conv intro: assms(3))

text \<open>A quantity summed over the steps of a run, and invariants that mention it.\<close>

fun run_total :: "'f float64 \<Rightarrow> kernels \<Rightarrow> int \<Rightarrow> (service_event \<Rightarrow> 'f service \<Rightarrow> int) \<Rightarrow>
    service_event list \<Rightarrow> 'f service \<Rightarrow> int" where
  "run_total F k bp w [] s = 0"
| "run_total F k bp w (e # es) s =
     (case service_exec F k bp e s of None \<Rightarrow> 0 | Some s' \<Rightarrow> w e s + run_total F k bp w es s')"

lemma service_run_total:
  assumes "service_run F k bp es s = Some s'" "P t s"
    and "\<And>t e s s'. P t s \<Longrightarrow> service_exec F k bp e s = Some s' \<Longrightarrow> P (t + w e s) s'"
  shows "P (t + run_total F k bp w es s) s'"
  using assms(1,2)
proof (induction es arbitrary: t s)
  case (Cons e es)
  then obtain s1 where "service_exec F k bp e s = Some s1" "service_run F k bp es s1 = Some s'"
    by (auto simp: bind_eq_Some_conv)
  with Cons.IH [of s1 "t + w e s"] assms(3) Cons.prems show ?case by (simp add: add.assoc)
qed simp

lemma run_total_nonneg: "(\<And>e s. 0 \<le> w e s) \<Longrightarrow> 0 \<le> run_total F k bp w es s"
  by (induction es arbitrary: s) (simp_all split: option.split)

section \<open>Responses are counted\<close>

text \<open>A handler other than that of \<open>/risk\<close> goes through \<open>writeJSON\<close>, once.\<close>

definition counts_at :: "('f http \<Rightarrow> 'f http) \<Rightarrow> 'f app \<Rightarrow> bool" where
  "counts_at f s \<longleftrightarrow>
     (\<exists>code body t. resp_counters t = resp_counters s \<and> (\<forall>w. f (w, s) = writeJSON code body (w, t)))"

lemma counts_atI:
  "(\<And>w. f (w, s) = writeJSON code body (w, t)) \<Longrightarrow> resp_counters t = resp_counters s \<Longrightarrow> counts_at f s"
  unfolding counts_at_def by blast

lemma counts_at_price: "counts_at (handlePrice F q) s"
proof (cases "Method q = ''POST''")
  case True
  show ?thesis
  proof (cases "decode_post F (Body q)")
    case None
    with True show ?thesis
      by (intro counts_atI [where t = s]) (simp_all add: handlePrice_def handlePricePost_def)
  next
    case (Some e)
    obtain symb p where e: "e = (symb, p)" by (cases e)
    obtain ok t where ap: "appendWAL F symb p s = (ok, t)" by (metis surj_pair)
    have t: "resp_counters t = resp_counters s" using appendWAL_tables [OF ap] by simp
    show ?thesis
    proof (cases ok)
      case True
      have "handlePrice F q (w, s) = writeJSON 200 (the (priceResp (set_price F symb p t) symb)) (w, set_price F symb p t)" for w
        using \<open>Method q = ''POST''\<close> Some e ap True by (simp add: handlePrice_def handlePricePost_def Let_def)
      then show ?thesis by (rule counts_atI) (simp add: set_price_def t)
    next
      case False
      have "handlePrice F q (w, s) = writeJSON 500 (error_body ''persistence failure'') (w, t)" for w
        using \<open>Method q = ''POST''\<close> Some e ap False by (simp add: handlePrice_def handlePricePost_def)
      then show ?thesis by (rule counts_atI) (rule t)
    qed
  qed
next
  case False
  then show ?thesis
    by (cases "priceResp s (symbolParam (RawQuery q))")
      (auto simp: handlePrice_def intro!: counts_atI [where t = s])
qed

lemma counts_at_stats: "counts_at (handleStats F q) s"
  by (cases "series s (symbolParam (RawQuery q))") (auto simp: handleStats_def intro!: counts_atI [where t = s])

lemma counts_at_if: "(P \<Longrightarrow> counts_at f s) \<Longrightarrow> (\<not> P \<Longrightarrow> counts_at g s) \<Longrightarrow> counts_at (\<lambda>h. if P then f h else g h) s"
  by (cases P) simp_all

lemma counts_at_dispatch: "Path q \<noteq> ''/risk'' \<Longrightarrow> counts_at (dispatch_path F submit q) s"
proof -
  have "counts_at (writeJSON code body) s" for code body
    by (rule counts_atI) simp_all
  then show "Path q \<noteq> ''/risk'' \<Longrightarrow> counts_at (dispatch_path F submit q) s"
    unfolding dispatch_path_def [abs_def] using counts_at_price [of F q s] counts_at_stats [of F q s]
    by (intro counts_at_if) simp_all
qed

lemma answer_counted:
  assumes "Path q \<noteq> ''/risk''" "answer_of F submit q s = ((code, body), s')"
  shows "resp_counters s' = count_response code (resp_counters s)"
proof -
  obtain c b t where t: "resp_counters t = resp_counters s"
      "dispatch_path F submit q (Std std_new, s) = writeJSON c b (Std std_new, t)"
    using counts_at_dispatch [OF assms(1), of F submit s] unfolding counts_at_def by blast
  from answer_of_writeJSON [OF t(2)] assms(2) t(1) show ?thesis by auto
qed


text \<open>What \<open>writeJSON\<close> adds for a status.\<close>

definition counted :: "int \<Rightarrow> counters" where
  "counted code = count_response code zero_counters"

lemma counted_simps [simp]:
  "counted code \<noteq> zero_counters" "add_counters (counted code) c = count_response code c"
  "respOK (counted code) = (if code < 400 then 1 else 0)" "respErr (counted code) = (if code < 400 then 0 else 1)"
  by (simp_all add: counted_def count_response_def zero_counters_def add_counters_def)

lemma respond_gate:
  assumes "Path q \<noteq> ''/risk''"
  obtains code body where "responses (respond F submit q s) = responses s @ [(q, code, body)]"
    "gate_of (respond F submit q s) = gate_of s"
    "uncounted (respond F submit q s) = uncounted s @ [(q, counted code)]"
    "risk_reqs (respond F submit q s) = risk_reqs s" "risk_done (respond F submit q s) = risk_done s"
    "answer_of F submit q ((app_of s)\<lparr>resp_counters := zero_counters\<rparr>) = ((code, body), app_of (respond F submit q s))"
proof -
  obtain code body a where a: "answer_of F submit q ((app_of s)\<lparr>resp_counters := zero_counters\<rparr>) = ((code, body), a)"
    by (metis surj_pair)
  with answer_counted [OF assms a] show thesis
    by (intro that [of code body]) (simp_all add: respond_def flip: counted_def)
qed

lemma respond_risk:
  assumes "Path q = ''/risk''"
  shows "respond F (\<lambda>seed a. (res, a)) q s =
    (case res of
       None \<Rightarrow> s\<lparr>app_of := (app_of s)\<lparr>resp_counters := zero_counters\<rparr>,
                 responses := responses s @ [(q, 503, overloadedBody)]\<rparr>
     | Some d \<Rightarrow> s\<lparr>app_of := (app_of s)\<lparr>resp_counters := counted 200\<rparr>,
           responses := responses s @ [(q, 200, risk_body (risk_seed q) d)],
           uncounted := uncounted s @ [(q, counted 200)]\<rparr>)"
proof -
  let ?a = "(app_of s)\<lparr>resp_counters := zero_counters\<rparr>"
  have "answer_of F (\<lambda>seed a. (res, a)) q ?a =
      (case res of
         None \<Rightarrow> ((503, overloadedBody), ?a)
       | Some d \<Rightarrow> ((200, risk_body (risk_seed q) d), ?a\<lparr>resp_counters := count_response 200 (resp_counters ?a)\<rparr>))"
    using assms by (rule risk_answer) simp
  then show ?thesis
    by (cases res) (simp_all add: respond_def Let_def flip: counted_def)
qed

section \<open>The service refines the gate\<close>

text \<open>What a step of the service is to the gate.\<close>

definition gate_events :: "service_event \<Rightarrow> 'f service \<Rightarrow> gate_event list" where
  "gate_events e s =
     (case e of
        Step e \<Rightarrow> [e]
      | RiskRequest q ctx \<Rightarrow> [Arrive (risk_seed q) ctx]
      | AddCounter i \<Rightarrow> [Respond (if respErr (snd (uncounted s ! i)) = 0 then 200 else 500)]
      | _ \<Rightarrow> [])"

text \<open>The responses to be counted are those of \<open>writeJSON\<close>; a \<open>/risk\<close> response among them is a 200.\<close>

definition uncounted_ok :: "(request \<times> counters) list \<Rightarrow> bool" where
  "uncounted_ok us \<longleftrightarrow> (\<forall>(q, d) \<in> set us. \<exists>code. d = counted code \<and> (Path q = ''/risk'' \<longrightarrow> code < 400))"

lemma uncounted_ok_simps [simp]:
  "uncounted_ok []"
  "uncounted_ok (us @ [(q, counted code)]) \<longleftrightarrow> uncounted_ok us \<and> (Path q = ''/risk'' \<longrightarrow> code < 400)"
proof -
  have "counted code = counted c \<Longrightarrow> (code < 400) = (c < 400)" for c
    by (metis counted_simps(3) zero_neq_one)
  then have "(\<exists>c. counted code = counted c \<and> (Path q = ''/risk'' \<longrightarrow> c < 400)) \<longleftrightarrow> (Path q = ''/risk'' \<longrightarrow> code < 400)"
    by blast
  then show "uncounted_ok (us @ [(q, counted code)]) \<longleftrightarrow> uncounted_ok us \<and> (Path q = ''/risk'' \<longrightarrow> code < 400)"
    unfolding uncounted_ok_def by (simp add: conj_commute)
qed (simp add: uncounted_ok_def)

lemma uncounted_ok_nth:
  assumes "uncounted_ok us" "i < length us"
  obtains code where "snd (us ! i) = counted code" "Path (fst (us ! i)) = ''/risk'' \<longrightarrow> code < 400"
  using assms nth_mem [OF assms(2)] by (fastforce simp: uncounted_ok_def)

lemma uncounted_ok_remove: "uncounted_ok us \<Longrightarrow> uncounted_ok (take i us @ drop (Suc i) us)"
  by (auto simp: uncounted_ok_def dest: in_set_takeD in_set_dropD)

text \<open>Every request to \<open>/risk\<close> has its submitter; the answered ones have returned, and are answered once.\<close>

definition service_shape :: "'f service \<Rightarrow> bool" where
  "service_shape s \<longleftrightarrow>
     seeds_inv (map risk_seed (risk_reqs s)) (gate_of s) \<and> (\<forall>q \<in> set (risk_reqs s). Path q = ''/risk'') \<and>
     distinct (risk_done s) \<and>
     (\<forall>i \<in> set (risk_done s). i < length (subs (gate_of s)) \<and> (\<exists>res. subs (gate_of s) ! i = SReturn res)) \<and>
     uncounted_ok (uncounted s)"

lemma reply_cases:
  assumes "service_exec F k bp (RiskReply i) s = Some s'" "service_shape s"
  obtains res where "i < length (subs (gate_of s))" "i \<notin> set (risk_done s)" "subs (gate_of s) ! i = SReturn res"
    "Path (risk_reqs s ! i) = ''/risk''"
    "s' = respond F (\<lambda>seed a. (res, a)) (risk_reqs s ! i) (s\<lparr>risk_done := i # risk_done s\<rparr>)"
  using assms by (auto simp: service_shape_def seeds_inv_def split: if_splits sub_pc.splits)

lemma count_step:
  assumes "service_exec F k bp (AddCounter i) s = Some s'" "service_shape s"
  obtains code where "i < length (uncounted s)" "snd (uncounted s ! i) = counted code"
    "s' = count_next i s"
    "gate_of s' = (gate_of s)\<lparr>cnt := count_response code (cnt (gate_of s))\<rparr>"
proof -
  have i: "i < length (uncounted s)" "s' = count_next i s"
    using assms(1) by (auto split: if_splits)
  have "uncounted_ok (uncounted s)" using assms(2) by (simp add: service_shape_def)
  then obtain code where "snd (uncounted s ! i) = counted code"
    using i(1) by (rule uncounted_ok_nth)
  with i that show thesis by (simp add: count_next_def)
qed

text \<open>A step changes the gate by one of the gate's events, or writes a response and leaves the gate alone.\<close>

lemma service_step_cases [consumes 2, case_names same gate]:
  assumes "service_exec F k bp e s = Some s'" "service_shape s"
  obtains (same) "gate_events e s = []" "gate_of s' = gate_of s"
  | (gate) ev where "gate_events e s = [ev]" "gate_exec k bp ev (gate_of s) = Some (gate_of s')"
proof (cases e)
  case (Request q)
  with assms(1) have q: "Path q \<noteq> ''/risk''" and s': "s' = respond F (\<lambda>seed a. (None, a)) q s"
    by (auto split: if_splits)
  have "gate_of s' = gate_of s"
    by (rule respond_gate [OF q, of F "\<lambda>seed a. (None, a)" s]) (simp add: s')
  with Request same show thesis by (simp add: gate_events_def)
next
  case (RiskReply i)
  have "gate_of s' = gate_of s"
    by (rule reply_cases [OF assms(1) [unfolded RiskReply] assms(2)]) (simp add: respond_risk split: option.split)
  with RiskReply same show thesis by (simp add: gate_events_def)
next
  case (AddCounter i)
  show thesis
    by (rule count_step [OF assms(1) [unfolded AddCounter] assms(2)])
      (auto simp: AddCounter gate_events_def count_response_def intro!: gate)
qed (use assms(1) gate in \<open>auto simp: gate_events_def split: if_splits\<close>)

text \<open>A returned submitter stays returned.\<close>

lemma returned_stays:
  assumes "gate_inv digest g" "gate_exec k bp e g = Some g'" "subs g ! i = SReturn res" "i < length (subs g)"
  shows "subs g' ! i = SReturn res \<and> i < length (subs g')"
proof (cases e)
  case (Sub j ch)
  have "\<exists>pc. subs g' = (subs g)[j := pc]"
    using assms(2) Sub by (cases "(bp, j, ch, subs g ! j, g)" rule: sub_step.cases)
      (auto simp: sub_step_defs split: if_splits option.splits)
  moreover have "j \<noteq> i" using assms(2,3) Sub by (auto split: if_splits)
  ultimately show ?thesis using assms(3,4) by auto
next
  case (Cancel j)
  with assms show ?thesis
    by (auto simp: cancel_def nth_list_update split: if_splits sub_pc.splits option.splits)
next
  case (Wrk j d)
  with assms(2) have j: "j < length (workers g)" and step: "wrk_step k j d (workers g ! j) g = Some g'"
    by (auto split: if_splits)
  have "subs g' = subs g"
  proof (cases "\<exists>n. workers g ! j = WTake n")
    case True
    then obtain n where "workers g ! j = WTake n" by blast
    with step show ?thesis by (metis option.inject take_step_fields [OF assms(1) j] wrk_step.simps(2))
  next
    case False
    with wrk_step_frame [OF step] show ?thesis by blast
  qed
  with assms(3,4) show ?thesis by simp
qed (use assms in \<open>auto simp: nth_append split: if_splits\<close>)

lemma service_step_reqs:
  assumes "service_exec F k bp e s = Some s'" "service_shape s"
  shows "risk_reqs s' = risk_reqs s @ (case e of RiskRequest q ctx \<Rightarrow> [q] | _ \<Rightarrow> []) \<and>
    risk_done s' = (case e of RiskReply i \<Rightarrow> i # risk_done s | _ \<Rightarrow> risk_done s) \<and> uncounted_ok (uncounted s')"
proof (cases e)
  case (RiskReply i)
  show ?thesis
    by (rule reply_cases [OF assms(1) [unfolded RiskReply] assms(2)])
      (use assms(2) in \<open>auto simp: RiskReply respond_risk service_shape_def split: option.split\<close>)
next
  case (Request q)
  with assms(1) have q: "Path q \<noteq> ''/risk''" and s': "s' = respond F (\<lambda>seed a. (None, a)) q s"
    by (auto split: if_splits)
  show ?thesis
    by (rule respond_gate [OF q, of F "\<lambda>seed a. (None, a)" s])
      (use assms(2) q in \<open>simp add: Request s' service_shape_def\<close>)
next
  case (AddCounter i)
  with assms show ?thesis
    by (auto simp: count_next_def service_shape_def uncounted_ok_remove split: if_splits)
qed (use assms in \<open>auto simp: service_shape_def split: if_splits\<close>)

lemma gate_events_arrivals:
  assumes "service_exec F k bp e s = Some s'"
  shows "arrivals (gate_events e s) = map risk_seed (case e of RiskRequest q ctx \<Rightarrow> [q] | _ \<Rightarrow> [])"
proof (cases e)
  case (Step e')
  with assms show ?thesis by (cases e') (auto simp: gate_events_def)
qed (auto simp: gate_events_def)

lemma returned_kept:
  assumes inv: "gate_inv digest (gate_of s)" and shape: "service_shape s" and step: "service_exec F k bp e s = Some s'"
    and i: "i < length (subs (gate_of s))" "subs (gate_of s) ! i = SReturn res"
  shows "subs (gate_of s') ! i = SReturn res \<and> i < length (subs (gate_of s'))"
  using step shape
proof (cases rule: service_step_cases)
  case (gate ev)
  from returned_stays [OF inv gate(2) i(2,1)] show ?thesis .
qed (use i in simp)

lemma service_shape_step:
  assumes inv: "gate_inv digest (gate_of s)" and shape: "service_shape s"
    and step: "service_exec F k bp e s = Some s'"
  shows "service_shape s'"
proof -
  note reqs = service_step_reqs [OF step shape]
  note kept = returned_kept [OF inv shape step]
  have seeds: "seeds_inv (map risk_seed (risk_reqs s')) (gate_of s')"
    using step shape
  proof (cases rule: service_step_cases)
    case same
    with reqs shape gate_events_arrivals [OF step] show ?thesis by (simp add: service_shape_def)
  next
    case (gate ev)
    with reqs gate_exec_seeds [OF inv _ gate(2), of "map risk_seed (risk_reqs s)"] shape
      gate_events_arrivals [OF step]
    show ?thesis by (simp add: service_shape_def)
  qed
  have paths: "\<forall>q \<in> set (risk_reqs s'). Path q = ''/risk''"
    using reqs shape step by (cases e) (auto simp: service_shape_def split: if_splits)
  show ?thesis
  proof (cases e)
    case (RiskReply i)
    obtain res where "i < length (subs (gate_of s))" "i \<notin> set (risk_done s)" "subs (gate_of s) ! i = SReturn res"
      by (rule reply_cases [OF step [unfolded RiskReply] shape])
    with seeds paths reqs RiskReply shape kept show ?thesis
      unfolding service_shape_def by (simp, metis)
  qed (use seeds paths reqs shape kept in \<open>simp add: service_shape_def, metis\<close>)+
qed


section \<open>The counters and what the clients got\<close>

definition good_responses :: "'f service \<Rightarrow> int" where
  "good_responses s = int (length (filter (\<lambda>(q, code, body). code < 400) (responses s)))"

definition error_responses :: "'f service \<Rightarrow> int" where
  "error_responses s = int (length (filter (\<lambda>(q, code, body). \<not> code < 400) (responses s)))"

text \<open>The overload responses, and what the responses in flight have yet to add.\<close>

definition shed_responses :: "'f service \<Rightarrow> int" where
  "shed_responses s = int (length (filter (\<lambda>(q, code, body). Path q = ''/risk'' \<and> \<not> code < 400) (responses s)))"

definition in_flight_good :: "'f service \<Rightarrow> int" where
  "in_flight_good s = (\<Sum>(q, d) \<leftarrow> uncounted s. respOK d)"

definition in_flight_errors :: "'f service \<Rightarrow> int" where
  "in_flight_errors s = (\<Sum>(q, d) \<leftarrow> uncounted s. respErr d)"

text \<open>The refusals that have been answered.\<close>

definition refused :: "'f service \<Rightarrow> int" where
  "refused s = int (length (filter (\<lambda>i. subs (gate_of s) ! i = SReturn None) (risk_done s)))"

text \<open>The charges of a step that no response stands for: the stale waiters a worker passes over.\<close>

definition stale_charge :: "service_event \<Rightarrow> 'f service \<Rightarrow> int" where
  "stale_charge e s = (case e of Step ev \<Rightarrow> extra_charge ev (gate_of s) | _ \<Rightarrow> 0)"

text \<open>The books: every count of \<open>respOK\<close> is a response that was sent, and every count of \<open>respErr\<close> is an error response
  that was sent, the charge of a \<open>/risk\<close> request that has not been answered, or one of the \<open>t\<close> stale charges; what
  is in flight is sent and not counted. An overload response is one of the answered refusals, and none is in
  flight.\<close>

definition accounts_ok :: "counters \<Rightarrow> int \<Rightarrow> 'f service \<Rightarrow> bool" where
  "accounts_ok c t s \<longleftrightarrow>
     respOK (cnt (gate_of s)) + in_flight_good s = respOK c + good_responses s \<and>
     respErr (cnt (gate_of s)) + in_flight_errors s =
       respErr c + error_responses s + (charges (gate_of s) - refused s) + t \<and>
     shed_responses s = refused s \<and> in_flight_errors s \<le> error_responses s - shed_responses s"

lemma in_flight_nonneg: "service_shape s \<Longrightarrow> 0 \<le> in_flight_good s \<and> 0 \<le> in_flight_errors s"
proof -
  assume "service_shape s"
  then have "\<forall>(q, d) \<in> set (uncounted s). 0 \<le> respOK d \<and> 0 \<le> respErr d"
    by (auto simp: service_shape_def uncounted_ok_def)
  then show "0 \<le> in_flight_good s \<and> 0 \<le> in_flight_errors s"
    unfolding in_flight_good_def in_flight_errors_def by (auto intro!: sum_list_nonneg)
qed

lemma in_flight_remove:
  assumes "i < length (uncounted s)"
  shows "in_flight_good (count_next i s) = in_flight_good s - respOK (snd (uncounted s ! i))"
    "in_flight_errors (count_next i s) = in_flight_errors s - respErr (snd (uncounted s ! i))"
  using arg_cong [OF id_take_nth_drop [OF assms], of "\<lambda>us. \<Sum>(q, d) \<leftarrow> us. respOK d"]
    arg_cong [OF id_take_nth_drop [OF assms], of "\<lambda>us. \<Sum>(q, d) \<leftarrow> us. respErr d"]
  by (simp_all add: in_flight_good_def in_flight_errors_def count_next_def case_prod_unfold)

lemma refused_le_charges:
  assumes "service_shape s"
  shows "refused s \<le> charges (gate_of s)"
proof -
  let ?xs = "subs (gate_of s)"
  let ?A = "{i. i < length ?xs \<and> ?xs ! i = SReturn None}"
  have count: "length (filter (\<lambda>pc. pc = x) ys) = count_list ys x" for x and ys :: "sub_pc list"
    by (induction ys) auto
  have "length (filter (\<lambda>i. ?xs ! i = SReturn None) (risk_done s)) =
      card (set (filter (\<lambda>i. ?xs ! i = SReturn None) (risk_done s)))"
    using assms by (intro distinct_card [symmetric]) (simp add: service_shape_def)
  also have "\<dots> \<le> card ?A"
    using assms by (intro card_mono) (auto simp: service_shape_def)
  also have "\<dots> = length (filter (\<lambda>pc. pc = SReturn None) ?xs)"
    by (simp add: length_filter_conv_card)
  also have "\<dots> = count_list ?xs (SReturn None)" by (rule count)
  finally show ?thesis
    using refusals_le_charges [of "gate_of s"] by (simp add: refused_def refusals_def)
qed

lemma refused_step:
  assumes inv: "gate_inv digest (gate_of s)" and shape: "service_shape s"
    and step: "service_exec F k bp e s = Some s'"
  shows "refused s' = refused s + (case e of RiskReply i \<Rightarrow> (if subs (gate_of s) ! i = SReturn None then 1 else 0) | _ \<Rightarrow> 0)"
proof -
  have kept: "subs (gate_of s') ! i = SReturn None \<longleftrightarrow> subs (gate_of s) ! i = SReturn None"
    if "i < length (subs (gate_of s))" "subs (gate_of s) ! i = SReturn res" for i res
    using returned_kept [OF inv shape step that] that by simp
  have "subs (gate_of s') ! i = SReturn None \<longleftrightarrow> subs (gate_of s) ! i = SReturn None" if "i \<in> set (risk_done s)" for i
    using kept shape that by (auto simp: service_shape_def)
  then have same: "filter (\<lambda>i. subs (gate_of s') ! i = SReturn None) (risk_done s) =
      filter (\<lambda>i. subs (gate_of s) ! i = SReturn None) (risk_done s)"
    by (intro filter_cong) simp_all
  show ?thesis
  proof (cases e)
    case (RiskReply i)
    obtain res where "i < length (subs (gate_of s))" "subs (gate_of s) ! i = SReturn res"
      by (rule reply_cases [OF step [unfolded RiskReply] shape])
    with RiskReply same kept service_step_reqs [OF step shape] show ?thesis by (simp add: refused_def)
  qed (use same service_step_reqs [OF step shape] in \<open>simp_all add: refused_def\<close>)
qed

lemma accounts_step:
  assumes inv: "gate_inv digest (gate_of s)" and shape: "service_shape s" and acc: "accounts_ok c t s"
    and step: "service_exec F k bp e s = Some s'"
  shows "accounts_ok c (t + stale_charge e s) s'"
proof -
  note ref = refused_step [OF inv shape step]
  show ?thesis
  proof (cases e)
    case (Step e')
    with step have ev: "internal e'" "gate_exec k bp e' (gate_of s) = Some (gate_of s')" and s': "s' = s\<lparr>gate_of := gate_of s'\<rparr>"
      by (auto split: if_splits)
    have "respOK (cnt (gate_of s')) = respOK (cnt (gate_of s))"
      using gate_exec_ok [OF inv ev(2)] ev(1) by (cases e') simp_all
    moreover have "responses s' = responses s" "uncounted s' = uncounted s"
      by (subst s', simp)+
    ultimately show ?thesis
      using acc ref gate_exec_charge [OF inv ev(2)] Step
      by (simp add: accounts_ok_def stale_charge_def good_responses_def error_responses_def shed_responses_def
          in_flight_good_def in_flight_errors_def)
  next
    case (RiskRequest q ctx)
    with step have ev: "gate_exec k bp (Arrive (risk_seed q) ctx) (gate_of s) = Some (gate_of s')"
      and same: "responses s' = responses s" "uncounted s' = uncounted s" "cnt (gate_of s') = cnt (gate_of s)"
      by (auto split: if_splits)
    with acc ref gate_exec_charge [OF inv ev] RiskRequest show ?thesis
      by (simp add: accounts_ok_def stale_charge_def good_responses_def error_responses_def shed_responses_def
          in_flight_good_def in_flight_errors_def extra_charge_def)
  next
    case (Request q)
    with step have q: "Path q \<noteq> ''/risk''" and s': "s' = respond F (\<lambda>seed a. (None, a)) q s"
      by (auto split: if_splits)
    show ?thesis
      by (rule respond_gate [OF q, of F "\<lambda>seed a. (None, a)" s])
        (use acc ref q Request in \<open>auto simp: s' accounts_ok_def stale_charge_def good_responses_def
          error_responses_def shed_responses_def in_flight_good_def in_flight_errors_def\<close>)
  next
    case (RiskReply i)
    show ?thesis
      by (rule reply_cases [OF step [unfolded RiskReply] shape])
        (use acc ref RiskReply in \<open>auto simp: accounts_ok_def stale_charge_def good_responses_def
          error_responses_def shed_responses_def in_flight_good_def in_flight_errors_def respond_risk
          split: option.splits\<close>)
  next
    case (AddCounter i)
    obtain code where i: "i < length (uncounted s)" "snd (uncounted s ! i) = counted code" "s' = count_next i s"
        "gate_of s' = (gate_of s)\<lparr>cnt := count_response code (cnt (gate_of s))\<rparr>"
      by (rule count_step [OF step [unfolded AddCounter] shape])
    have "responses s' = responses s" unfolding i(3) by (simp add: count_next_def)
    moreover have "in_flight_good s' = in_flight_good s - respOK (counted code)"
        "in_flight_errors s' = in_flight_errors s - respErr (counted code)"
      unfolding i(3) in_flight_remove [OF i(1)] i(2) by simp_all
    ultimately show ?thesis
      using acc ref AddCounter i(4)
      by (auto simp: accounts_ok_def stale_charge_def good_responses_def error_responses_def shed_responses_def
          charges_def count_response_def)
  qed
qed


section \<open>Runs\<close>

context batch_kernels
begin

lemma service_step_inv:
  assumes "gate_inv digest (gate_of s)" "service_shape s" "service_exec F k bp e s = Some s'"
  shows "gate_inv digest (gate_of s')"
  using assms(3,2)
proof (cases rule: service_step_cases)
  case (gate ev)
  then show ?thesis using assms(1) by (blast intro: gate_exec_inv)
qed (use assms(1) in simp)

text \<open>A run of the service is a run of the gate with the seeds of the requests.\<close>

lemma service_runs:
  assumes "service_run F k bp es (service_init slots a l time) = Some s"
  shows "gate_inv digest (gate_of s) \<and> service_shape s \<and>
    (\<exists>gs. gate_runs k bp (gate_init slots (resp_counters a) l time) gs (gate_of s) \<and>
       arrivals gs = map risk_seed (risk_reqs s))"
    (is "?P s")
  using assms
proof (rule service_run_invariant)
  have "gate_of (service_init slots a l time) = gate_init slots (resp_counters a) l time"
    by (simp add: service_init_def)
  moreover have "service_shape (service_init slots a l time)"
    by (simp add: service_init_def service_shape_def seeds_inv_def gate_init_def)
  moreover have "arrivals [] = map risk_seed (risk_reqs (service_init slots a l time))"
    by (simp add: service_init_def)
  ultimately show "?P (service_init slots a l time)"
    using gate_init_inv [of digest slots "resp_counters a" l time] gate_runs.start by metis
next
  fix e s s'
  assume P: "?P s" and step: "service_exec F k bp e s = Some s'"
  then have inv: "gate_inv digest (gate_of s)" and shape: "service_shape s" by blast+
  obtain gs where gs: "gate_runs k bp (gate_init slots (resp_counters a) l time) gs (gate_of s)"
      "arrivals gs = map risk_seed (risk_reqs s)"
    using P by blast
  note reqs = service_step_reqs [OF step shape]
  have "\<exists>gs'. gate_runs k bp (gate_init slots (resp_counters a) l time) gs' (gate_of s') \<and>
      arrivals gs' = map risk_seed (risk_reqs s')"
    using step shape
  proof (cases rule: service_step_cases)
    case (gate ev)
    then show ?thesis
      using gate_runs.exec [OF gs(1) gate(2)] gs(2) gate_events_arrivals [OF step] reqs
      by (intro exI [of _ "gs @ [ev]"]) simp
  next
    case same
    then show ?thesis
      using gs gate_events_arrivals [OF step] reqs by (intro exI [of _ gs]) simp
  qed
  then show "?P s'"
    using service_step_inv [OF inv shape step] service_shape_step [OF inv shape step] by blast
qed

end


section \<open>What the responses say\<close>

lemma answer_series:
  assumes "submit_keeps submit"
  shows "series (snd (answer_of F submit q s)) = series s"
proof (cases "is_post q")
  case False
  then show ?thesis using answer_keeps [OF False assms, of s F] by (simp add: keeps_tables_def)
next
  case True
  show ?thesis
  proof (cases "decode_post F (Body q)")
    case None
    then show ?thesis by (simp add: post_rejected [OF True])
  next
    case (Some e)
    obtain symb p where e: "e = (symb, p)" by (cases e)
    obtain ok t where ap: "appendWAL F symb p s = (ok, t)" by (metis surj_pair)
    then have "series t = series s" by (simp add: appendWAL_tables)
    then show ?thesis
      using post_accepted [OF True Some [unfolded e], of s t submit] post_not_durable [OF True Some [unfolded e], of s t submit] ap
      by (cases ok) (simp_all add: set_price_def)
  qed
qed

lemma submit_keeps_result: "submit_keeps (\<lambda>seed a. (res, a))"
  by (simp add: submit_keeps_def)

lemma respond_series: "series (app_of (respond F (\<lambda>seed a. (res, a)) q s)) = series (app_of s)"
  using answer_series [OF submit_keeps_result, of F res q "(app_of s)\<lparr>resp_counters := zero_counters\<rparr>"]
  by (simp add: respond_def case_prod_unfold Let_def)

text \<open>A response is the starter's, or an overload response of \<open>/risk\<close>.\<close>

definition starter_or_shed :: "'f float64 \<Rightarrow> request \<times> int \<times> string \<Rightarrow> bool" where
  "starter_or_shed F r \<longleftrightarrow>
     (case r of (q, code, body) \<Rightarrow>
        Path q = ''/risk'' \<and> code = 503 \<and> body = overloadedBody \<or>
        (\<exists>w. starter_serve F q = Some w \<and> agrees F (code, body) w))"

text \<open>The paths whose responses do not depend on what clients have posted.\<close>

definition fixed_path :: "request \<Rightarrow> bool" where
  "fixed_path q \<longleftrightarrow> Path q \<in> {''/health'', ''/stats'', ''/risk''} \<and> CHR '';'' \<notin> set (RawQuery q)"

definition contents_ok :: "'f float64 \<Rightarrow> 'f service \<Rightarrow> bool" where
  "contents_ok F s \<longleftrightarrow>
     series (app_of s) = series (init_app F) \<and> (\<forall>r \<in> set (responses s). fixed_path (fst r) \<longrightarrow> starter_or_shed F r)"

lemma respond_contents:
  assumes F: "float_contract F" "\<forall>symb xs. starter_series F symb = Some xs \<longrightarrow> stats_finite F xs"
    and s: "contents_ok F s" and res: "Path q = ''/risk'' \<Longrightarrow> res = None \<or> res = Some (naiveRiskChain (risk_seed q))"
  shows "contents_ok F (respond F (\<lambda>seed a. (res, a)) q s)"
proof -
  let ?a = "(app_of s)\<lparr>resp_counters := zero_counters\<rparr>"
  obtain code body a where a: "answer_of F (\<lambda>seed a. (res, a)) q ?a = ((code, body), a)" by (metis surj_pair)
  have "starter_or_shed F (q, code, body)" if q: "fixed_path q"
  proof (cases "Path q = ''/risk'' \<and> res = None")
    case True
    then have "answer_of F (\<lambda>seed a. (res, a)) q ?a = ((503, overloadedBody), ?a)"
      using risk_answer [of q "\<lambda>seed a. (res, a)" ?a res ?a F] by simp
    with a True show ?thesis by (simp add: starter_or_shed_def)
  next
    case False
    have "\<exists>w. starter_serve F q = Some w \<and> agrees F (fst (answer_of F (\<lambda>seed a. (res, a)) q ?a)) w"
    proof (rule agrees_request [OF F(1)])
      show "Path q = ''/risk'' \<longrightarrow> (res, ?a) = (Some (naiveRiskChain (risk_seed q)), ?a)"
        using res False by blast
    qed (use q s F(2) in \<open>auto simp: fixed_path_def contents_ok_def\<close>)
    with a show ?thesis by (simp add: starter_or_shed_def)
  qed
  then show ?thesis
    using s respond_series [of F res q s] a by (auto simp: contents_ok_def respond_def)
qed

lemma returned_digest:
  assumes "gate_inv digest g" "seeds_inv ss g" "i < length (subs g)" "subs g ! i = SReturn (Some d)"
  shows "d = digest (ss ! i)"
proof -
  obtain w where "heap g i = Some w" "d = digest (wseed w)"
    using slot_at [OF assms(1,3)] assms(4) by (cases "heap g i") auto
  then show ?thesis using assms(2,3) by (simp add: seeds_inv_def)
qed

lemma contents_step:
  assumes F: "float_contract F" "\<forall>symb xs. starter_series F symb = Some xs \<longrightarrow> stats_finite F xs"
    and inv: "gate_inv naiveRiskChain (gate_of s)" and shape: "service_shape s" and s: "contents_ok F s"
    and step: "service_exec F k bp e s = Some s'"
  shows "contents_ok F s'"
proof (cases e)
  case (Request q)
  with step respond_contents [OF F s, of q None] show ?thesis by (auto split: if_splits)
next
  case (RiskReply i)
  obtain res where i: "i < length (subs (gate_of s))" "subs (gate_of s) ! i = SReturn res"
    and s': "s' = respond F (\<lambda>seed a. (res, a)) (risk_reqs s ! i) (s\<lparr>risk_done := i # risk_done s\<rparr>)"
    by (rule reply_cases [OF step [unfolded RiskReply] shape])
  have seeds: "seeds_inv (map risk_seed (risk_reqs s)) (gate_of s)" using shape by (simp add: service_shape_def)
  have "res = None \<or> res = Some (naiveRiskChain (risk_seed (risk_reqs s ! i)))"
    using returned_digest [OF inv seeds i(1)] i seeds by (cases res) (auto simp: seeds_inv_def)
  moreover have "contents_ok F (s\<lparr>risk_done := i # risk_done s\<rparr>)" using s by (simp add: contents_ok_def)
  ultimately show ?thesis unfolding s' using respond_contents [OF F] by blast
qed (use step s in \<open>auto simp: contents_ok_def count_next_def split: if_splits\<close>)

lemma service_contents:
  assumes F: "float_contract F" "\<forall>symb xs. starter_series F symb = Some xs \<longrightarrow> stats_finite F xs"
    and k: "kernels_ok k" and a: "series a = series (init_app F)"
    and run: "service_run F k bp es (service_init slots a l time) = Some s"
  shows "contents_ok F s"
proof -
  note batch = kernels_ok_batch [OF k]
  have "gate_inv naiveRiskChain (gate_of s) \<and> service_shape s \<and> contents_ok F s"
    using run
  proof (rule service_run_invariant)
    show "gate_inv naiveRiskChain (gate_of (service_init slots a l time)) \<and>
        service_shape (service_init slots a l time) \<and> contents_ok F (service_init slots a l time)"
      using batch_kernels.service_runs [OF batch, of F bp "[]" slots a l time] a
      by (simp add: contents_ok_def service_init_def)
  qed (use contents_step [OF F] service_shape_step batch_kernels.service_step_inv [OF batch] in blast)
  then show ?thesis by blast
qed


section \<open>The two views of the error share\<close>

lemma service_run_append:
  "service_run F k bp (es @ es') s = Option.bind (service_run F k bp es s) (service_run F k bp es')"
  by (induction es arbitrary: s) (auto split: Option.bind_split)

lemma response_count: "good_responses s + error_responses s = int (length (responses s))"
proof -
  have "length (filter (\<lambda>(q, code, body). code < 400) rs) + length (filter (\<lambda>(q, code, body). \<not> code < 400) rs) = length rs"
    for rs :: "(request \<times> int \<times> string) list"
    by (induction rs) auto
  from this [of "responses s"] show ?thesis
    unfolding good_responses_def error_responses_def by linarith
qed

lemma responses_nonneg [simp]: "0 \<le> good_responses s" "0 \<le> error_responses s"
  by (simp_all add: good_responses_def error_responses_def)

lemma step_charge_nonneg: "0 \<le> stale_charge e s"
  by (simp add: stale_charge_def extra_charge_nonneg split: service_event.split)

text \<open>The refusals of a step that ask for no reservation.\<close>

definition forced_refusal :: "service_event \<Rightarrow> 'f service \<Rightarrow> int" where
  "forced_refusal e s = (case e of Step ev \<Rightarrow> forced_charge ev (gate_of s) | _ \<Rightarrow> 0)"

lemma paid_step:
  assumes inv: "gate_inv digest (gate_of s)" and shape: "service_shape s"
    and step: "service_exec F k (initShedBudget gate budget) e s = Some s'"
    and paid: "paid_for (initShedBudget gate budget) u (gate_of s)"
  shows "paid_for (initShedBudget gate budget) (u + forced_refusal e s) (gate_of s')"
  using step shape
proof (cases rule: service_step_cases)
  case same
  moreover have "forced_refusal e s = 0"
    using same(1) by (cases e) (simp_all add: forced_refusal_def gate_events_def)
  ultimately show ?thesis using paid by simp
next
  case (gate ev)
  moreover have "forced_refusal e s = forced_charge ev (gate_of s)"
    using gate(1) by (cases e) (auto simp: forced_refusal_def gate_events_def forced_charge_def)
  ultimately show ?thesis using gate_exec_paid [OF inv gate(2) paid] by simp
qed

text \<open>An overcounted error count makes an overestimated share.\<close>

lemma error_share:
  fixes err e ok :: int
  assumes "err \<le> e" "0 \<le> ok"
  shows "err * (ok + e) \<le> e * (ok + err)"
proof -
  have "err * ok \<le> e * ok" using assms by (rule mult_right_mono)
  then show ?thesis by (simp add: algebra_simps)
qed

text \<open>Errors \<open>x\<close> that the counted good responses pay for are within the share of any larger number of responses.\<close>

lemma share_within_budget:
  fixes x ok n bp :: int
  assumes "x * (10000 - bp) \<le> ok * bp" "ok + x \<le> n" "0 \<le> bp"
  shows "x * 10000 \<le> n * bp"
proof -
  have "(ok + x) * bp \<le> n * bp" using assms(2,3) by (rule mult_right_mono)
  with assms(1) show ?thesis by (simp add: algebra_simps)
qed

context batch_kernels
begin

lemma service_accounts:
  assumes "service_run F k bp es (service_init slots a l time) = Some s"
  shows "accounts_ok (resp_counters a) (run_total F k bp stale_charge es (service_init slots a l time)) s \<and>
    refused s \<le> charges (gate_of s) \<and> uncounted_ok (uncounted s) \<and> service_shape s"
proof -
  let ?s0 = "service_init slots a l time"
  let ?P = "\<lambda>t s. gate_inv digest (gate_of s) \<and> service_shape s \<and> accounts_ok (resp_counters a) t s"
  have "accounts_ok (resp_counters a) 0 ?s0"
    by (simp add: service_init_def accounts_ok_def good_responses_def error_responses_def shed_responses_def
        in_flight_good_def in_flight_errors_def charges_def refused_def gate_init_def)
  then have "?P 0 ?s0"
    using service_runs [of F bp "[]" slots a l time] by simp
  with assms have "?P (0 + run_total F k bp stale_charge es ?s0) s"
    by (rule service_run_total)
      (use accounts_step service_step_inv service_shape_step in \<open>metis (no_types, lifting)\<close>)
  then show ?thesis
    using refused_le_charges [of s] by (simp add: service_shape_def)
qed

lemma service_paid:
  assumes "service_run F k (initShedBudget gate budget) es (service_init slots a l time) = Some s"
    and "0 \<le> respOK (resp_counters a)" "0 \<le> respErr (resp_counters a)"
  shows "paid_for (initShedBudget gate budget)
    (run_total F k (initShedBudget gate budget) forced_refusal es (service_init slots a l time)) (gate_of s)"
proof -
  let ?s0 = "service_init slots a l time" and ?bp = "initShedBudget gate budget"
  let ?P = "\<lambda>u s. gate_inv digest (gate_of s) \<and> service_shape s \<and> paid_for ?bp u (gate_of s)"
  have "paid_for ?bp 0 (gate_of ?s0)"
    using assms(2,3) initShedBudget_range [of gate budget]
    by (simp add: service_init_def paid_for_def charges_def gate_init_def)
  then have "?P 0 ?s0"
    using service_runs [of F ?bp "[]" slots a l time] by simp
  with assms(1) have "?P (0 + run_total F k ?bp forced_refusal es ?s0) s"
    by (rule service_run_total)
      (use paid_step service_step_inv service_shape_step in \<open>metis (no_types, lifting)\<close>)
  then show ?thesis by simp
qed

text \<open>The shares of the responses sent: of the overload responses at any time, and of all the counted errors after a
  grant.\<close>

lemma sheds_within_budget:
  assumes run: "service_run F k bp es s0 = Some s" and s0: "s0 = service_init slots a l time"
    and a: "resp_counters a = \<lparr>respOK = 0, respErr = 0\<rparr>" and bp: "bp = initShedBudget gate budget"
  shows "(shed_responses s - run_total F k bp forced_refusal es s0) * 10000 \<le> int (length (responses s)) * bp"
proof -
  let ?u = "run_total F k bp forced_refusal es s0"
  have range: "0 \<le> bp" "bp \<le> 10000"
    using initShedBudget_range [of gate budget] gateBP_range [of gate] unfolding bp by auto
  note acc = service_accounts [OF run [unfolded s0], folded s0]
  have "paid_for bp ?u (gate_of s)"
    using service_paid [OF run [unfolded s0 bp]] a unfolding s0 bp by simp
  then have "(charges (gate_of s) - ?u) * (10000 - bp) \<le> respOK (cnt (gate_of s)) * bp" "0 \<le> ?u"
    by (simp_all add: paid_for_def)
  moreover have "(shed_responses s - ?u) * (10000 - bp) \<le> (charges (gate_of s) - ?u) * (10000 - bp)"
    using acc range by (intro mult_right_mono) (auto simp: accounts_ok_def)
  ultimately show ?thesis
    using acc in_flight_nonneg [of s] response_count [of s] range a
    by (intro share_within_budget [where ok = "respOK (cnt (gate_of s))"]) (auto simp: accounts_ok_def)
qed

lemma grant_share:
  assumes run: "service_run F k bp es s0 = Some s" and s0: "s0 = service_init slots a l time"
    and a: "resp_counters a = \<lparr>respOK = 0, respErr = 0\<rparr>" and bp: "bp = initShedBudget gate budget"
    and grant: "respErr (cnt (gate_of s)) * 10000 \<le> (respOK (cnt (gate_of s)) + respErr (cnt (gate_of s))) * bp"
  shows "(error_responses s - in_flight_errors s) * 10000 \<le> int (length (responses s)) * bp \<and>
    shed_responses s \<le> error_responses s - in_flight_errors s"
proof -
  have range: "0 \<le> bp" "bp \<le> 10000"
    using initShedBudget_range [of gate budget] gateBP_range [of gate] unfolding bp by auto
  note acc = service_accounts [OF run [unfolded s0], folded s0]
  have "0 \<le> run_total F k bp stale_charge es s0"
    by (rule run_total_nonneg) (rule step_charge_nonneg)
  then have "error_responses s - in_flight_errors s \<le> respErr (cnt (gate_of s))"
    using acc a by (simp add: accounts_ok_def)
  then have "(error_responses s - in_flight_errors s) * (10000 - bp) \<le> respErr (cnt (gate_of s)) * (10000 - bp)"
    using range by (intro mult_right_mono) simp_all
  moreover have "respErr (cnt (gate_of s)) * (10000 - bp) \<le> respOK (cnt (gate_of s)) * bp"
    using grant by (simp add: algebra_simps)
  ultimately have "(error_responses s - in_flight_errors s) * 10000 \<le> int (length (responses s)) * bp"
    using acc in_flight_nonneg [of s] response_count [of s] range a
    by (intro share_within_budget [where ok = "respOK (cnt (gate_of s))"]) (auto simp: accounts_ok_def)
  with acc show ?thesis by (simp add: accounts_ok_def)
qed

end

section \<open>Health checks\<close>

lemma respond_health:
  assumes "Path q = ''/health''"
  shows "respond F submit q s =
    s\<lparr>app_of := (app_of s)\<lparr>resp_counters := counted 200\<rparr>, responses := responses s @ [(q, 200, healthBody)],
      uncounted := uncounted s @ [(q, counted 200)]\<rparr>"
proof -
  let ?a = "(app_of s)\<lparr>resp_counters := zero_counters\<rparr>"
  have "dispatch_path F submit q (Std std_new, ?a) = writeJSON 200 healthBody (Std std_new, ?a)"
    using assms by (simp add: dispatch_path_def)
  from answer_of_writeJSON [OF this] show ?thesis by (simp add: respond_def Let_def flip: counted_def)
qed

text \<open>Health checks one after the other, each counted before the next.\<close>

definition healths :: "nat \<Rightarrow> request \<Rightarrow> service_event list" where
  "healths n q = concat (replicate n [Request q, AddCounter 0])"

lemma run_healths:
  assumes "Path q = ''/health''" "uncounted s = []"
  shows "\<exists>a. service_run F k bp (healths n q) s =
    Some (s\<lparr>app_of := a, gate_of := (gate_of s)\<lparr>cnt := (cnt (gate_of s))\<lparr>respOK := respOK (cnt (gate_of s)) + int n\<rparr>\<rparr>,
            responses := responses s @ replicate n (q, 200, healthBody)\<rparr>)"
  using assms(2)
proof (induction n arbitrary: s)
  case 0
  then show ?case by (intro exI [of _ "app_of s"]) (simp add: healths_def)
next
  case (Suc n)
  let ?s = "count_next 0 (respond F (\<lambda>seed a. (None, a)) q s)"
  have s: "?s = s\<lparr>app_of := (app_of s)\<lparr>resp_counters := counted 200\<rparr>,
      gate_of := (gate_of s)\<lparr>cnt := count_response 200 (cnt (gate_of s))\<rparr>,
      responses := responses s @ [(q, 200, healthBody)]\<rparr>"
    using Suc.prems by (simp add: respond_health [OF assms(1)] count_next_def)
  have step: "service_run F k bp (healths (Suc n) q) s = service_run F k bp (healths n q) ?s"
    using assms(1) Suc.prems by (simp add: healths_def respond_health [OF assms(1)])
  obtain a where "service_run F k bp (healths n q) ?s =
      Some (?s\<lparr>app_of := a, gate_of := (gate_of ?s)\<lparr>cnt := (cnt (gate_of ?s))\<lparr>respOK := respOK (cnt (gate_of ?s)) + int n\<rparr>\<rparr>,
            responses := responses ?s @ replicate n (q, 200, healthBody)\<rparr>)"
    using Suc.IH [of ?s] Suc.prems by (auto simp: s)
  then show ?case
    unfolding step by (intro exI [of _ a]) (simp add: s count_response_def)
qed

end
