(* ===== verification/Host.thy ===== *)
theory Host
  imports Boot
begin

text \<open>
  What boot reads from the host (\<open>src/app/main.go\<close>): the CPU budget of the cgroup, the boot fingerprint, and
  the throttle counters. Files are a partial function from paths to contents; \<open>pf\<close> is \<open>strconv.ParseFloat\<close>,
  with a float given by its value.
\<close>

section \<open>Fields of a line\<close>

text \<open>\<open>strings.Fields\<close>: the words between white space. \<open>word\<close> is the one being read.\<close>

fun fields_from :: "string \<Rightarrow> string \<Rightarrow> string list" where
  "fields_from word [] = (if word = [] then [] else [word])"
| "fields_from word (c # cs) =
     (if is_space c then (if word = [] then fields_from [] cs else word # fields_from [] cs)
      else fields_from (word @ [c]) cs)"

definition fields :: "string \<Rightarrow> string list" where
  "fields s = fields_from [] s"

section \<open>The CPU budget\<close>

type_synonym files = "string \<Rightarrow> string option"

definition quota_v2 :: "(string \<Rightarrow> rat option) \<Rightarrow> string \<Rightarrow> rat" where
  "quota_v2 pf b =
     (case fields b of
        [q, p] \<Rightarrow>
          if q = ''max'' then 0
          else (case (pf q, pf p) of (Some q, Some p) \<Rightarrow> if 0 < p then q / p else 0 | _ \<Rightarrow> 0)
      | _ \<Rightarrow> 0)"

definition quota_v1 :: "(string \<Rightarrow> rat option) \<Rightarrow> string \<Rightarrow> string \<Rightarrow> rat" where
  "quota_v1 pf qb pb =
     (case (pf (trim_space qb), pf (trim_space pb)) of
        (Some q, Some p) \<Rightarrow> if 0 < q \<and> 0 < p then q / p else 0
      | _ \<Rightarrow> 0)"

definition cgroupCPUBudget :: "(string \<Rightarrow> rat option) \<Rightarrow> files \<Rightarrow> rat" where
  "cgroupCPUBudget pf fs =
     (case fs ''/sys/fs/cgroup/cpu.max'' of
        Some b \<Rightarrow> quota_v2 pf b
      | None \<Rightarrow>
          (case (fs ''/sys/fs/cgroup/cpu/cpu.cfs_quota_us'', fs ''/sys/fs/cgroup/cpu/cpu.cfs_period_us'') of
             (Some qb, Some pb) \<Rightarrow> quota_v1 pf qb pb
           | _ \<Rightarrow> 0))"

section \<open>The boot fingerprint\<close>

text \<open>The part of a line after its colon.\<close>

definition line_value :: "string \<Rightarrow> string option" where
  "line_value line = map_option (\<lambda>i. trim_space (drop (i + 1) line)) (index_byte line (CHR '':''))"

text \<open>One line of \<open>/proc/cpuinfo\<close>: the first model name and the first flags win.\<close>

definition cpuinfo_line :: "string \<times> string \<Rightarrow> string \<Rightarrow> string \<times> string" where
  "cpuinfo_line st line =
     (let (model, flags) = st;
          model = (if model = ''unknown'' \<and> has_prefix line ''model name''
                   then (case line_value line of Some v \<Rightarrow> v | None \<Rightarrow> model) else model);
          flags = (if flags = [] \<and> (has_prefix line ''flags'' \<or> has_prefix line ''Features'')
                   then (case line_value line of Some v \<Rightarrow> '' '' @ v @ '' '' | None \<Rightarrow> flags) else flags)
      in (model, flags))"

definition cpuinfo_scan :: "files \<Rightarrow> string \<times> string" where
  "cpuinfo_scan fs =
     (case fs ''/proc/cpuinfo'' of
        None \<Rightarrow> (''unknown'', [])
      | Some b \<Rightarrow> foldl cpuinfo_line (''unknown'', []) (split_byte (CHR 0x0A) b))"

definition relevant_isa :: "string \<Rightarrow> string list" where
  "relevant_isa flags =
     filter (\<lambda>f. contains flags ('' '' @ f @ '' '')) [''sha_ni'', ''avx'', ''sse4_1'', ''ssse3'', ''sha2'']"

definition cgroup_mem :: "files \<Rightarrow> string" where
  "cgroup_mem fs =
     (case fs ''/sys/fs/cgroup/memory.max'' of
        Some b \<Rightarrow> trim_space b
      | None \<Rightarrow>
          (case fs ''/sys/fs/cgroup/memory/memory.limit_in_bytes'' of
             Some b \<Rightarrow> trim_space b
           | None \<Rightarrow> ''unknown''))"

text \<open>The values \<open>bootFingerprint\<close> logs (model, instruction sets, budget, memory).\<close>

definition bootFingerprint :: "(string \<Rightarrow> rat option) \<Rightarrow> files \<Rightarrow> string \<times> string list \<times> rat \<times> string" where
  "bootFingerprint pf fs =
     (let (model, flags) = cpuinfo_scan fs in
      (model, relevant_isa flags, cgroupCPUBudget pf fs, cgroup_mem fs))"

section \<open>Throttle counters\<close>

definition throttle_lines :: "string \<Rightarrow> string list" where
  "throttle_lines b =
     filter (\<lambda>line. has_prefix line ''nr_periods'' \<or> has_prefix line ''nr_throttled'' \<or>
               has_prefix line ''throttled_usec'')
       (split_byte (CHR 0x0A) b)"

text \<open>What \<open>logThrottleStats\<close> logs, if it logs.\<close>

fun join_space :: "string list \<Rightarrow> string" where
  "join_space [] = []"
| "join_space [w] = w"
| "join_space (w # ws) = w @ '' '' @ join_space ws"

definition logThrottleStats :: "files \<Rightarrow> string option" where
  "logThrottleStats fs = map_option (\<lambda>b. join_space (throttle_lines b)) (fs ''/sys/fs/cgroup/cpu.stat'')"

section \<open>Lemmas\<close>

lemma fields_from_word:
  "\<forall>c \<in> set w. \<not> is_space c \<Longrightarrow> fields_from v (w @ s) = fields_from (v @ w) s"
  by (induction w arbitrary: v) auto

lemma fields_two:
  assumes "\<forall>c \<in> set a. \<not> is_space c" "\<forall>c \<in> set b. \<not> is_space c" "a \<noteq> []" "b \<noteq> []" "is_space s" "is_space t"
  shows "fields (a @ s # b @ [t]) = [a, b]"
  using assms fields_from_word [OF assms(1), of "[]"] fields_from_word [OF assms(2), of "[]"]
  by (simp add: fields_def)

lemma digits_no_space: "c \<in> set (dec_digits n) \<Longrightarrow> \<not> is_space c"
  using dec_digits_digits [of c n] by (auto simp: is_space_def is_digit_def digit_val_def)

text \<open>On a cgroup v2 host with a quota the budget is quota over period, so the pool gets the rounded
  number of CPUs, between one and four.\<close>

lemma budget_v2:
  assumes "fs ''/sys/fs/cgroup/cpu.max'' = Some (dec_digits q @ CHR '' '' # dec_digits p @ [CHR 0x0A])"
    and "\<And>n. pf (dec_digits n) = Some (of_nat n)" "0 < p" "dec_digits q \<noteq> ''max''"
  shows "cgroupCPUBudget pf fs = of_nat q / of_nat p"
proof -
  have "fields (dec_digits q @ CHR '' '' # dec_digits p @ [CHR 0x0A]) = [dec_digits q, dec_digits p]"
    by (intro fields_two) (auto simp: digits_no_space, simp_all add: is_space_def)
  with assms show ?thesis by (simp add: cgroupCPUBudget_def quota_v2_def)
qed

lemma relevant_isa_iff:
  "f \<in> set (relevant_isa flags) \<longleftrightarrow>
     f \<in> {''sha_ni'', ''avx'', ''sse4_1'', ''ssse3'', ''sha2''} \<and> (\<exists>l r. flags = l @ '' '' @ f @ '' '' @ r)"
  unfolding relevant_isa_def set_filter mem_Collect_eq contains_iff list.set append_assoc by blast

lemma throttle_lines_no_lf: "l \<in> set (throttle_lines b) \<Longrightarrow> CHR 0x0A \<notin> set l"
  by (auto simp: throttle_lines_def dest: split_byte_no_sep)

end
