(* ===== verification/Program.thy ===== *)
theory Program
  imports Service Host
begin

text \<open>
  Boot as \<open>main\<close> does it (\<open>src/app/main.go\<close>): the worker count from the cgroup and the environment, the shed
  budget, the price log, the kernels and the calibration, in that order, and then the service with its workers
  started. What boot reads from its host, what it measures and the assembly routines are the record \<open>host\<close>.
\<close>

record 'g host =
  getenv :: "string \<Rightarrow> string"
  files_of :: files
  parse_float :: "string \<Rightarrow> rat option"
  asm_of :: asm_routines
  rng_of :: "'g rng"
  x16_pooled :: x16Chains
  times_of :: boot_times
  wal_disk :: "(string \<times> bool) option"  \<comment> \<open>what the path of the price log holds, as in \<open>initPriceWAL\<close>\<close>
  wal_faults_of :: "fault list"
  boot_clock :: int

definition env_of :: "'g host \<Rightarrow> boot_env" where
  "env_of h =
     \<lparr>env_KERNEL = getenv h ''RISK_KERNEL'', env_KERNEL_V3 = getenv h ''RISK_KERNEL_V3'',
      env_X4 = getenv h ''RISK_X4'', env_X16 = getenv h ''RISK_X16'', cpuinfo = files_of h ''/proc/cpuinfo''\<rparr>"

text \<open>The latency state \<open>init\<close> leaves.\<close>

definition init_latency :: latency where
  "init_latency = \<lparr>riskPatienceNs = 1000 * millisecond, riskChainEWMANs = 0\<rparr>"

definition main_boot :: "'f float64 \<Rightarrow> 'g host \<Rightarrow> kernels \<times> int \<times> 'f service" where
  "main_boot F h =
     (let slots = riskSlots (cgroupCPUBudget (parse_float h) (files_of h)) (getenv h ''RISK_SLOTS'');
          bp = initShedBudget (getenv h ''RISK_ERR_GATE_BP'') (getenv h ''RISK_SHED_BUDGET_BP'');
          a = initPriceWAL F (getenv h ''PRICE_WAL'') (wal_disk h) (wal_faults_of h) (init_app F);
          (k, l) = boot_kernels F (env_of h) (getenv h ''RISK_YIELD_STRIDE'') (asm_of h) (rng_of h) (times_of h)
            (x16_pooled h) init_latency
      in (k, bp, service_init (nat slots) a l (boot_clock h)))"

section \<open>The booted service\<close>

lemma replay_lines_series: "series (fold (replay_line F) ls s) = series s"
proof (induction ls arbitrary: s)
  case (Cons l ls)
  have "series (replay_line F l s) = series s"
    by (auto simp: replay_line_def set_price_def split: option.splits)
  with Cons show ?case by simp
qed simp

lemma initPriceWAL_series: "series (initPriceWAL F path disk faults s) = series s"
  by (auto simp: initPriceWAL_def Let_def replay_lines_series split: option.splits)

lemma gate_exec_workers:
  assumes "gate_inv digest g" "gate_exec k bp e g = Some g'"
  shows "length (workers g') = length (workers g)"
proof (cases e)
  case (Sub i ch)
  with assms(2) show ?thesis
    by (cases "(bp, i, ch, subs g ! i, g)" rule: sub_step.cases)
      (auto simp: sub_step_defs split: if_splits option.splits)
next
  case (Wrk j d)
  with assms(2) have j: "j < length (workers g)" and step: "wrk_step k j d (workers g ! j) g = Some g'"
    by (auto split: if_splits)
  show ?thesis
  proof (cases "\<exists>n. workers g ! j = WTake n")
    case True
    then obtain n where n: "workers g ! j = WTake n" by blast
    obtain pc where "workers (take_step j n g) = (workers g)[j := pc]"
      by (rule take_step_fields [OF assms(1) j n])
    with n step show ?thesis by simp
  next
    case False
    then show ?thesis
      using step by (cases "(k, j, d, workers g ! j, g)" rule: wrk_step.cases;
          cases "case workers g ! j of WOps (x # _) _ \<Rightarrow> x | _ \<Rightarrow> Obs 0")
        (auto simp: Let_def after_run_def split: if_splits option.splits)
  qed
qed (use assms(2) in \<open>auto simp: cancel_def split: if_splits sub_pc.splits option.splits\<close>)

lemma service_workers:
  assumes "kernels_ok k" "service_run F k bp es (service_init slots a l time) = Some s"
  shows "length (workers (gate_of s)) = slots"
proof -
  note batch = kernels_ok_batch [OF assms(1)]
  have "gate_inv naiveRiskChain (gate_of s) \<and> service_shape s \<and> length (workers (gate_of s)) = slots"
    (is "?P s")
    using assms(2)
  proof (rule service_run_invariant)
    show "?P (service_init slots a l time)"
      using batch_kernels.service_runs [OF batch, of F bp "[]" slots a l time]
      by (simp add: service_init_def gate_init_def)
  next
    fix e s s'
    assume P: "?P s" and step: "service_exec F k bp e s = Some s'"
    then have inv: "gate_inv naiveRiskChain (gate_of s)" and shape: "service_shape s" by blast+
    have "length (workers (gate_of s')) = length (workers (gate_of s))"
      using step shape
    proof (cases rule: service_step_cases)
      case (gate ev)
      then show ?thesis using gate_exec_workers [OF inv] by blast
    qed simp
    with P batch_kernels.service_step_inv [OF batch inv shape step] service_shape_step [OF inv shape step]
    show "?P s'" by simp
  qed
  then show ?thesis by blast
qed

lemma main_boot_parts:
  assumes "main_boot F h = (k, bp, s0)"
  obtains a l slots where "k = fst (boot_kernels F (env_of h) (getenv h ''RISK_YIELD_STRIDE'') (asm_of h) (rng_of h)
      (times_of h) (x16_pooled h) init_latency)"
    "bp = initShedBudget (getenv h ''RISK_ERR_GATE_BP'') (getenv h ''RISK_SHED_BUDGET_BP'')"
    "s0 = service_init (nat slots) a l (boot_clock h)" "series a = series (init_app F)"
    "slots = riskSlots (cgroupCPUBudget (parse_float h) (files_of h)) (getenv h ''RISK_SLOTS'')"
  using assms by (auto simp: main_boot_def Let_def initPriceWAL_series split: prod.splits)

end
