(* ===== verification/Server.thy ===== *)
theory Server
  imports Handlers
begin

text \<open>
  The raw server around its connections: the accept loop, the count of live connections, and the bounded drain
  of \<open>rawShutdown\<close>; and the choice of the front-end in \<open>main\<close>.
\<close>

section \<open>Accepting\<close>

text \<open>What \<open>Accept\<close> returns: a connection, a timeout, or another error.\<close>

datatype accepted = Conn sock | AcceptTimeout | AcceptError

text \<open>The connections started, and whether the loop returned with an error.\<close>

fun rawServe :: "accepted list \<Rightarrow> sock list \<times> bool" where
  "rawServe [] = ([], False)"
| "rawServe (Conn c # as) = (let (cs, e) = rawServe as in (c # cs, e))"
| "rawServe (AcceptTimeout # as) = rawServe as"
| "rawServe (AcceptError # as) = ([], True)"

section \<open>Draining\<close>

text \<open>\<open>rawActiveConns\<close> as connections start and end.\<close>

datatype conn_event = Started | Ended

definition rawActiveConns :: "conn_event list \<Rightarrow> int" where
  "rawActiveConns es = foldl (\<lambda>n e. case e of Started \<Rightarrow> n + 1 | Ended \<Rightarrow> n - 1) 0 es"

text \<open>The loop of \<open>rawShutdown\<close> on what it observes, poll by poll: the live connections and the
  milliseconds since the listener closed. The result is the polls left over.\<close>

fun drain :: "(int \<times> int) list \<Rightarrow> (int \<times> int) list" where
  "drain [] = []"
| "drain ((active, ms) # obs) = (if 0 < active \<and> ms < 5000 then drain obs else obs)"

text \<open>A sleep takes at least 100 ms, so the loop ends by its 51st poll, with or without connections.\<close>

lemma drain_polls:
  assumes "\<forall>i < length obs. 100 * int (i + k) \<le> snd (obs ! i)" "k \<le> 50" "51 - k \<le> length obs"
  shows "length obs - length (drain obs) \<le> 51 - k"
  using assms
proof (induction obs arbitrary: k)
  case (Cons p obs)
  obtain a ms where p: "p = (a, ms)" by (cases p)
  have ms: "100 * int k \<le> ms" using Cons.prems(1) p by force
  show ?case
  proof (cases "0 < a \<and> ms < 5000")
    case True
    with ms have "Suc k \<le> 50" by auto
    moreover have "\<forall>i < length obs. 100 * int (i + Suc k) \<le> snd (obs ! i)"
      using Cons.prems(1) by (metis Suc_less_eq add_Suc_right add_Suc_shift length_Cons nth_Cons_Suc)
    ultimately have "length obs - length (drain obs) \<le> 51 - Suc k"
      using Cons.IH [of "Suc k"] Cons.prems by auto
    moreover have "length (drain obs) \<le> length obs"
      by (induction obs rule: drain.induct) auto
    ultimately show ?thesis using True p \<open>Suc k \<le> 50\<close> by auto
  qed (use p Cons.prems in auto)
qed simp

lemma drain_idle: "fst p \<le> 0 \<Longrightarrow> drain (p # obs) = obs"
  by (cases p) simp

section \<open>Choosing the front-end\<close>

datatype front_end = StdServer | RawServer

definition use_front_end :: "string \<Rightarrow> front_end" where
  "use_front_end risk_http = (if risk_http = ''std'' then StdServer else RawServer)"

definition listen_port :: "string \<Rightarrow> string" where
  "listen_port port = (if port = [] then ''8080'' else port)"

end
