(* ===== verification/Raw_Defects.thy ===== *)
theory Raw_Defects
  imports Raw_Http
begin

text \<open>
  Which requests \<open>serveRawConn\<close> closes on without a response, said without its parser: by the shape of the request
  line, the names and values of the header lines as texts, and the number of bytes that follow. The lemmas show
  that a request has such a defect exactly when reading it fails.
\<close>

section \<open>What a defect is\<close>

definition upper_lower :: "(char \<times> char) list" where
  "upper_lower = zip ''ABCDEFGHIJKLMNOPQRSTUVWXYZ'' ''abcdefghijklmnopqrstuvwxyz''"

text \<open>Equal but for the case of ASCII letters, against a name in lower case.\<close>

definition same_name :: "string \<Rightarrow> string \<Rightarrow> bool" where
  "same_name n l \<longleftrightarrow> list_all2 (\<lambda>c d. c = d \<or> (c, d) \<in> set upper_lower) n l"

text \<open>The line is a header with this name: the text before its first colon.\<close>

definition named :: "string \<Rightarrow> string \<Rightarrow> bool" where
  "named l h \<longleftrightarrow> (\<exists>name val. h = name @ CHR '':'' # val \<and> CHR '':'' \<notin> set name \<and> same_name name l)"

definition decimal :: "string \<Rightarrow> nat" where
  "decimal ds = foldl (\<lambda>n d. 10 * n + (of_char d - of_char (CHR ''0''))) 0 ds"

text \<open>A well-formed length: one to nine decimal digits between blanks and tabs.\<close>

definition announces :: "string \<Rightarrow> nat \<Rightarrow> bool" where
  "announces h n \<longleftrightarrow>
     (\<exists>name a ds b. h = name @ CHR '':'' # a @ ds @ b \<and> CHR '':'' \<notin> set name \<and> same_name name ''content-length'' \<and>
        set a \<union> set b \<subseteq> {CHR '' '', CHR 0x09} \<and> ds \<noteq> [] \<and> length ds \<le> 9 \<and> set ds \<subseteq> set ''0123456789'' \<and>
        n = decimal ds)"

text \<open>The length of the body: zero, or what the last \<open>Content-Length\<close> announces.\<close>

definition body_length :: "string list \<Rightarrow> nat \<Rightarrow> bool" where
  "body_length hs n \<longleftrightarrow>
     (\<forall>h \<in> set hs. \<not> named ''content-length'' h) \<and> n = 0 \<or>
     (\<exists>hs1 h hs2. hs = hs1 @ h # hs2 \<and> announces h n \<and> (\<forall>h' \<in> set hs2. \<not> named ''content-length'' h'))"

definition good_request_line :: "string \<Rightarrow> bool" where
  "good_request_line l \<longleftrightarrow>
     (\<exists>m target v. l = m @ CHR '' '' # target @ CHR '' '' # v \<and> CHR '' '' \<notin> set m \<and> CHR '' '' \<notin> set v \<and>
        v \<in> {''HTTP/1.1'', ''HTTP/1.0''})"

definition bad_header :: "string \<Rightarrow> bool" where
  "bad_header h \<longleftrightarrow> named ''transfer-encoding'' h \<or> named ''content-length'' h \<and> (\<nexists>n. announces h n)"

text \<open>The defects of a head \<open>l # hs\<close> with \<open>t\<close> behind it: a head beyond the 4096 bytes of the buffer, its request line,
  its headers, a body beyond 3072 bytes, a body that does not arrive.\<close>

definition defective :: "string \<Rightarrow> string list \<Rightarrow> string \<Rightarrow> bool" where
  "defective l hs t \<longleftrightarrow>
     4096 < length (join_lines (l # hs)) + 4 \<or> \<not> good_request_line l \<or> (\<exists>h \<in> set hs. bad_header h) \<or>
     (\<exists>n. body_length hs n \<and> (3072 < n \<or> length t < n))"

section \<open>Names and values\<close>

lemma lower_byte_pair:
  assumes "d \<in> set ''abcdefghijklmnopqrstuvwxyz-''"
  shows "lower_byte c = d \<longleftrightarrow> c = d \<or> (c, d) \<in> set upper_lower"
proof
  assume l: "lower_byte c = d"
  have tab: "\<forall>n \<in> set [65..<91]. (char_of n, char_of (n + 32)) \<in> set upper_lower"
    by code_simp
  show "c = d \<or> (c, d) \<in> set upper_lower"
  proof (cases "65 \<le> (of_char c :: nat) \<and> (of_char c :: nat) \<le> 90")
    case True
    then have "(of_char c :: nat) \<in> set [65..<91]" by (simp only: set_upt atLeastLessThan_iff) simp
    with tab have "(char_of (of_char c :: nat), char_of ((of_char c :: nat) + 32)) \<in> set upper_lower" by blast
    then show ?thesis using l True by (simp add: lower_byte_def Let_def)
  qed (use l in \<open>auto simp: lower_byte_def Let_def\<close>)
next
  assume "c = d \<or> (c, d) \<in> set upper_lower"
  then show "lower_byte c = d"
  proof
    assume "c = d"
    with assms show ?thesis by auto
  next
    assume "(c, d) \<in> set upper_lower"
    then show ?thesis by (auto simp: upper_lower_def)
  qed
qed

lemma same_name_fold:
  "set l \<subseteq> set ''abcdefghijklmnopqrstuvwxyz-'' \<Longrightarrow> same_name n l \<longleftrightarrow> asciiEqualFold n l"
proof (induction l arbitrary: n)
  case (Cons d ds)
  then show ?case
    using lower_byte_pair [of d] by (cases n) (auto simp: same_name_def asciiEqualFold_def)
qed (simp add: same_name_def asciiEqualFold_def)

lemma same_name_headers:
  "same_name n ''transfer-encoding'' \<longleftrightarrow> asciiEqualFold n ''transfer-encoding''"
  "same_name n ''content-length'' \<longleftrightarrow> asciiEqualFold n ''content-length''"
  by (simp_all add: same_name_fold)

lemma index_byte_split:
  "index_byte s c = Some i \<Longrightarrow> s = take i s @ c # drop (i + 1) s \<and> c \<notin> set (take i s)"
  by (auto simp: index_byte_Some id_take_nth_drop)

lemma index_byte_at: "c \<notin> set xs \<Longrightarrow> index_byte (xs @ c # ys) c = Some (length xs)"
  by (simp add: index_byte_Some)

lemma named_iff:
  "named l h \<longleftrightarrow> (\<exists>i. index_byte h (CHR '':'') = Some i \<and> same_name (take i h) l)"
proof
  assume "named l h"
  then show "\<exists>i. index_byte h (CHR '':'') = Some i \<and> same_name (take i h) l"
    by (auto simp: named_def index_byte_at)
next
  assume "\<exists>i. index_byte h (CHR '':'') = Some i \<and> same_name (take i h) l"
  then show "named l h"
    unfolding named_def using index_byte_split by blast
qed

lemma digit_byte: "c \<in> set ''0123456789'' \<Longrightarrow> digit_val c = Some (of_char c - of_char (CHR ''0'')) \<and> \<not> is_ows c"
  by (auto simp: digit_val_def is_ows_def Let_def)

lemma digit_val_byte: "digit_val c \<noteq> None \<longleftrightarrow> c \<in> set ''0123456789''"
proof
  assume "digit_val c \<noteq> None"
  then have "48 \<le> (of_char c :: nat) \<and> (of_char c :: nat) \<le> 57"
    by (auto simp: digit_val_def Let_def split: if_splits)
  then have "(of_char c :: nat) \<in> set [48..<58]" by (simp only: set_upt atLeastLessThan_iff) simp
  moreover have "\<forall>n \<in> set [48..<58]. char_of n \<in> set ''0123456789''" by code_simp
  ultimately have "char_of (of_char c :: nat) \<in> set ''0123456789''" by blast
  then show "c \<in> set ''0123456789''" by simp
qed (use digit_byte in auto)

lemma digits_val_decimal:
  "digits_val acc ds = (if set ds \<subseteq> set ''0123456789'' then Some (foldl (\<lambda>n d. 10 * n + (of_char d - of_char (CHR ''0''))) acc ds)
     else None)"
proof (induction ds arbitrary: acc)
  case (Cons d ds)
  show ?case
  proof (cases "digit_val d")
    case None
    then have "d \<notin> set ''0123456789''" using digit_val_byte by blast
    with None show ?thesis by simp
  next
    case (Some v)
    then have "d \<in> set ''0123456789''" using digit_val_byte by blast
    with Some digit_byte [OF this] show ?thesis by (simp add: Cons.IH)
  qed
qed simp

lemma content_length_iff:
  "content_length v = Some n \<longleftrightarrow> v \<noteq> [] \<and> length v \<le> 9 \<and> set v \<subseteq> set ''0123456789'' \<and> n = decimal v"
  unfolding content_length_def digits_val_decimal decimal_def by auto

lemma is_ows_set: "set a \<subseteq> {CHR '' '', CHR 0x09} \<longleftrightarrow> (\<forall>c \<in> set a. is_ows c)"
  by (auto simp: is_ows_def)

lemma dropWhile_around:
  assumes "\<forall>c \<in> set a. P c" "ds \<noteq> []" "\<forall>c \<in> set ds. \<not> P c"
  shows "dropWhile P (a @ ds @ b) = ds @ b"
  using assms by (cases ds) (simp_all add: dropWhile_append2)

lemma trimmed_around:
  assumes "\<forall>c \<in> set a. is_ows c" "\<forall>c \<in> set b. is_ows c" "ds \<noteq> []" "\<forall>c \<in> set ds. \<not> is_ows c"
  shows "trimmed (a @ ds @ b) = ds"
proof -
  have "dropWhile is_ows (rev b @ rev ds @ []) = rev ds @ []"
    using assms by (intro dropWhile_around) simp_all
  moreover have "dropWhile is_ows (a @ ds @ b) = ds @ b"
    using assms by (intro dropWhile_around)
  ultimately show ?thesis by (simp add: trimmed_def)
qed

lemma trimmed_split: "\<exists>a b. v = a @ trimmed v @ b \<and> (\<forall>c \<in> set a. is_ows c) \<and> (\<forall>c \<in> set b. is_ows c)"
proof -
  let ?w = "dropWhile is_ows v"
  have "?w = rev (takeWhile is_ows (rev ?w) @ dropWhile is_ows (rev ?w))" by simp
  then have "?w = trimmed v @ rev (takeWhile is_ows (rev ?w))"
    unfolding trimmed_def by (metis rev_append)
  then have "v = takeWhile is_ows v @ trimmed v @ rev (takeWhile is_ows (rev ?w))"
    by (metis takeWhile_dropWhile_id)
  then show ?thesis by (metis set_rev set_takeWhileD)
qed

lemma announces_iff:
  "announces h n \<longleftrightarrow>
     (\<exists>i. index_byte h (CHR '':'') = Some i \<and> same_name (take i h) ''content-length'' \<and>
        content_length (trimmed (drop (i + 1) h)) = Some n)"
    (is "_ \<longleftrightarrow> ?code")
proof
  assume "announces h n"
  then obtain name a ds b where h: "h = name @ CHR '':'' # a @ ds @ b" "CHR '':'' \<notin> set name" "same_name name ''content-length''"
      "set a \<union> set b \<subseteq> {CHR '' '', CHR 0x09}"
    and ds: "ds \<noteq> []" "length ds \<le> 9" "set ds \<subseteq> set ''0123456789''" "n = decimal ds"
    unfolding announces_def by blast
  have "\<forall>c \<in> set ds. \<not> is_ows c" using ds(3) digit_byte by blast
  then have "trimmed (a @ ds @ b) = ds"
    using h(4) ds(1) is_ows_set [of a] is_ows_set [of b] by (intro trimmed_around) auto
  with h ds show ?code by (simp add: index_byte_at content_length_iff)
next
  assume ?code
  then obtain i where i: "index_byte h (CHR '':'') = Some i" "same_name (take i h) ''content-length''"
      "content_length (trimmed (drop (i + 1) h)) = Some n" by blast
  obtain a b where "drop (i + 1) h = a @ trimmed (drop (i + 1) h) @ b" "\<forall>c \<in> set a. is_ows c" "\<forall>c \<in> set b. is_ows c"
    using trimmed_split by blast
  moreover have "h = take i h @ CHR '':'' # drop (i + 1) h" "CHR '':'' \<notin> set (take i h)"
    using index_byte_split [OF i(1)] by simp_all
  ultimately show "announces h n"
    using i(2) i(3) [unfolded content_length_iff] is_ows_set [of a] is_ows_set [of b]
    unfolding announces_def by (metis Un_least)
qed

section \<open>Headers\<close>

lemma asciiEqualFold_unique: "asciiEqualFold b x \<Longrightarrow> asciiEqualFold b y \<Longrightarrow> x = y"
proof -
  have "asciiEqualFold b x \<Longrightarrow> x = map lower_byte b" for x
    unfolding asciiEqualFold_def by (induction b x rule: list_all2_induct) auto
  then show "asciiEqualFold b x \<Longrightarrow> asciiEqualFold b y \<Longrightarrow> x = y" by metis
qed

lemma announces_named: "announces h n \<Longrightarrow> named ''content-length'' h"
  by (auto simp: announces_iff named_iff)

lemma announces_unique: "announces h n \<Longrightarrow> announces h n' \<Longrightarrow> n = n'"
  by (auto simp: announces_iff)

lemma header_line_bad: "header_line h st = Inl BadHeader \<longleftrightarrow> bad_header h"
  using asciiEqualFold_unique [of _ "''transfer-encoding''" "''content-length''"]
    asciiEqualFold_unique [of _ "''transfer-encoding''" "''connection''"]
  by (auto simp: bad_header_def named_iff announces_iff same_name_headers header_line_eq Let_def split: option.splits)

lemma header_line_length_field:
  assumes "header_line h (n, k) = Inr (n', k')"
  shows "if named ''content-length'' h then announces h n' else n' = n"
  using assms
  by (auto simp: named_iff announces_iff same_name_headers header_line_eq Let_def split: option.splits if_splits)

lemma body_length_snoc:
  "body_length (hs @ [h]) n \<longleftrightarrow> (if named ''content-length'' h then announces h n else body_length hs n)"
proof (cases "named ''content-length'' h")
  case True
  have "hs1 @ h' # hs2 = hs @ [h] \<Longrightarrow> \<forall>h' \<in> set hs2. \<not> named ''content-length'' h' \<Longrightarrow> h' = h" for hs1 h' hs2
    using True by (cases hs2 rule: rev_cases) auto
  moreover have "announces h n \<Longrightarrow> body_length (hs @ [h]) n"
    unfolding body_length_def by (intro disjI2 exI [of _ hs] exI [of _ h] exI [of _ "[]"]) simp
  ultimately show ?thesis
    using True by (auto simp: body_length_def)
next
  case False
  have "\<exists>hs2'. hs2 = hs2' @ [h] \<and> hs = hs1 @ h' # hs2'"
    if "hs @ [h] = hs1 @ h' # hs2" "announces h' n" for hs1 h' hs2
    using that False announces_named by (cases hs2 rule: rev_cases) auto
  then have "body_length (hs @ [h]) n \<Longrightarrow> body_length hs n"
    using False unfolding body_length_def by fastforce
  moreover have "body_length (hs @ [h]) n" if b: "body_length hs n"
    using b [unfolded body_length_def]
  proof
    assume "\<exists>hs1 h' hs2. hs = hs1 @ h' # hs2 \<and> announces h' n \<and> (\<forall>h \<in> set hs2. \<not> named ''content-length'' h)"
    then obtain hs1 h' hs2 where "hs = hs1 @ h' # hs2" "announces h' n" "\<forall>h \<in> set hs2. \<not> named ''content-length'' h"
      by blast
    with False show ?thesis
      unfolding body_length_def by (intro disjI2 exI [of _ hs1] exI [of _ h'] exI [of _ "hs2 @ [h]"]) simp
  next
    assume "(\<forall>h \<in> set hs. \<not> named ''content-length'' h) \<and> n = 0"
    with False show ?thesis unfolding body_length_def by simp
  qed
  ultimately show ?thesis using False by auto
qed

lemma header_lines_snoc: "header_lines (hs @ [h]) st = on_ok (header_lines hs st) (header_line h)"
proof (induction hs arbitrary: st)
  case Nil
  show ?case by (cases "header_line h st") simp_all
next
  case (Cons x hs)
  then show ?case by (cases "header_line x st") simp_all
qed

text \<open>The header loop rejects exactly the bad headers, and otherwise finds the length of the body.\<close>

lemma header_lines_spec:
  "case header_lines hs (0, k) of
     Inl e \<Rightarrow> \<exists>h \<in> set hs. bad_header h
   | Inr (n, keep) \<Rightarrow> (\<forall>h \<in> set hs. \<not> bad_header h) \<and> (\<forall>m. body_length hs m \<longleftrightarrow> m = n)"
proof (induction hs rule: rev_induct)
  case Nil
  show ?case by (simp add: body_length_def)
next
  case (snoc h hs)
  show ?case
  proof (cases "header_lines hs (0, k)")
    case (Inl e)
    with snoc show ?thesis by (simp add: header_lines_snoc)
  next
    case (Inr st)
    obtain n keep where st: "st = (n, keep)" by (cases st)
    show ?thesis
    proof (cases "header_line h st")
      case (Inl e)
      with header_line_end [OF Inl] have "bad_header h" by (simp add: header_line_bad [symmetric, of h st])
      with Inl \<open>header_lines hs (0, k) = Inr st\<close> show ?thesis by (simp add: header_lines_snoc)
    next
      case h: (Inr st')
      obtain n' keep' where st': "st' = (n', keep')" by (cases st')
      have "\<not> bad_header h" using h by (simp add: header_line_bad [symmetric, of h st])
      moreover have "body_length (hs @ [h]) m \<longleftrightarrow> m = n'" for m
        using header_line_length_field [OF h [unfolded st st']] snoc Inr st announces_unique
        by (auto simp: body_length_snoc split: if_splits)
      ultimately show ?thesis
        using h snoc Inr st st' by (simp add: header_lines_snoc)
    qed
  qed
qed

section \<open>Request lines\<close>

lemma last_index_byte_split:
  assumes "last_index_byte s c = Some i"
  shows "i < length s" "s ! i = c" "c \<notin> set (drop (i + 1) s)"
proof -
  from assms obtain j where j: "index_byte (rev s) c = Some j" "i = length s - 1 - j"
    by (auto simp: last_index_byte_def)
  then have at: "j < length s" "rev s ! j = c" "c \<notin> set (take j (rev s))"
    by (auto simp: index_byte_Some)
  then show "i < length s" "s ! i = c" using j(2) by (auto simp: rev_nth)
  have "length s - j = i + 1" using at(1) j(2) by simp
  then have "take j (rev s) = rev (drop (i + 1) s)" by (simp only: take_rev)
  with at(3) show "c \<notin> set (drop (i + 1) s)" by simp
qed

lemma good_request_line_iff:
  "good_request_line l \<longleftrightarrow> (\<exists>m target v ka. request_line l = Inr (m, target, v) \<and> version_keep_alive v = Some ka)"
proof
  assume "good_request_line l"
  then obtain m target v where "l = m @ CHR '' '' # target @ CHR '' '' # v" "CHR '' '' \<notin> set m" "CHR '' '' \<notin> set v"
      "v \<in> {''HTTP/1.1'', ''HTTP/1.0''}"
    unfolding good_request_line_def by blast
  then show "\<exists>m target v ka. request_line l = Inr (m, target, v) \<and> version_keep_alive v = Some ka"
    using request_line_words [of m v target] by (auto simp: version_keep_alive_def)
next
  assume "\<exists>m target v ka. request_line l = Inr (m, target, v) \<and> version_keep_alive v = Some ka"
  then obtain i j v where i: "index_byte l (CHR '' '') = Some i" and j: "last_index_byte l (CHR '' '') = Some j"
    and ij: "i < j" and v: "v = drop (j + 1) l" "v \<in> {''HTTP/1.1'', ''HTTP/1.0''}"
    by (auto simp: request_line_eq version_keep_alive_def split: option.splits if_splits)
  note last = last_index_byte_split [OF j]
  have "l = take i l @ CHR '' '' # drop (i + 1) l" "CHR '' '' \<notin> set (take i l)"
    using index_byte_split [OF i] by simp_all
  moreover have "drop (i + 1) l = take (j - (i + 1)) (drop (i + 1) l) @ CHR '' '' # v"
  proof -
    have "drop (i + 1) l ! (j - (i + 1)) = CHR '' ''" "j - (i + 1) < length (drop (i + 1) l)"
      using ij last by simp_all
    then show ?thesis
      using id_take_nth_drop [of "j - (i + 1)" "drop (i + 1) l"] ij by (simp add: v(1))
  qed
  ultimately show "good_request_line l"
    unfolding good_request_line_def using v last(3) by metis
qed

section \<open>Defects are the failures of the reader\<close>

lemma head_end_lines:
  assumes "plain_line l" "\<forall>h \<in> set hs. plain_line h"
  shows "head_end (join_lines (l # hs) @ crlf2 @ t) =
    (if 4096 < length (join_lines (l # hs)) + 4 then None else Some (length (join_lines (l # hs))))"
proof -
  have "index_str (join_lines (l # hs) @ crlf2 @ t) crlf2 = Some (length (join_lines (l # hs)))"
    using assms by (intro index_head_end) auto
  then show ?thesis by (simp add: head_end_def rawReadBufSize_def)
qed

lemma parse_head_good:
  assumes "plain_line l" "\<forall>h \<in> set hs. plain_line h"
  shows "case parse_head (join_lines (l # hs)) of
      Inl e \<Rightarrow> \<not> good_request_line l \<or> (\<exists>h \<in> set hs. bad_header h)
    | Inr h \<Rightarrow> good_request_line l \<and> (\<forall>h \<in> set hs. \<not> bad_header h) \<and> (\<forall>m. body_length hs m \<longleftrightarrow> m = hd_length h)"
proof (cases "good_request_line l")
  case False
  then have "\<exists>e. parse_head (join_lines (l # hs)) = Inl e"
    unfolding parse_head_lines [OF assms] good_request_line_iff
    by (cases "request_line l") (auto split: option.split)
  with False show ?thesis by auto
next
  case True
  then obtain m target v ka where "request_line l = Inr (m, target, v)" "version_keep_alive v = Some ka"
    by (auto simp: good_request_line_iff)
  with True header_lines_spec [of hs ka] show ?thesis
    unfolding parse_head_lines [OF assms]
    by (cases "header_lines hs (0, ka)") (auto simp: split_target_eq split: prod.splits)
qed

lemma defective_iff:
  assumes "plain_line l" "\<forall>h \<in> set hs. plain_line h"
  shows "defective l hs t \<longleftrightarrow> (\<exists>e. stream_request (join_lines (l # hs) @ crlf2 @ t) = Inl e)"
proof (cases "4096 < length (join_lines (l # hs)) + 4")
  case True
  then show ?thesis by (simp add: defective_def stream_request_def head_end_lines [OF assms])
next
  case False
  then have he: "head_end (join_lines (l # hs) @ crlf2 @ t) = Some (length (join_lines (l # hs)))"
    by (simp add: head_end_lines [OF assms])
  have drp: "drop (length (join_lines (l # hs)) + 4) (join_lines (l # hs) @ crlf2 @ t) = t" by simp
  show ?thesis
    using parse_head_good [OF assms] False drp
    by (cases "parse_head (join_lines (l # hs))")
      (auto simp: defective_def stream_request_def he Let_def rawBodyLimit_def)
qed

end
