(* ===== verification/Float_Instance.thy ===== *)
theory Float_Instance
  imports Price_Log
begin

text \<open>
  The contract of the floating-point texts can be met: integers with decimal texts. The theorems on prices are
  applied to this instance in their witnesses.
\<close>

definition int_text_value :: "string \<Rightarrow> int option" where
  "int_text_value s =
     (case s of
        [] \<Rightarrow> None
      | c # ds \<Rightarrow>
          if c = CHR ''-'' then map_option (\<lambda>n. - int n) (digits_val 0 ds)
          else map_option int (digits_val 0 s))"

definition int_float :: "int float64" where
  "int_float =
     \<lparr>fadd = (+), fsub = (-), fmul = (*), fdiv = (div), fless = (<), fleq = (\<le>), fsqrt = (\<lambda>x. x), fsin = (\<lambda>_. 0),
       flit = floor, ffinite = (\<lambda>_. True), g_text = go_itoa, json_text = go_itoa,
       parse_json = int_text_value\<rparr>"

text \<open>A positive number starts with a digit other than zero.\<close>

lemma digit_char_digit: "d < 10 \<Longrightarrow> is_digit (digit_char d)"
  by (simp add: is_digit_def digit_val_char)

lemma digit_char_nonzero: "0 < d \<Longrightarrow> d < 10 \<Longrightarrow> digit_char d \<noteq> CHR ''0''"
proof
  assume "0 < d" "d < 10" "digit_char d = CHR ''0''"
  then have "digit_val (CHR ''0'') = Some d" using digit_val_char [of d] by simp
  with \<open>0 < d\<close> show False by (simp add: digit_val_def)
qed

lemma dec_digits_shape:
  "0 < n \<Longrightarrow> \<exists>c cs. dec_digits n = c # cs \<and> is_digit c \<and> c \<noteq> CHR ''0'' \<and> list_all is_digit cs"
proof (induction n rule: dec_digits.induct)
  case (1 n)
  show ?case
  proof (cases "n < 10")
    case True
    with "1.prems" show ?thesis
      by (simp add: dec_digits.simps [of n] digit_char_digit digit_char_nonzero)
  next
    case False
    then obtain c cs where "dec_digits (n div 10) = c # cs" "is_digit c" "c \<noteq> CHR ''0''" "list_all is_digit cs"
      using "1.IH" [OF False] by (auto simp: div_greater_zero_iff)
    with False show ?thesis
      by (simp add: dec_digits.simps [of n] digit_char_digit)
  qed
qed

lemma num_run_digits: "list_all is_digit cs \<Longrightarrow> num_run NInt cs = Some NInt"
  by (induction cs) (simp_all add: num_next_def)

lemma digit_not_minus: "is_digit c \<Longrightarrow> c \<noteq> CHR ''-''"
  by (auto simp: is_digit_def digit_val_def)

lemma go_itoa_number: "json_number (go_itoa v)"
proof (cases "v = 0")
  case True
  moreover have "go_itoa 0 = ''0''" by code_simp
  ultimately show ?thesis
    by (simp add: json_number_def num_first_def num_ends_def)
next
  case False
  define n where "n = nat \<bar>v\<bar>"
  with False obtain c cs where d: "dec_digits n = c # cs" "is_digit c" "c \<noteq> CHR ''0''" "list_all is_digit cs"
    using dec_digits_shape [of n] by auto
  have "go_itoa v = (if v < 0 then CHR ''-'' # dec_digits n else dec_digits n)"
    by (simp add: go_itoa_def n_def)
  with d digit_not_minus [OF d(2)] show ?thesis
    by (simp add: json_number_def num_first_def num_next_def num_run_digits num_ends_def)
qed

lemma int_text_round: "int_text_value (go_itoa v) = Some v"
proof (cases "v < 0")
  case True
  then show ?thesis by (simp add: go_itoa_def int_text_value_def digits_val_dec)
next
  case False
  have "list_all is_digit (dec_digits (nat v))"
    using dec_digits_digits by (auto simp: list_all_iff)
  then obtain c cs where "dec_digits (nat v) = c # cs" "c \<noteq> CHR ''-''"
    using digit_not_minus by (cases "dec_digits (nat v)") auto
  with False digits_val_dec [of "nat v"] show ?thesis
    by (simp add: go_itoa_def int_text_value_def)
qed

lemma int_float_contract: "float_contract int_float"
  by (simp add: float_contract_def int_float_def go_itoa_number int_text_round)

end
