(* ===== verification/Sha256_Vector.thy ===== *)
theory Sha256_Vector
  imports Sha256
begin

text \<open>
  Checks that the model of \<open>crypto/sha256\<close> is the published function: the round constants and the
  initial state are the fractional bits of the cube and square roots FIPS 180-4 derives them from,
  and the digest of \<open>abc\<close> is the standard's test vector. The digest is evaluated by the simplifier
  over the equations below, which put every sum into the form the word arithmetic can decide.
\<close>

section \<open>Where the constants come from\<close>

definition sha_primes :: "nat list" where
  "sha_primes =
     [2, 3, 5, 7, 11, 13, 17, 19, 23, 29, 31, 37, 41, 43, 47, 53, 59, 61, 67, 71, 73, 79, 83, 89, 97,
      101, 103, 107, 109, 113, 127, 131, 137, 139, 149, 151, 157, 163, 167, 173, 179, 181, 191, 193,
      197, 199, 211, 223, 227, 229, 233, 239, 241, 251, 257, 263, 269, 271, 277, 281, 283, 293, 307,
      311]"

text \<open>\<open>k\<close> is the first 32 bits of the fractional part of the \<open>e\<close>-th root of \<open>p\<close>, whose integer part
  is \<open>i\<close>.\<close>

definition root_bits :: "nat \<Rightarrow> nat \<Rightarrow> nat \<Rightarrow> u32 \<Rightarrow> bool" where
  "root_bits e p i k =
     (let r = i * 2 ^ 32 + unat k in r ^ e \<le> p * 2 ^ (32 * e) \<and> p * 2 ^ (32 * e) < (r + 1) ^ e)"

lemma sha_K_cube_roots:
  "list_all (\<lambda>(p, k). root_bits 3 p (if p < 8 then 1 else if p < 27 then 2 else if p < 64 then 3
      else if p < 125 then 4 else if p < 216 then 5 else 6) k) (zip sha_primes sha_K)"
  by (simp add: sha_primes_def sha_K_def root_bits_def)

lemma sha_H0_square_roots:
  "list_all (\<lambda>(p, k). root_bits 2 p (if p < 4 then 1 else if p < 9 then 2 else if p < 16 then 3
      else 4) k) (zip (take 8 sha_primes) sha_H0)"
  by (simp add: sha_primes_def sha_H0_def root_bits_def)

section \<open>Evaluating a compression\<close>

lemma word_rotr_split:
  assumes n: "0 < n" "n < 32"
  shows "word_rotr n (x :: u32) = drop_bit n x OR push_bit (32 - n) (take_bit n x)"
proof (rule bit_word_eqI)
  fix i assume i: "i < LENGTH(32)"
  show "bit (word_rotr n x) i = bit (drop_bit n x OR push_bit (32 - n) (take_bit n x)) i"
  proof (cases "i + n < 32")
    case True
    then show ?thesis
      using n i by (auto simp: bit_simps bit_word_rotr_iff add.commute)
  next
    case False
    then have "(i + n) mod 32 = i + n - 32"
      using n i by (simp add: mod_if)
    then show ?thesis
      using n i False
      by (auto simp: bit_simps bit_word_rotr_iff add.commute dest: bit_imp_le_length)
  qed
qed

definition add32 :: "u32 \<Rightarrow> u32 \<Rightarrow> u32" where
  "add32 a b = word_of_int ((uint a + uint b) mod 4294967296)"

lemma add32: "a + b = add32 a b"
  by (simp add: add32_def word_uint_eq_iff uint_word_ariths(1) uint_word_of_int)

definition sha_next :: "u32 \<Rightarrow> u32 \<Rightarrow> u32 list \<Rightarrow> u32 list" where
  "sha_next t1 t2 st =
     (case st of
        [a, b, c, d, e, f, g, h] \<Rightarrow> [add32 t1 t2, a, b, c, add32 d t1, e, f, g]
      | _ \<Rightarrow> st)"

lemma sha_round_eval:
  "sha_round [a, b, c, d, e, f, g, h] (k, w) =
     sha_next (add32 (add32 (add32 (add32 h (sha_S1 e)) (sha_ch e f g)) k) w)
       (add32 (sha_S0 a) (sha_maj a b c)) [a, b, c, d, e, f, g, h]"
  by (simp add: add32 sha_next_def Let_def)

lemma sha_extend_eval:
  "sha_extend (numeral n) ws =
     sha_extend (pred_numeral n)
       (add32 (add32 (add32 (sha_s1 (ws ! 1)) (ws ! 6)) (sha_s0 (ws ! 14))) (ws ! 15) # ws)"
  "sha_extend (Suc 0) ws =
     add32 (add32 (add32 (sha_s1 (ws ! 1)) (ws ! 6)) (sha_s0 (ws ! 14))) (ws ! 15) # ws"
  by (simp_all add: add32 numeral_eq_Suc)

lemmas sha_eval = sha_round_eval sha_extend_eval add32_def word_rotr_split sha_next_def
  sha_ch_def sha_maj_def sha_S0_def sha_S1_def sha_s0_def sha_s1_def

section \<open>The test vector\<close>

lemma replicate_pred_numeral: "replicate (numeral n) x = x # replicate (pred_numeral n) x"
  by (simp add: numeral_eq_Suc)

lemma sha_abc_words:
  "be_words (bytes_of ''abc'' @ sha_pad 3) =
     [0x61626380, 0, 0, 0, 0, 0, 0, 0, 0, 0, 0, 0, 0, 0, 0, 0x18]"
  by (simp add: bytes_of_def sha_pad_def be64_def of_be32_def replicate_pred_numeral)

lemma sha_abc_blocks:
  "foldl sha_compress sha_H0 (blocks 63 (bytes_of ''abc'' @ sha_pad (length (bytes_of ''abc'')))) =
     sha_compress sha_H0 (bytes_of ''abc'' @ sha_pad 3)"
proof -
  have "blocks 63 (bytes_of ''abc'' @ sha_pad 3) = [bytes_of ''abc'' @ sha_pad 3]"
    using blocks_append [of "bytes_of ''abc'' @ sha_pad 3" 63 "[]"] by (simp add: sha_pad_def)
  then show ?thesis by (simp add: numeral_eq_Suc)
qed

lemma sha256_abc:
  "sha256 (bytes_of ''abc'') =
     [0xba, 0x78, 0x16, 0xbf, 0x8f, 0x01, 0xcf, 0xea, 0x41, 0x41, 0x40, 0xde, 0x5d, 0xae, 0x22, 0x23,
      0xb0, 0x03, 0x61, 0xa3, 0x96, 0x17, 0x7a, 0x9c, 0xb4, 0x10, 0xff, 0x61, 0xf2, 0x00, 0x15, 0xad]"
  unfolding sha256_def sha_abc_blocks
  by (simp add: sha_compress_def sha_schedule_def sha_abc_words sha_K_def sha_H0_def sha_eval
      be32_def)

end
