(* ===== verification/Spec2Isabelle.thy ===== *)
theory Spec2Isabelle
  imports Program Server Raw_Defects Float_Instance Sha256_Vector
begin

text \<open>
  A verification development for the \<open>obsidio\<close> backend (the Go program under \<open>src/app\<close>): an HTTP
  service whose \<open>/risk\<close> endpoint runs a chain of 50,000 rounds of SHA-256 and hex on every request,
  behind an admission gate that parks, serves, or sheds requests.

  \<^bold>\<open>The parts and how they interact.\<close> A request goroutine enters \<open>riskSubmit\<close> (\<open>main.go\<close>), which
  sheds it or pushes a waiter on a LIFO stack; one goroutine per hash slot runs \<open>riskWorker\<close>, which pops waiters
  with \<open>riskTakeWork\<close>, runs one of four chain kernels on them, feeds the measured cost to
  \<open>observeChainCost\<close> (which sets the patience window the pop and the timers use), and sends each
  waiter its digest. Sheds are paid from an error budget by \<open>shedReserveError\<close>. The kernels are
  function variables that boot fills in after differential self-tests and races
  (\<open>shakernel_amd64.go\<close>, \<open>sha4lane_amd64.go\<close>, \<open>shakernel_x16_amd64.go\<close>).

  A connection goroutine of the raw HTTP front-end (\<open>serveRawConn\<close> in \<open>rawserver.go\<close>, or the stock \<open>net/http\<close>
  server with \<open>RISK_HTTP=std\<close>) parses requests out of a fixed buffer and calls the handlers of \<open>main.go\<close>: \<open>/price\<close> reads
  a table of prebuilt responses, and with POST appends to a write-ahead log and updates the table; \<open>/stats\<close>
  computes statistics of a fixed series; \<open>/risk\<close> goes through \<open>riskSubmit\<close>. Every handler answers through
  \<open>writeJSON\<close>, which counts the response for the shed budget.

  \<^bold>\<open>The theories.\<close>
  \<^item> \<open>Prelude\<close>: machine types, byte packing, generic lemmas, the named collections.
  \<^item> \<open>Sha256\<close>, \<open>Sha256_Vector\<close>: \<open>crypto/sha256.Sum256\<close> as FIPS 180-4 defines it, with the constants
    derived from the primes and the vector of the standard; \<open>Hex_Codec\<close>: \<open>hexPairs\<close> and \<open>hexEncode64\<close> against
    \<open>encoding/hex\<close>; \<open>Go_Strings\<close>: the functions of \<open>strings\<close> and \<open>strconv\<close> the program calls.
  \<^item> \<open>Chain\<close>: the kernel variables (record \<open>kernels\<close>), \<open>riskChain\<close>, \<open>riskChainPair\<close>, and the starter's
    loop as their specification; \<open>Kernel_Boot\<close>: \<open>kernelSum64\<close>, \<open>kernelSum64Pair\<close>, the feature gates, the
    self-tests, \<open>initRiskKernel\<close>, \<open>raceKernelPairing\<close>; \<open>Quad_Kernel\<close>: the 4-lane kernel and
    \<open>initRiskKernelX4\<close>; \<open>X16_Kernel\<close>: the 16-lane batch with its transposed layout and pooled state, and
    \<open>initRiskKernelX16\<close>; \<open>Boot\<close>: the order \<open>main\<close> runs them in, and \<open>riskSlots\<close>.
  \<^item> \<open>Governor\<close>: the response counters, \<open>initShedBudget\<close>, and \<open>shedReserveError\<close> step by step under
    interleaving; \<open>Latency\<close>: \<open>observeChainCost\<close> and \<open>calibrateRisk\<close>.
  \<^item> \<open>Waiter_Stack\<close>: the linked stack and \<open>riskTakeWork\<close>, refined to a scan of a list; \<open>Gate\<close>:
    \<open>riskSubmit\<close> and \<open>riskWorker\<close> as program counters over the shared state (record \<open>gate\<close>), with
    \<open>gate_exec\<close> one atomic step and \<open>gate_runs\<close> the runs; \<open>Gate_Invariant\<close> and \<open>Gate_Safety\<close>: the invariant and its
    preservation; \<open>Gate_Progress\<close>: wake-ups; \<open>Gate_Accounts\<close>: charges, the latency range, bounded
    delivery; \<open>Gate_Answers\<close>: requests matched with their digests.
  \<^item> \<open>Raw_Buffer\<close>: the connection's buffer, \<open>fill\<close>, and the two loops that read; \<open>Raw_Parse\<close>: the request line and the
    headers; \<open>Raw_Response\<close>: \<open>rawResponse\<close>, \<open>writeResponse\<close>, \<open>writeJSONUncounted\<close>, and a client that reads
    responses; \<open>Raw_Http\<close>: the request loop, refined to the byte stream, and pipelines of well-formed
    requests; \<open>Raw_Defects\<close>: which requests are rejected, said without the parser; \<open>Server\<close>: \<open>rawServe\<close>, \<open>rawShutdown\<close>, the choice of the front-end.
  \<^item> \<open>Go_Float\<close>: \<open>float64\<close> as a record of operations; \<open>Go_Url\<close>: \<open>URL.Query().Get\<close> and \<open>symbolParam\<close>; \<open>Go_Utf8\<close>,
    \<open>Go_Json\<close>: the scanner, the string encoder and the unquoting of \<open>encoding/json\<close>; \<open>Json_Objects\<close>: the text of an
    object and what a client reads from it.
  \<^item> \<open>Price_Store\<close>: the tables \<open>init\<close> builds, the log file with its faults, \<open>appendWAL\<close>, \<open>initPriceWAL\<close>;
    \<open>Price_Log\<close>: what a line of the log reads back as, torn and glued lines; \<open>Handlers\<close>: the handlers and the
    dispatch, and the connection of the program; \<open>Price_Durability\<close>: well-formed tables, acknowledgement after
    durability, restarts, racing POSTs; \<open>Endpoints\<close>: statistics on exact arithmetic and \<open>/risk\<close> bodies;
    \<open>Starter\<close>, \<open>Contract\<close>: the Go starter (\<open>starters/go/main.go\<close>), its tables, its handlers and its JSON encoder, and the
    agreement of the backend's answers with its answers; \<open>Float_Instance\<close>: an instance of the floating-point contract.
  \<^item> \<open>Host\<close>: \<open>cgroupCPUBudget\<close>, \<open>bootFingerprint\<close>, \<open>logThrottleStats\<close>.
  \<^item> \<open>Service\<close>: handlers, tables and gate together as interleaved requests over the shared counters, refined to runs of
    the gate, with the books of the counters against the responses sent and in flight; \<open>Program\<close>: \<open>main\<close>'s boot from the environment, the files, the log and the measured durations to the
    service with its workers.

  \<^bold>\<open>Interfaces.\<close> \<open>counted_kernel\<close>, \<open>sim_kernel\<close>, \<open>iter_kernel\<close> (what a chain loop needs of its kernel),
  \<open>batch_kernels\<close> (what the gate needs of the kernels; met by the booted kernels, theory \<open>Boot\<close>),
  \<open>shed_budget\<close> (what the gate needs of the governor), \<open>lifo_stack\<close> (what it needs of the stack), \<open>responder\<close> (what
  the request loop needs of the handlers; met by the program's dispatch, theory \<open>Handlers\<close>).

  \<^bold>\<open>Parameters.\<close> The assembly routines are a record of functions (\<open>asm_routines\<close>): nothing is
  assumed of them in the theorems on the self-tests, and \<open>asm_contract\<close>, the behaviour their Go declarations
  document, in the theorems on digests (it is satisfiable: \<open>ref_asm\<close>). So are the environment variables, \<open>/proc/cpuinfo\<close>, the random source of the
  self-tests and every measured duration. Time is a clock that only moves forward. A \<open>float64\<close> is an abstract
  type with its operations, its texts and its parsing in the record \<open>float64\<close>; \<open>float_contract\<close> states the documented
  round trip of the shortest texts. A socket is the list of what reads find, a log file is its bytes with the
  durable part and the faults to come. The standard library's other functions are modelled as they are documented.

  \<^bold>\<open>Loops.\<close> The chain loops run on 32-bit counters and are total functions with a termination
  proof (50,000 is far below the wrap-around); \<open>take_loop\<close> follows heap pointers and may diverge, so it is
  a partial function whose termination on every stack the program builds is a theorem. The loops of a
  connection are total functions: every successful read and every request consumes something of the socket. Their slice
  expressions carry the bounds of the code, and one out of range is the end \<open>Panicked\<close>.
  The scanner of JSON is a fold over the bytes.

  \<^bold>\<open>Abstractions.\<close> A critical section of \<open>riskMu\<close> is one step. Inside it, and at the patience
  timer, \<open>shedReserveError\<close> is one step decided on a value of \<open>respOK\<close> at most the current one; that
  its compare-and-swap loop behaves so under every interleaving is proved in \<open>Governor\<close>. Counters and times are
  unbounded integers: their 64-bit ranges are out of reach.

  The handlers run one at a time in the theorems on prices, and in \<open>Service\<close> the handler of another path than \<open>/risk\<close> is
  one step up to the write of its response, while those of \<open>/risk\<close> overlap with each other and with everything else. The
  count that \<open>writeJSON\<close> makes after its write is a step of its own there (\<open>AddCounter\<close>), so the counters lag the
  responses by those in flight. The two critical
  sections of concurrent POSTs are \<open>post_step\<close> in \<open>Price_Durability\<close>, with the divergence they allow. The handler of
  \<open>/risk\<close> takes the result of \<open>riskSubmit\<close> as an argument; \<open>Service\<close> and the theorems on its responses take it from a run of
  the gate. Strings taken from the buffer are values: the code copies them out before the buffer moves. Read and
  write deadlines are reads and writes that fail.

  \<^bold>\<open>Not modelled.\<close> Assembly bodies, the text of log lines other than the fingerprint and the throttle counters,
  the stock server's multiplexer, timeouts and header limits, listeners and signals, the profiling and telemetry
  surfaces, the rounding of floating-point arithmetic, benchmarks and the starters in other languages.
\<close>

section \<open>Concrete inputs for the witnesses\<close>

definition demo_env :: boot_env where
  "demo_env = \<lparr>env_KERNEL = '''', env_KERNEL_V3 = ''on'', env_X4 = '''', env_X16 = '''',
     cpuinfo = Some (''flags'' @ [CHR 0x09] @ '': fpu sse4_1 ssse3 avx sha_ni'')\<rparr>"

definition demo_rng :: "nat rng" where
  "demo_rng = \<lparr>newSource = (\<lambda>n. n), read64 = (\<lambda>g. (replicate 64 (of_nat g), g + 1))\<rparr>"

definition demo_times :: boot_times where
  "demo_times = \<lparr>idle = [4000000, 4100000, 5000000], contended = [9000000, 8000000],
     race_serial = [8, 8, 8], race_paired = [5, 5, 5], race_pair2 = [10, 10, 10], race_quad = [7, 7, 7],
     race_batch = 30, race_ref = 20\<rparr>"

definition demo_real :: "real float64" where
  "demo_real = \<lparr>fadd = (+), fsub = (-), fmul = (*), fdiv = (/), fless = (<), fleq = (\<le>), fsqrt = sqrt, fsin = sin,
     flit = real_of_rat, ffinite = (\<lambda>_. True), g_text = (\<lambda>_. []), json_text = (\<lambda>_. []),
     parse_json = (\<lambda>_. None)\<rparr>"

definition demo_lat :: latency where
  "demo_lat = \<lparr>riskPatienceNs = 1192000000, riskChainEWMANs = 8000000\<rparr>"

definition demo_counters :: counters where
  "demo_counters = \<lparr>respOK = 1000, respErr = 0\<rparr>"

definition demo_gate :: gate where
  "demo_gate = gate_init 1 demo_counters demo_lat 0"

text \<open>One request, served.\<close>

definition demo_run :: "gate_event list" where
  "demo_run = [Arrive ''abc'' False, Sub 0 (Go 0), Sub 0 (Go 0), Sub 0 (Go 0),
     Wrk 0 0, Wrk 0 0, Wrk 0 8000000, Wrk 0 0, Wrk 0 0, Wrk 0 0, Wrk 0 0, Sub 0 GotResult]"

lemma demo_rng_length: "length (fst (read64 demo_rng g)) = 64"
  by (simp add: demo_rng_def)

lemma demo_kernels_ok: "kernels_ok (portable_kernels '''' (\<lambda>s. s \<le> 5000))"
  by (rule portable_kernels_ok)

lemma demo_runs:
  "run_events k bp es demo_gate = Some g \<Longrightarrow> gate_runs k bp (gate_init 1 demo_counters demo_lat 0) es g"
  by (simp add: gate_runs_iff demo_gate_def)

lemmas demo_simps = demo_gate_def demo_counters_def demo_lat_def gate_init_def set_sub_def set_wrk_def
  front_door_def stack_push_def new_waiter_def notify_def riskStackBackstop_def choose_lanes_def
  portable_kernels_def default_kernels_def take_step_def riskTakeWork_def take_loop.simps
  waiter_fate_def pop_top_def set_taken_def charge_def after_run_def dispatch_def seed_of_def
  set_waiter_def receive_def Let_def

lemma demo_run_served:
  "\<exists>g. gate_runs (portable_kernels '''' (\<lambda>s. s \<le> 5000)) 88 demo_gate demo_run g \<and> length (subs g) = 1 \<and>
     subs g ! 0 = SReturn (Some (fst (riskChain (portable_kernels '''' (\<lambda>s. s \<le> 5000)) ''abc'')))"
  by (simp add: gate_runs_iff demo_run_def) (simp add: demo_simps)

text \<open>A run of the service: a request to \<open>/risk\<close> whose client leaves, and one to \<open>/health\<close>.\<close>

definition demo_health :: request where
  "demo_health = \<lparr>Method = ''GET'', Path = ''/health'', RawQuery = [], Body = []\<rparr>"

definition demo_risk :: request where
  "demo_risk = \<lparr>Method = ''GET'', Path = ''/risk'', RawQuery = ''seed=abc'', Body = []\<rparr>"

definition demo_app :: "int app" where
  "demo_app = (init_app int_float)\<lparr>resp_counters := \<lparr>respOK = 0, respErr = 0\<rparr>\<rparr>"

definition demo_service_run :: "service_event list" where
  "demo_service_run = [RiskRequest demo_risk False, Request demo_health, Step (Sub 0 (Go 0)), Step (Cancel 0),
     Step (Sub 0 (Go 0)), Step (Sub 0 (Go 0)), Step (Sub 0 GotDone), Step (Sub 0 (Go 0)), Step (Sub 0 (Go 0)),
     RiskReply 0]"

text \<open>500 counted responses and one in flight, then two requests to \<open>/risk\<close> while the only worker is busy.\<close>

definition demo_shed_run :: "service_event list" where
  "demo_shed_run = healths 500 demo_health @
     [Request demo_health, RiskRequest demo_risk False, RiskRequest demo_risk False, Step (Sub 0 (Go 500))]"

lemma demo_risk_seed: "Path demo_risk = ''/risk''" "risk_seed demo_risk = ''abc''"
proof -
  have "query_get ''seed=abc'' ''seed'' = ''abc''"
    using query_pair_plain [of "''seed''" "''abc''"] by (simp add: query_get_def parse_query_single)
  then show "risk_seed demo_risk = ''abc''" "Path demo_risk = ''/risk''"
    by (simp_all add: risk_seed_def demo_risk_def)
qed

lemma demo_finite: "starter_series int_float symb = Some xs \<Longrightarrow> stats_finite int_float xs"
  by (simp add: stats_finite_def int_float_def split: prod.split)

section \<open>The chains\<close>

text \<open>C1. Whatever the processor, the environment variables and the measured durations, if the assembly
  routines compute what their declarations say, every chain the program can run after boot returns the
  starter's digest of each of its seeds, and none panics: the serial chain, the pair chain, the
  4-lane kernel, and the 16-lane batch for any pooled state and up to 16 seeds.\<close>

theorem booted_chains_correct:
  fixes r :: "'g rng"
  assumes "asm_contract asm" "\<forall>g. length (fst (read64 r g)) = 64" "x16_inv x"
    and k: "k = fst (boot_kernels F env stride asm r t x l)"
  shows "fst (riskChain k s0) = naiveRiskChain s0 \<and>
    (riskSumPair k \<noteq> None \<longrightarrow>
       map_option fst (riskChainPair k s0 s1) = Some (naiveRiskChain s0, naiveRiskChain s1)) \<and>
    (\<forall>f. riskChainQuad k = Some f \<longrightarrow>
       f s0 s1 s2 s3 = (naiveRiskChain s0, naiveRiskChain s1, naiveRiskChain s2, naiveRiskChain s3)) \<and>
    (\<forall>f. riskChainX16 k = Some f \<longrightarrow>
       (\<forall>seeds. length seeds \<le> 16 \<longrightarrow> f seeds = Some (map naiveRiskChain seeds)))"
proof -
  have "kernels_ok k" using assms boot_kernels_ok by blast
  then show ?thesis
    by (auto simp: kernels_ok_def riskChain_naive riskChainPair_naive quad_ok_def x16_ok_def)
qed

lemma booted_chains_correct_witness:
  "fst (riskChain (fst (boot_kernels demo_real demo_env '''' ref_asm demo_rng demo_times x16New demo_lat)) ''abc'') =
     naiveRiskChain ''abc''"
  using booted_chains_correct [of ref_asm demo_rng x16New, OF ref_asm_contract _ x16_inv_New refl]
    demo_rng_length by blast

section \<open>The admission gate\<close>

text \<open>C2. In every interleaving of requests, workers, disconnects, timers and counted responses, a request
  that is answered is answered with the starter's digest of its own seed: the seed that arrived with
  the request of the same number.\<close>

theorem answers_are_digests:
  assumes "kernels_ok k" "gate_runs k bp (gate_init slots c l time) es g"
    and "i < length (subs g)" "subs g ! i = SReturn (Some h)"
  shows "h = naiveRiskChain (arrivals es ! i)"
  using batch_kernels.answers [OF kernels_ok_batch [OF assms(1)] assms(2-4)] .

lemma answers_are_digests_witness:
  "\<exists>g. gate_runs (portable_kernels '''' (\<lambda>s. s \<le> 5000)) 88 demo_gate demo_run g \<and>
     subs g ! 0 = SReturn (Some (naiveRiskChain ''abc''))"
proof -
  obtain g where g: "gate_runs (portable_kernels '''' (\<lambda>s. s \<le> 5000)) 88 demo_gate demo_run g"
      "length (subs g) = 1"
      "subs g ! 0 = SReturn (Some (fst (riskChain (portable_kernels '''' (\<lambda>s. s \<le> 5000)) ''abc'')))"
    using demo_run_served by blast
  from answers_are_digests [OF demo_kernels_ok g(1) [unfolded demo_gate_def], of 0] g
  show ?thesis by (auto simp: demo_run_def)
qed

text \<open>C3. A waiter that a worker has taken is owed a digest by exactly one worker until the digest is in
  the waiter's channel; a waiter that is not taken, or already has its digest, is owed by none. So no
  waiter is dropped by a worker, and none is computed or answered twice.\<close>

theorem taken_waiters_are_owed_once:
  assumes "kernels_ok k" "gate_runs k bp (gate_init slots c l time) es g" "heap g a = Some w"
  shows "owners g a = (if wtaken w \<and> wresult w = None \<and> \<not> served (subs g ! a) then 1 else 0)"
proof -
  have "gate_inv naiveRiskChain g"
    by (rule batch_kernels.runs_inv [OF kernels_ok_batch [OF assms(1)] assms(2) gate_init_inv])
  from gate_invD(2) [OF this, of a] assms(3) show ?thesis
    by (cases "pc_at g a") (auto simp: pc_at_def split: if_splits)
qed

lemma taken_waiters_are_owed_once_witness:
  "\<exists>g w. run_events (portable_kernels '''' (\<lambda>s. s \<le> 5000)) 88 (take 6 demo_run) demo_gate = Some g \<and>
     heap g 0 = Some w \<and> wtaken w \<and> owners g 0 = 1"
proof -
  have "\<exists>g w. run_events (portable_kernels '''' (\<lambda>s. s \<le> 5000)) 88 (take 6 demo_run) demo_gate = Some g \<and>
      heap g 0 = Some w \<and> wtaken w \<and> wresult w = None \<and> \<not> served (subs g ! 0)"
    by (simp add: demo_run_def) (simp add: demo_simps)
  then obtain g w where
    g: "run_events (portable_kernels '''' (\<lambda>s. s \<le> 5000)) 88 (take 6 demo_run) demo_gate = Some g"
    and w: "heap g 0 = Some w" "wtaken w" "wresult w = None" "\<not> served (subs g ! 0)" by blast
  have "owners g 0 = 1"
    using taken_waiters_are_owed_once [OF demo_kernels_ok demo_runs [OF g] w(1)] w by simp
  with g w show ?thesis by blast
qed

text \<open>C4. No wake-up is lost: while a waiter is parked, a wake token is pending, a submitter is about to
  send one, or some worker will look at the stack before it sleeps. The wake channel never holds
  more than its 16 places, and \<open>riskIdleWorkers\<close> is the number of workers at the receive.\<close>

theorem no_lost_wakeup:
  assumes "kernels_ok k" "gate_runs k bp (gate_init slots c l time) es g"
  shows "(riskStackTop g \<noteq> None \<longrightarrow>
       0 < riskWork g \<or> SNotify \<in> set (subs g) \<or> (\<exists>pc \<in> set (workers g). awake pc)) \<and>
    riskWork g \<le> 16 \<and> riskIdleWorkers g = idle_count g"
  using batch_kernels.runs_wake [OF kernels_ok_batch [OF assms(1)] assms(2)]
  by (simp add: wake_inv_def)

lemma no_lost_wakeup_witness:
  "\<exists>g. run_events (portable_kernels '''' (\<lambda>s. s \<le> 5000)) 88 [Wrk 0 0, Wrk 0 0, Wrk 0 0, Arrive ''x'' False, Sub 0 (Go 0)]
       demo_gate = Some g \<and> riskStackTop g \<noteq> None \<and> \<not> (\<exists>pc \<in> set (workers g). awake pc) \<and>
     (0 < riskWork g \<or> SNotify \<in> set (subs g))"
proof -
  have "\<exists>g. run_events (portable_kernels '''' (\<lambda>s. s \<le> 5000)) 88
      [Wrk 0 0, Wrk 0 0, Wrk 0 0, Arrive ''x'' False, Sub 0 (Go 0)] demo_gate = Some g \<and>
      riskStackTop g \<noteq> None \<and> \<not> (\<exists>pc \<in> set (workers g). awake pc)"
    by (simp add: demo_simps)
  then obtain g where
    g: "run_events (portable_kernels '''' (\<lambda>s. s \<le> 5000)) 88
      [Wrk 0 0, Wrk 0 0, Wrk 0 0, Arrive ''x'' False, Sub 0 (Go 0)] demo_gate = Some g"
    and w: "riskStackTop g \<noteq> None" "\<not> (\<exists>pc \<in> set (workers g). awake pc)" by blast
  from no_lost_wakeup [OF demo_kernels_ok demo_runs [OF g]] g w show ?thesis by blast
qed

text \<open>C5. The stack is a well-formed list of distinct waiters, never longer than the backstop of 2048,
  \<open>riskStackDepth\<close> is its length, and every waiter on it is still untaken.\<close>

theorem stack_well_formed:
  assumes "kernels_ok k" "gate_runs k bp (gate_init slots c l time) es g"
  shows "\<exists>xs. rep g xs \<and> distinct xs \<and> length xs \<le> 2048 \<and> riskStackDepth g = int (length xs) \<and>
    (\<forall>a \<in> set xs. \<exists>w. heap g a = Some w \<and> \<not> wtaken w)"
proof -
  have "gate_inv naiveRiskChain g"
    by (rule batch_kernels.runs_inv [OF kernels_ok_batch [OF assms(1)] assms(2) gate_init_inv])
  then obtain xs where "stack_ok g xs" using gate_invD(1) by blast
  then show ?thesis
    by (intro exI [of _ xs]) (auto simp: stack_ok_def riskStackBackstop_def rep_def dest: linked_distinct)
qed

lemma stack_well_formed_witness:
  "\<exists>g. run_events (portable_kernels '''' (\<lambda>s. s \<le> 5000)) 88
      [Arrive ''x'' False, Arrive ''y'' False, Sub 1 (Go 0), Sub 0 (Go 0)] demo_gate = Some g \<and>
     riskStackDepth g = 2 \<and> rep g [0, 1] \<and>
     (\<exists>xs. rep g xs \<and> distinct xs \<and> length xs \<le> 2048 \<and> riskStackDepth g = int (length xs) \<and>
        (\<forall>a \<in> set xs. \<exists>w. heap g a = Some w \<and> \<not> wtaken w))"
proof -
  have "\<exists>g. run_events (portable_kernels '''' (\<lambda>s. s \<le> 5000)) 88
      [Arrive ''x'' False, Arrive ''y'' False, Sub 1 (Go 0), Sub 0 (Go 0)] demo_gate = Some g \<and>
      riskStackDepth g = 2 \<and> rep g [0, 1]"
    by (simp add: demo_simps shed_admit_def rep_def)
  then obtain g where
    g: "run_events (portable_kernels '''' (\<lambda>s. s \<le> 5000)) 88
      [Arrive ''x'' False, Arrive ''y'' False, Sub 1 (Go 0), Sub 0 (Go 0)] demo_gate = Some g"
    and w: "riskStackDepth g = 2" "rep g [0, 1]" by blast
  from stack_well_formed [OF demo_kernels_ok demo_runs [OF g]] g w show ?thesis by blast
qed

text \<open>C6. No worker panics, and the only place a worker can block is the receive on the empty wake
  channel; in particular the send of a digest never blocks and a take always returns.\<close>

theorem workers_block_only_when_idle:
  assumes "kernels_ok k" "gate_runs k bp (gate_init slots c l time) es g" "j < length (workers g)"
  shows "workers g ! j \<noteq> WDead \<and>
    (gate_exec k bp (Wrk j d) g = None \<longrightarrow> workers g ! j = WRecv \<and> riskWork g = 0)"
proof -
  have inv: "gate_inv naiveRiskChain g"
    by (rule batch_kernels.runs_inv [OF kernels_ok_batch [OF assms(1)] assms(2) gate_init_inv])
  have "workers g ! j \<noteq> WDead" using gate_invD(3) [OF inv assms(3)] by auto
  with batch_kernels.worker_blocks [OF kernels_ok_batch [OF assms(1)] inv assms(3)] assms(3)
  show ?thesis by simp
qed

lemma workers_block_only_when_idle_witness:
  "\<exists>g. run_events (portable_kernels '''' (\<lambda>s. s \<le> 5000)) 88 [Wrk 0 0, Wrk 0 0, Wrk 0 0] demo_gate = Some g \<and>
     gate_exec (portable_kernels '''' (\<lambda>s. s \<le> 5000)) 88 (Wrk 0 0) g = None \<and> riskWork g = 0"
proof -
  have "\<exists>g. run_events (portable_kernels '''' (\<lambda>s. s \<le> 5000)) 88 [Wrk 0 0, Wrk 0 0, Wrk 0 0] demo_gate = Some g \<and>
      length (workers g) = 1 \<and> gate_exec (portable_kernels '''' (\<lambda>s. s \<le> 5000)) 88 (Wrk 0 0) g = None"
    by (simp add: demo_simps)
  then obtain g where
    g: "run_events (portable_kernels '''' (\<lambda>s. s \<le> 5000)) 88 [Wrk 0 0, Wrk 0 0, Wrk 0 0] demo_gate = Some g"
    and w: "length (workers g) = 1" "gate_exec (portable_kernels '''' (\<lambda>s. s \<le> 5000)) 88 (Wrk 0 0) g = None"
    by blast
  from workers_block_only_when_idle [OF demo_kernels_ok demo_runs [OF g], of 0 0] g w
  show ?thesis by auto
qed

text \<open>C7. A worker with waiters in hand can always take its next step, and every such step brings it closer to the
  top of its loop, where it holds nothing: it delivers all its digests within \<open>work_left\<close> of its own
  steps, at most 98 from the take.\<close>

theorem worker_delivers:
  assumes "kernels_ok k" "gate_runs k bp (gate_init slots c l time) es g" "j < length (workers g)"
    and "0 < work_left (workers g ! j)"
  shows "\<exists>g'. gate_exec k bp (Wrk j d) g = Some g' \<and>
    work_left (workers g' ! j) < work_left (workers g ! j) \<and>
    (\<forall>ids. workers g ! j = WWork ids \<longrightarrow> work_left (workers g ! j) \<le> 98)"
proof -
  have inv: "gate_inv naiveRiskChain g"
    by (rule batch_kernels.runs_inv [OF kernels_ok_batch [OF assms(1)] assms(2) gate_init_inv])
  obtain g' where "wrk_step k j d (workers g ! j) g = Some g'"
      "work_left (workers g' ! j) < work_left (workers g ! j)"
    by (rule batch_kernels.busy_worker_steps [OF kernels_ok_batch [OF assms(1)] inv assms(3,4)])
  then show ?thesis using assms(3) gate_invD(3) [OF inv assms(3)] by auto
qed

lemma worker_delivers_witness:
  "\<exists>g g'. run_events (portable_kernels '''' (\<lambda>s. s \<le> 5000)) 88 (take 6 demo_run) demo_gate = Some g \<and>
     workers g ! 0 = WWork [0] \<and>
     gate_exec (portable_kernels '''' (\<lambda>s. s \<le> 5000)) 88 (Wrk 0 0) g = Some g' \<and>
     work_left (workers g' ! 0) < 8"
proof -
  have "\<exists>g. run_events (portable_kernels '''' (\<lambda>s. s \<le> 5000)) 88 (take 6 demo_run) demo_gate = Some g \<and>
      workers g = [WWork [0]]"
    by (simp add: demo_run_def) (simp add: demo_simps)
  then obtain g where
    g: "run_events (portable_kernels '''' (\<lambda>s. s \<le> 5000)) 88 (take 6 demo_run) demo_gate = Some g"
    and w: "workers g = [WWork [0]]" by blast
  from worker_delivers [OF demo_kernels_ok demo_runs [OF g], of 0 0] g w show ?thesis by auto
qed

text \<open>C8. The error accounts balance: \<open>respErr\<close> is its initial value, plus one for every request refused or
  holding a reservation, plus the stale waiters passed by \<open>riskTakeWork\<close> and the error responses
  counted by \<open>writeJSON\<close>. So every refused request has been charged exactly once, and a served one not
  at all.\<close>

theorem refusals_are_charged_once:
  assumes "kernels_ok k" "run_events k bp es (gate_init slots c l time) = Some g"
  shows "respErr (cnt g) =
    respErr c + charges g + extra_charges k bp es (gate_init slots c l time) \<and>
    refusals g \<le> charges g \<and> 0 \<le> extra_charges k bp es (gate_init slots c l time)"
proof -
  have "charges (gate_init slots c l time) = 0" "cnt (gate_init slots c l time) = c"
    by (simp_all add: charges_def gate_init_def)
  then show ?thesis
    using batch_kernels.run_charges [OF kernels_ok_batch [OF assms(1)] assms(2) gate_init_inv]
      refusals_le_charges extra_charges_nonneg by auto
qed

text \<open>Two requests while the only worker is busy: the first is parked, the second is shed at the front door.\<close>

definition demo_shed :: "gate_event list" where
  "demo_shed = [Arrive ''x'' False, Arrive ''y'' False, Sub 0 (Go 1000), Sub 1 (Go 1000)]"

lemma refusals_are_charged_once_witness:
  "\<exists>g. run_events (portable_kernels '''' (\<lambda>s. s \<le> 5000)) 88 demo_shed demo_gate = Some g \<and>
     respErr (cnt g) = 1 \<and> refusals g \<le> 1"
proof -
  have "\<exists>g. run_events (portable_kernels '''' (\<lambda>s. s \<le> 5000)) 88 demo_shed demo_gate = Some g \<and>
      respErr (cnt g) = 1"
    by (simp add: demo_shed_def) (simp add: demo_simps shed_admit_def)
  then obtain g where
    g: "run_events (portable_kernels '''' (\<lambda>s. s \<le> 5000)) 88 demo_shed demo_gate = Some g"
    and w: "respErr (cnt g) = 1" by blast
  from refusals_are_charged_once [OF demo_kernels_ok g [unfolded demo_gate_def]] g w
  show ?thesis by (auto simp: demo_counters_def)
qed

text \<open>C9. Whenever a request goroutine is granted a reservation, at the front door or when its timer
  fires, exactly one error is charged and the errors are within the budget of the responses counted
  at that moment.\<close>

theorem grants_are_within_budget:
  assumes "gate_exec k (initShedBudget gate budget) (Sub i ch) g = Some g'"
    and "(\<exists>seed ctx. subs g ! i = SEnter seed ctx) \<or> (\<exists>t. subs g ! i = SWait t)"
    and "respErr (cnt g') \<noteq> respErr (cnt g)"
  shows "respErr (cnt g') = respErr (cnt g) + 1 \<and>
    respErr (cnt g') * 10000 \<le> (respOK (cnt g') + respErr (cnt g')) * initShedBudget gate budget"
  using grant_within_budget [OF assms] unfolding shed.within_def .

lemma grants_are_within_budget_witness:
  "\<exists>g g'. run_events (portable_kernels '''' (\<lambda>s. s \<le> 5000)) 88 (take 3 demo_shed) demo_gate = Some g \<and>
     gate_exec (portable_kernels '''' (\<lambda>s. s \<le> 5000)) (initShedBudget '''' '''') (Sub 1 (Go 1000)) g = Some g' \<and>
     respErr (cnt g') = respErr (cnt g) + 1"
proof -
  have bp: "initShedBudget '''' '''' = 88"
    by (simp add: initShedBudget_def gateBP_def sdiv_pos)
  have "\<exists>g. run_events (portable_kernels '''' (\<lambda>s. s \<le> 5000)) 88 (take 3 demo_shed) demo_gate = Some g \<and>
      subs g = [SNotify, SEnter ''y'' False] \<and> riskStackDepth g = 1 \<and> riskIdleWorkers g = 0 \<and>
      cnt g = demo_counters"
    by (simp add: demo_shed_def) (simp add: demo_simps)
  then obtain g where
    g: "run_events (portable_kernels '''' (\<lambda>s. s \<le> 5000)) 88 (take 3 demo_shed) demo_gate = Some g"
    and w: "subs g = [SNotify, SEnter ''y'' False]" "riskStackDepth g = 1" "riskIdleWorkers g = 0"
      "cnt g = demo_counters" by blast
  let ?g = "set_sub 1 (SReturn None) (charge 1 g)"
  have "gate_exec (portable_kernels '''' (\<lambda>s. s \<le> 5000)) (initShedBudget '''' '''') (Sub 1 (Go 1000)) g =
      Some ?g"
    unfolding bp using w by (simp add: front_door_def riskStackBackstop_def demo_counters_def shed_admit_def)
  moreover have "respErr (cnt ?g) \<noteq> respErr (cnt g)" by simp
  moreover have "subs g ! 1 = SEnter ''y'' False" using w by simp
  ultimately show ?thesis using grants_are_within_budget [of _ _ _ 1] g by blast
qed

text \<open>C10. The latency estimate stays between 1 ms and 500 ms and the patience window between 700 ms and
  1199 ms, although workers update them with a load and two separate stores and may overwrite each
  other's updates.\<close>

theorem patience_stays_in_range:
  assumes "kernels_ok k" "gate_runs k bp (gate_init slots c l time) es g"
    and "cost_ok (riskChainEWMANs l)" "window_ok (riskPatienceNs l)"
  shows "millisecond \<le> riskChainEWMANs (lat g) \<and> riskChainEWMANs (lat g) \<le> 500 * millisecond \<and>
    700 * millisecond \<le> riskPatienceNs (lat g) \<and> riskPatienceNs (lat g) \<le> 1199 * millisecond"
  using batch_kernels.runs_lat [OF kernels_ok_batch [OF assms(1)] assms(2) gate_init_inv gate_init_lat]
    assms(3,4) by (simp add: lat_inv_def cost_ok_def window_ok_def)

lemma patience_stays_in_range_witness:
  "\<exists>g. gate_runs (portable_kernels '''' (\<lambda>s. s \<le> 5000)) 88 demo_gate demo_run g \<and>
     riskPatienceNs (lat g) \<le> 1199 * millisecond"
proof -
  obtain g where g: "gate_runs (portable_kernels '''' (\<lambda>s. s \<le> 5000)) 88 demo_gate demo_run g"
    using demo_run_served by blast
  have "cost_ok (riskChainEWMANs demo_lat)" "window_ok (riskPatienceNs demo_lat)"
    by (simp_all add: demo_lat_def cost_ok_def window_ok_def millisecond_def)
  from patience_stays_in_range [OF demo_kernels_ok g [unfolded demo_gate_def] this] g
  show ?thesis by blast
qed

section \<open>The stack\<close>

text \<open>C11. On every well-formed stack \<open>riskTakeWork\<close> returns, and does one scan of the list from the
  top: it returns the first \<open>n\<close> live waiters in order, passes dead ones, charges one error per stale
  one passed, leaves the rest of the stack as it is, and marks exactly the returned waiters taken.\<close>

theorem riskTakeWork_refines_scan:
  assumes "rep s xs" "scan (heap_fate time stale s) n xs = (t, rest, c)"
  shows "\<exists>s'. riskTakeWork time stale n s = Some (s', t, c) \<and> rep s' rest \<and>
    heap s' = mark_taken (set t) (heap s)"
  using riskTakeWork_scan [OF assms] by blast

definition demo_stack :: "wstack" where
  "demo_stack = \<lparr>heap = [0 \<mapsto> new_waiter ''a'' False 5 None, 1 \<mapsto> new_waiter ''b'' True 9 (Some 0),
      2 \<mapsto> new_waiter ''c'' False 1 (Some 1), 3 \<mapsto> new_waiter ''d'' False 9 (Some 2)],
    riskStackTop = Some 3, riskStackDepth = 4\<rparr>"

lemma demo_stack_rep: "rep demo_stack [3, 2, 1, 0]"
  by (simp add: rep_def demo_stack_def new_waiter_def)

lemma riskTakeWork_refines_scan_witness:
  "\<exists>s'. riskTakeWork 10 8 2 demo_stack = Some (s', [3, 0], 1) \<and> rep s' []"
proof -
  have "scan (heap_fate 10 8 demo_stack) 2 [3, 2, 1, 0] = ([3, 0], [], 1)"
    by (simp add: numeral_2_eq_2 heap_fate_def demo_stack_def new_waiter_def waiter_fate_def)
  from riskTakeWork_refines_scan [OF demo_stack_rep this] show ?thesis by blast
qed

text \<open>C12. Only serviceable waiters are taken: whoever \<open>riskTakeWork\<close> returns has not been abandoned, its
  request has not ended, and it is no older than the patience window; and at most \<open>n\<close> are returned.\<close>

theorem riskTakeWork_serves_live:
  assumes "rep s xs" "riskTakeWork time stale n s = Some (s', t, c)"
  shows "length t \<le> n \<and> (\<forall>a \<in> set t. \<exists>w. heap s a = Some w \<and> \<not> wabandoned w \<and> \<not> wctx_done w \<and>
    time - wenqueued w \<le> stale)"
proof -
  obtain t' rest c' where sc: "scan (heap_fate time stale s) n xs = (t', rest, c')" by (rule prod_cases3)
  then have "t = t'" using riskTakeWork_scan [OF assms(1) sc] assms(2) by auto
  moreover obtain p where "t' = filter (\<lambda>a. heap_fate time stale s a = Live) p"
    using lifo.scan_prefix [OF sc] by blast
  ultimately show ?thesis
    using lifo.scan_bound [OF sc]
    by (auto simp: heap_fate_def waiter_fate_def split: option.splits if_splits)
qed

lemma riskTakeWork_serves_live_witness:
  "\<exists>s' t c. riskTakeWork 10 8 1 demo_stack = Some (s', t, c) \<and> length t \<le> 1"
proof -
  obtain s' t c where take: "riskTakeWork 10 8 1 demo_stack = Some (s', t, c)"
    using lifo.take_returns [OF demo_stack_rep] by blast
  with riskTakeWork_serves_live [OF demo_stack_rep take] show ?thesis by blast
qed

text \<open>C13. Adaptive LIFO: a request whose context is alive is, right after its push and within the
  patience window, the first waiter the next take returns, whatever waits below it.\<close>

theorem freshest_first:
  assumes "rep s xs" "a \<notin> set xs" "time - born \<le> stale"
  shows "\<exists>s' t c. riskTakeWork time stale (Suc n) (stack_push a seed False born s) = Some (s', a # t, c)"
proof (rule lifo.newest_first [OF assms(1,2)])
  show "heap_fate time stale (stack_push a seed False born s) a = Live"
    using assms(3) by (simp add: heap_fate_def stack_push_def new_waiter_def waiter_fate_def)
qed

lemma freshest_first_witness:
  "\<exists>s' t c. riskTakeWork 12 8 1 (stack_push 4 ''e'' False 11 demo_stack) = Some (s', 4 # t, c)"
  using freshest_first [OF demo_stack_rep, of 4 12 11 8 0 "''e''"] by simp

section \<open>The error budget\<close>

text \<open>C14. However goroutines interleave inside \<open>shedReserveError\<close> with each other and with counted
  successes, the errors never leave the budget: the compare-and-swap makes check and charge one step, so a burst of
  callers cannot overshoot.\<close>

theorem interleaved_sheds_keep_budget:
  assumes "bp = initShedBudget gate budget"
    and "respErr c * 10000 \<le> (respOK c + respErr c) * bp" and "errors_counted es = 0"
    and "gov_run bp es (replicate n LoadOK, c) = (pcs, c')"
  shows "respErr c' * 10000 \<le> (respOK c' + respErr c') * bp"
  using gov_run_within [OF assms(1), of "(replicate n LoadOK, c)" es] assms(2-4)
  unfolding assms(1) shed.within_def by (simp add: pc_ok_def)

text \<open>Two callers race for the last error the budget allows; one is granted.\<close>

definition demo_race :: "gov_event list" where
  "demo_race = [Shed 0, Shed 1, Shed 0, Shed 1, Shed 1, Shed 0, Shed 0]"

lemma demo_race_run:
  "gov_run 88 demo_race (replicate 2 LoadOK, \<lparr>respOK = 500, respErr = 3\<rparr>) =
     ([Returned False, Returned True], \<lparr>respOK = 500, respErr = 4\<rparr>)"
  by (simp add: gov_run_def demo_race_def shed_admit_def numeral_2_eq_2)

lemma interleaved_sheds_keep_budget_witness:
  "respErr \<lparr>respOK = 500, respErr = 4\<rparr> * 10000 \<le> (500 + 4) * initShedBudget '''' ''''"
proof -
  have bp: "88 = initShedBudget '''' ''''" by (simp add: initShedBudget_def gateBP_def sdiv_pos)
  from interleaved_sheds_keep_budget [OF bp, of "\<lparr>respOK = 500, respErr = 3\<rparr>", OF _ _ demo_race_run]
  show ?thesis unfolding bp [symmetric] by (simp add: demo_race_def)
qed

text \<open>C15. Under any interleaving every granted call has charged exactly one error and a refused or
  unfinished one none: \<open>respErr\<close> grows by the grants and the separately counted errors, nothing else.\<close>

theorem sheds_charge_once:
  "respErr (snd (gov_run bp es (replicate n LoadOK, c))) =
     respErr c + granted (fst (gov_run bp es (replicate n LoadOK, c))) + errors_counted es"
  using gov_run_charge [of bp es "(replicate n LoadOK, c)"]
  by (simp add: granted_def sum_list_replicate)

text \<open>C16. The counters and the clients' view, exactly, in every run of the service (handlers, gate and disconnects
  interleaved, each response written in one step and counted in a later one). \<open>respOK\<close> is the number of responses below
  400 that were sent, less those in flight between the write and the count; \<open>respErr\<close> is the number of error responses that
  were sent, less those in flight, plus the charges of \<open>/risk\<close> requests not yet answered and those of stale waiters passed
  over. The 503 of \<open>/risk\<close> is never in flight: it is charged before it is sent, and not counted again. So with nothing in
  flight the share of errors the program sees is never below the share its clients see.\<close>

theorem service_counts_every_response:
  assumes "kernels_ok k" and s0: "s0 = service_init slots a l time"
    and "service_run F k bp es s0 = Some s" "resp_counters a = \<lparr>respOK = 0, respErr = 0\<rparr>"
  shows "respOK (cnt (gate_of s)) = good_responses s - in_flight_good s \<and>
    respErr (cnt (gate_of s)) = error_responses s - in_flight_errors s + (charges (gate_of s) - refused s) +
      run_total F k bp stale_charge es s0 \<and>
    0 \<le> charges (gate_of s) - refused s \<and> 0 \<le> run_total F k bp stale_charge es s0 \<and>
    (\<forall>(q, d) \<in> set (uncounted s). Path q = ''/risk'' \<longrightarrow> respErr d = 0) \<and>
    (uncounted s = [] \<longrightarrow> error_responses s * (respOK (cnt (gate_of s)) + respErr (cnt (gate_of s))) \<le>
      respErr (cnt (gate_of s)) * int (length (responses s)))"
proof -
  note acc = batch_kernels.service_accounts [OF kernels_ok_batch [OF assms(1)] assms(3) [unfolded s0], folded s0]
  have stale: "0 \<le> run_total F k bp stale_charge es s0"
    by (rule run_total_nonneg) (rule step_charge_nonneg)
  have "\<forall>(q, d) \<in> set (uncounted s). Path q = ''/risk'' \<longrightarrow> respErr d = 0"
    using acc by (auto simp: uncounted_ok_def)
  moreover have "error_responses s * (respOK (cnt (gate_of s)) + respErr (cnt (gate_of s))) \<le>
      respErr (cnt (gate_of s)) * int (length (responses s))" if "uncounted s = []"
    using that acc stale assms(4) error_share [of "error_responses s" "respErr (cnt (gate_of s))" "good_responses s"]
      response_count [of s]
    by (simp add: accounts_ok_def in_flight_good_def in_flight_errors_def)
  ultimately show ?thesis using acc stale assms(4) by (simp add: accounts_ok_def)
qed

lemma service_counts_every_response_witness:
  "\<exists>s. service_run int_float (portable_kernels [] (\<lambda>s. s \<le> 5000)) 88 demo_service_run
      (service_init 1 demo_app demo_lat 0) = Some s \<and> length (responses s) = 2 \<and>
    uncounted s = [(demo_health, counted 200)] \<and> respOK (cnt (gate_of s)) = good_responses s - 1"
proof -
  let ?k = "portable_kernels [] (\<lambda>s. s \<le> 5000)" and ?s0 = "service_init 1 demo_app demo_lat 0"
  have "\<exists>s. service_run int_float ?k 88 demo_service_run ?s0 = Some s \<and> length (responses s) = 2 \<and>
      uncounted s = [(demo_health, counted 200)]"
    by (simp add: demo_service_run_def demo_risk_def demo_health_def respond_health respond_risk service_init_def
        demo_app_def demo_simps cancel_def leave_wait_def)
  then obtain s where s: "service_run int_float ?k 88 demo_service_run ?s0 = Some s" "length (responses s) = 2"
      "uncounted s = [(demo_health, counted 200)]" by blast
  have "resp_counters demo_app = \<lparr>respOK = 0, respErr = 0\<rparr>" by (simp add: demo_app_def)
  from service_counts_every_response [OF demo_kernels_ok refl s(1) this]
  have "respOK (cnt (gate_of s)) = good_responses s - in_flight_good s" by blast
  moreover have "in_flight_good s = 1" by (simp add: in_flight_good_def s(3))
  ultimately show ?thesis using s by simp
qed


section \<open>The latency estimate\<close>

text \<open>C18. Under a steady chain cost the estimate settles: after finitely many samples it stays within
  7 ns of the cost, from any starting value.\<close>

theorem estimate_settles:
  assumes "millisecond \<le> d" "d \<le> 500 * millisecond"
  shows "\<exists>n. \<forall>m\<ge>n. \<bar>riskChainEWMANs ((observeChainCost d ^^ m) l) - d\<bar> < 8"
  using observe_settles [OF assms] .

lemma estimate_settles_witness:
  "\<exists>n. \<forall>m\<ge>n. \<bar>riskChainEWMANs ((observeChainCost 4000000 ^^ m) demo_lat) - 4000000\<bar> < 8"
  by (rule estimate_settles) (simp_all add: millisecond_def)

text \<open>C19. One sample, however freakish, moves the patience window by at most an eighth of 499 ms, and the
  window always leaves room for the estimated cost and the safety margin within the 1500 ms budget.\<close>

theorem one_sample_is_bounded:
  assumes "ewma_ok l"
  shows "ewma_ok (observeChainCost d l) \<and>
    \<bar>riskPatienceNs (observeChainCost d l) - riskPatienceNs l\<bar> \<le> 499 * millisecond div 8 \<and>
    riskPatienceNs (observeChainCost d l) + riskChainEWMANs (observeChainCost d l) + riskSafetyMargin =
      riskLatencyBudget"
proof -
  have ok: "ewma_ok (observeChainCost d l)" by (rule observe_ok [OF assms])
  then have "riskChainEWMANs (observeChainCost d l) \<le> 1100 * millisecond"
    by (simp add: ewma_ok_def millisecond_def)
  from patience_exact [OF this] ok observe_step [OF assms, of d] show ?thesis by (simp add: ewma_ok_def)
qed

lemma one_sample_is_bounded_witness:
  "\<bar>riskPatienceNs (observeChainCost 90000000000 demo_lat) - 1192000000\<bar> \<le> 499 * millisecond div 8"
proof -
  have "ewma_ok demo_lat" by (simp add: demo_lat_def ewma_ok_def patience_for_def Let_def latency_defs)
  from one_sample_is_bounded [OF this, of 90000000000] show ?thesis by (simp add: demo_lat_def)
qed

text \<open>C20. The calibrated yield stride is the power of two between 256 and 8192 that the doubling loop
  promises, whatever the floating-point arithmetic: the largest one whose every doubling fitted the target; so the mask is
  a low-bit mask. On exact arithmetic the stride is 256 or its slice of an idle chain takes at most a millisecond, and it is
  8192 or the next slice would take longer.\<close>

theorem calibrated_stride:
  fixes F :: "'f float64" and R :: "real float64"
  assumes "exact_float R" "0 < unit_cost ss"
  shows "(\<exists>j. 8 \<le> j \<and> j \<le> 13 \<and> snd (calibrateRisk F ss ds '''' l) = mask j \<and>
       (j = 13 \<or> \<not> stride_fits F (unit_cost ss) (2 ^ Suc j)) \<and>
       (\<forall>i \<in> {9..j}. stride_fits F (unit_cost ss) (2 ^ i))) \<and>
    (\<exists>j. 8 \<le> j \<and> j \<le> 13 \<and> snd (calibrateRisk R ss ds '''' l) = mask j \<and>
       (j = 13 \<or> 50000 * millisecond < 2 ^ Suc j * unit_cost ss) \<and>
       (j = 8 \<or> 2 ^ j * unit_cost ss \<le> 50000 * millisecond))"
proof -
  obtain i where i: "8 \<le> i" "i \<le> 13" "snd (calibrateRisk F ss ds '''' l) = mask i"
      "i < 13 \<longrightarrow> \<not> stride_fits F (unit_cost ss) (2 ^ Suc i)"
      "\<forall>n. 8 < n \<and> n \<le> i \<longrightarrow> stride_fits F (unit_cost ss) (2 ^ n)"
    by (rule calibrated_cases)
  obtain j where j: "8 \<le> j" "j \<le> 13" "snd (calibrateRisk R ss ds '''' l) = mask j"
      "j < 13 \<longrightarrow> \<not> stride_fits R (unit_cost ss) (2 ^ Suc j)"
      "\<forall>n. 8 < n \<and> n \<le> j \<longrightarrow> stride_fits R (unit_cost ss) (2 ^ n)"
    by (rule calibrated_cases)
  have "j = 13 \<or> 50000 * millisecond < 2 ^ Suc j * unit_cost ss"
    using j(2,4) stride_fits_exact [OF assms, of "2 ^ Suc j"] by auto
  moreover have "j = 8 \<or> 2 ^ j * unit_cost ss \<le> 50000 * millisecond"
    using j(1,5) stride_fits_exact [OF assms, of "2 ^ j"] by (cases "j = 8") auto
  moreover have "i = 13 \<or> \<not> stride_fits F (unit_cost ss) (2 ^ Suc i)" "\<forall>n \<in> {9..i}. stride_fits F (unit_cost ss) (2 ^ n)"
    using i(2,4,5) by auto
  ultimately show ?thesis using i(1-3) j(1-3) by blast
qed

lemma calibrated_stride_witness:
  "\<exists>j. 8 \<le> j \<and> j \<le> 13 \<and>
     snd (calibrateRisk int_float [4000000, 4100000, 5000000] [9000000, 8000000] '''' demo_lat) = mask j"
proof -
  have "exact_float demo_real" by (simp add: exact_float_def demo_real_def)
  moreover have "0 < unit_cost [4000000, 4100000, 5000000]" by (simp add: unit_cost_def)
  ultimately show ?thesis using calibrated_stride by blast
qed

section \<open>The chain loops\<close>

text \<open>C21. The chunked loop yields where the per-iteration loop does: for every stride that is a power of
  two, after the same numbers of completed rounds, the very last round excepted.\<close>

theorem yield_cadence_agrees:
  assumes "j < 32"
  shows "snd (chunk_loop itN (mask j + 1) bound 1 b []) =
    map (\<lambda>i. i + 1) (filter (\<lambda>i. i + 1 < bound) (snd (iter_loop it (mask j) bound 1 b' [])))"
  using yields_agree [OF assms] .

lemma yield_cadence_agrees_witness:
  "snd (chunk_loop (\<lambda>b n. b + n) (mask 12 + 1) 50000 1 (0 :: nat) []) =
    map (\<lambda>i. i + 1) (filter (\<lambda>i. i + 1 < 50000) (snd (iter_loop Suc (mask 12) 50000 1 0 [])))"
  by (rule yield_cadence_agrees) simp

text \<open>C22. The packed in-place encoder writes the hexadecimal encoding of the digest over whatever the
  buffer held, and nothing is lost: decoding gives the digest back.\<close>

theorem hexEncode64_roundtrip:
  assumes "length buf = 64" "length dg = 32"
  shows "hexEncode64 buf dg = hex_encode dg \<and> hex_decode (hexEncode64 buf dg) = Some dg \<and>
    set (hexEncode64 buf dg) \<subseteq> set hex_digits"
  using hexEncode64_eq [OF assms] hex_encode_digits by simp

lemma hexEncode64_roundtrip_witness:
  "hex_decode (hexEncode64 (replicate 64 7) (sha256 (bytes_of ''abc''))) = Some (sha256 (bytes_of ''abc''))"
  using hexEncode64_roundtrip [of "replicate 64 7" "sha256 (bytes_of ''abc'')"] by simp

section \<open>The kernels\<close>

text \<open>C23. The program, from boot, is the starter: whatever the host (environment, processor, files, log) and the
  measured durations, under the documented behaviour of the assembly, boot starts between one and four workers, and in
  every run of the service every response to \<open>/health\<close>, \<open>/stats\<close> and \<open>/risk\<close> (with a query without semicolon) has the status
  and, member by member, the JSON object of the starter's response to the same request, except for the 503 of
  \<open>/risk\<close> under overload.\<close>

theorem booted_service_is_the_starter:
  fixes F :: "'f float64" and h :: "'g host"
  assumes "float_contract F" "\<forall>symb xs. starter_series F symb = Some xs \<longrightarrow> stats_finite F xs"
    and "asm_contract (asm_of h)" "\<forall>g. length (fst (read64 (rng_of h) g)) = 64" "x16_inv (x16_pooled h)"
    and boot: "main_boot F h = (k, bp, s0)" and run: "service_run F k bp es s0 = Some s"
  shows "1 \<le> length (workers (gate_of s)) \<and> length (workers (gate_of s)) \<le> 4 \<and>
    (\<forall>(q, code, body) \<in> set (responses s).
       Path q \<in> {''/health'', ''/stats'', ''/risk''} \<longrightarrow> CHR '';'' \<notin> set (RawQuery q) \<longrightarrow>
         Path q = ''/risk'' \<and> code = 503 \<and> body = overloadedBody \<or>
         (\<exists>w. starter_serve F q = Some w \<and> std_code w = Some code \<and> json_object F body \<noteq> None \<and>
            json_object F (std_body w) = json_object F body))"
proof -
  obtain a l slots where k: "k = fst (boot_kernels F (env_of h) (getenv h ''RISK_YIELD_STRIDE'') (asm_of h)
        (rng_of h) (times_of h) (x16_pooled h) init_latency)"
    and s0: "s0 = service_init (nat slots) a l (boot_clock h)" "series a = series (init_app F)"
    and slots: "slots = riskSlots (cgroupCPUBudget (parse_float h) (files_of h)) (getenv h ''RISK_SLOTS'')"
    by (rule main_boot_parts [OF boot])
  have ok: "kernels_ok k" unfolding k using assms(3-5) by (intro boot_kernels_ok) auto
  note run = run [unfolded s0(1)]
  have "1 \<le> slots \<and> slots \<le> 4" by (simp add: slots riskSlots_def Let_def)
  then have "1 \<le> length (workers (gate_of s)) \<and> length (workers (gate_of s)) \<le> 4"
    using service_workers [OF ok run] by auto
  moreover have "contents_ok F s" by (rule service_contents [OF assms(1,2) ok s0(2) run])
  ultimately show ?thesis
    by (auto simp: contents_ok_def fixed_path_def starter_or_shed_def agrees_def)
qed

definition demo_host :: "nat host" where
  "demo_host = \<lparr>getenv = (\<lambda>_. ''''), files_of = Map.empty, parse_float = Map.empty, asm_of = ref_asm,
     rng_of = demo_rng, x16_pooled = x16New, times_of = demo_times, wal_disk = None, wal_faults_of = [],
     boot_clock = 0\<rparr>"

lemma booted_service_is_the_starter_witness:
  "\<exists>k bp s0 s w code body. main_boot int_float demo_host = (k, bp, s0) \<and>
     service_run int_float k bp [Request demo_health] s0 = Some s \<and> responses s = [(demo_health, code, body)] \<and>
     starter_serve int_float demo_health = Some w \<and> json_object int_float (std_body w) = json_object int_float body"
proof -
  obtain k bp s0 where boot: "main_boot int_float demo_host = (k, bp, s0)" by (metis surj_pair)
  then have "responses s0 = []"
    by (auto simp: main_boot_def service_init_def Let_def split: prod.splits)
  then obtain s where s: "service_run int_float k bp [Request demo_health] s0 = Some s"
      "responses s = [(demo_health, 200, healthBody)]"
    by (simp add: demo_health_def respond_health Let_def)
  have "asm_contract (asm_of demo_host)" "\<forall>g. length (fst (read64 (rng_of demo_host) g)) = 64"
      "x16_inv (x16_pooled demo_host)"
    using ref_asm_contract demo_rng_length x16_inv_New by (simp_all add: demo_host_def)
  from booted_service_is_the_starter [OF int_float_contract _ this boot s(1)] demo_finite s(2)
  have "\<exists>w. starter_serve int_float demo_health = Some w \<and>
      json_object int_float (std_body w) = json_object int_float healthBody"
    by (auto simp: demo_health_def)
  with boot s show ?thesis by blast
qed

text \<open>C24. Nothing assumed of the assembly: if the scalar kernel is wrong on any of the 512 sampled blocks,
  boot leaves every kernel variable and flag as it was, and the program runs on the standard library.\<close>

theorem wrong_kernel_is_never_installed:
  assumes "x \<in> set (draws (read64 r) 512 (newSource r 0x0b51d10))"
    and "kernelSum64 asm (shani_gate env) x \<noteq> sha256 x"
  shows "initRiskKernel env asm r default_kernels = default_kernels"
  using broken_kernel_rejected [OF assms] .

lemma wrong_kernel_is_never_installed_witness:
  "initRiskKernel demo_env (ref_asm\<lparr>blockSHANI := \<lambda>d p. [], blockAVX2 := \<lambda>d p. []\<rparr>) demo_rng default_kernels =
     default_kernels"
proof (rule wrong_kernel_is_never_installed)
  let ?x = "fst (read64 demo_rng (newSource demo_rng 0x0b51d10))"
  show "?x \<in> set (draws (read64 demo_rng) 512 (newSource demo_rng 0x0b51d10))"
    by (rule draws_first) simp
  have "sha256 ?x \<noteq> []" using length_sha256 [of ?x] by (intro notI) simp
  then show "kernelSum64 (ref_asm\<lparr>blockSHANI := \<lambda>d p. [], blockAVX2 := \<lambda>d p. []\<rparr>) (shani_gate demo_env) ?x \<noteq>
      sha256 ?x"
    by (simp add: kernelSum64_def digest_bytes_def)
qed

text \<open>C25. Nothing assumed of the assembly: a two-lane kernel in use has agreed with \<open>crypto/sha256\<close> on all
  512 single and 256 paired samples of the self-tests.\<close>

theorem installed_pair_was_tested:
  assumes "riskSumPair (initRiskKernel env asm r default_kernels) = Some f"
  shows "f = kernelSum64Pair asm \<and>
    (\<forall>x \<in> set (draws (read64 r) 512 (newSource r 0x0b51d10)). kernelSum64 asm True x = sha256 x) \<and>
    (\<forall>(a, b) \<in> set (draws (draw2 (read64 r)) 256 (after_sum64 r)). f a b = (sha256 a, sha256 b))"
proof -
  have "riskSumPair (initRiskKernel env asm r default_kernels) \<noteq> None" using assms by simp
  from installed_pair_tested [OF this] assms show ?thesis
    by (auto simp: list_all_iff sum64_case_def pair_case_def)
qed

lemma demo_shani: "shani_gate demo_env"
  by code_simp

lemma installed_pair_was_tested_witness:
  "\<exists>f. riskSumPair (initRiskKernel demo_env ref_asm demo_rng default_kernels) = Some f \<and>
     f = kernelSum64Pair ref_asm"
proof -
  have "asm_ok ref_asm" using ref_asm_contract by (simp add: asm_contract_def)
  then have "riskSumPair (initRiskKernel demo_env ref_asm demo_rng default_kernels) =
      Some (kernelSum64Pair ref_asm)"
    by (rule initRiskKernel_installs(1) [OF _ demo_rng_length demo_shani]) (simp add: demo_env_def)
  with installed_pair_was_tested [OF this] show ?thesis by blast
qed

text \<open>C26. Correct assembly is used: on a processor with the SHA extensions, unless switched off, boot
  installs the two-lane, the fused and the single-lane kernel, and the counted ones when asked to.\<close>

theorem correct_kernels_are_installed:
  fixes r :: "'g rng"
  assumes "asm_ok asm" "\<forall>g. length (fst (read64 r g)) = 64"
    and "shani_gate env" "env_KERNEL env \<noteq> ''off''" and k: "k = initRiskKernel env asm r default_kernels"
  shows "riskSumPair k = Some (kernelSum64Pair asm) \<and> riskPairIter k = Some (pairHashHex asm) \<and>
    riskIter1 k = Some (hashHex1 asm) \<and>
    riskPairIterN k = (if env_KERNEL_V3 env = ''on'' then Some (pairHashHexN asm) else None)"
  unfolding k using initRiskKernel_installs [OF assms(1) _ assms(3,4), of r] assms(2) by blast

lemma correct_kernels_are_installed_witness:
  "riskPairIterN (initRiskKernel demo_env ref_asm demo_rng default_kernels) = Some (pairHashHexN ref_asm)"
proof -
  have "asm_ok ref_asm" using ref_asm_contract by (simp add: asm_contract_def)
  from correct_kernels_are_installed [OF this, of demo_rng demo_env] demo_shani demo_rng_length
  show ?thesis by (simp add: demo_env_def)
qed

text \<open>C27. The 16-lane batch does not depend on the state the pool hands out: from any recycled state it returns
  the starter's digest of each seed, and the state it puts back can be used again.\<close>

theorem batch_ignores_recycled_state:
  assumes "asm16_ok asm" "x16_inv x" "length seeds \<le> 16"
  shows "\<exists>x' ys. x16ChainRun asm msk x seeds = Some (map naiveRiskChain seeds, x', ys) \<and> x16_inv x'"
  using x16ChainRun_naive [OF assms] .

lemma batch_ignores_recycled_state_witness:
  "\<exists>x' ys. x16ChainRun ref_asm 4095 x16New [''a'', ''b''] =
     Some ([naiveRiskChain ''a'', naiveRiskChain ''b''], x', ys)"
  using batch_ignores_recycled_state [of ref_asm x16New "[''a'', ''b'']" 4095] ref_asm_contract x16_inv_New
  by (auto simp: asm_contract_def)

text \<open>C28. Shedding never shows, whatever is in flight. At every moment of every run the 503s of \<open>/risk\<close> that clients have
  got, apart from the refusals that ask for no reservation (a full stack, a client that has gone), are within the
  budget's share of all the responses sent. And at each grant so are all the error responses sent and counted,
  which the 503s of \<open>/risk\<close> always are; only errors of other paths between their write and their count are not seen.\<close>

theorem visible_errors_within_budget:
  assumes "kernels_ok k" and s0: "s0 = service_init slots a l time"
    and a: "resp_counters a = \<lparr>respOK = 0, respErr = 0\<rparr>" and bp: "bp = initShedBudget gate budget"
    and run: "service_run F k bp es s0 = Some s"
  shows "(shed_responses s - run_total F k bp forced_refusal es s0) * 10000 \<le> int (length (responses s)) * bp \<and>
    (\<forall>i ch s'. service_exec F k bp (Step (Sub i ch)) s = Some s' \<longrightarrow>
       (\<exists>seed ctx. subs (gate_of s) ! i = SEnter seed ctx) \<or> (\<exists>t. subs (gate_of s) ! i = SWait t) \<longrightarrow>
       respErr (cnt (gate_of s')) \<noteq> respErr (cnt (gate_of s)) \<longrightarrow>
         (error_responses s' - in_flight_errors s') * 10000 \<le> int (length (responses s')) * bp \<and>
         shed_responses s' \<le> error_responses s' - in_flight_errors s')"
proof (intro conjI allI impI)
  note batch = kernels_ok_batch [OF assms(1)]
  show "(shed_responses s - run_total F k bp forced_refusal es s0) * 10000 \<le> int (length (responses s)) * bp"
    by (rule batch_kernels.sheds_within_budget [OF batch run s0 a bp])
  fix i ch s'
  assume step: "service_exec F k bp (Step (Sub i ch)) s = Some s'"
    and pc: "(\<exists>seed ctx. subs (gate_of s) ! i = SEnter seed ctx) \<or> (\<exists>t. subs (gate_of s) ! i = SWait t)"
    and grant: "respErr (cnt (gate_of s')) \<noteq> respErr (cnt (gate_of s))"
  have run': "service_run F k bp (es @ [Step (Sub i ch)]) s0 = Some s'"
    using run by (simp add: service_run_append step del: service_exec.simps)
  have "gate_exec k (initShedBudget gate budget) (Sub i ch) (gate_of s) = Some (gate_of s')"
    using step unfolding bp by (auto split: if_splits)
  from grant_within_budget [OF this pc grant]
  have "respErr (cnt (gate_of s')) * 10000 \<le> (respOK (cnt (gate_of s')) + respErr (cnt (gate_of s'))) * bp"
    unfolding shed.within_def bp by (rule conjunct2)
  from batch_kernels.grant_share [OF batch run' s0 a bp this]
  show "(error_responses s' - in_flight_errors s') * 10000 \<le> int (length (responses s')) * bp"
    and "shed_responses s' \<le> error_responses s' - in_flight_errors s'" by blast+
qed

lemma visible_errors_within_budget_witness:
  "\<exists>s s'. service_run int_float (portable_kernels [] (\<lambda>s. s \<le> 5000)) 88 demo_shed_run
      (service_init 1 demo_app demo_lat 0) = Some s \<and>
    service_exec int_float (portable_kernels [] (\<lambda>s. s \<le> 5000)) 88 (Step (Sub 1 (Go 500))) s = Some s' \<and>
    respErr (cnt (gate_of s')) = 1 \<and> uncounted s' = [(demo_health, counted 200)] \<and>
    (error_responses s' - in_flight_errors s') * 10000 \<le> int (length (responses s')) * 88"
proof -
  let ?k = "portable_kernels [] (\<lambda>s. s \<le> 5000)"
  have bp: "88 = initShedBudget [] []" by (simp add: initShedBudget_def gateBP_def sdiv_pos)
  have c: "resp_counters demo_app = \<lparr>respOK = 0, respErr = 0\<rparr>" by (simp add: demo_app_def)
  let ?s0 = "service_init 1 demo_app demo_lat 0"
  have h: "Path demo_health = ''/health''" by (simp add: demo_health_def)
  obtain a where "service_run int_float ?k 88 (healths 500 demo_health) ?s0 =
      Some (?s0\<lparr>app_of := a,
        gate_of := (gate_of ?s0)\<lparr>cnt := (cnt (gate_of ?s0))\<lparr>respOK := respOK (cnt (gate_of ?s0)) + int 500\<rparr>\<rparr>,
        responses := responses ?s0 @ replicate 500 (demo_health, 200, healthBody)\<rparr>)"
    using run_healths [of demo_health ?s0 int_float ?k 88 500] by (auto simp: h service_init_def)
  then have "\<exists>s. service_run int_float ?k 88 demo_shed_run ?s0 = Some s \<and>
      subs (gate_of s) = [SNotify, SEnter ''abc'' False] \<and> riskStackDepth (gate_of s) = 1 \<and>
      riskIdleWorkers (gate_of s) = 0 \<and> cnt (gate_of s) = \<lparr>respOK = 500, respErr = 0\<rparr> \<and>
      uncounted s = [(demo_health, counted 200)]"
    by (simp add: demo_shed_run_def service_run_append demo_risk_seed c service_init_def demo_simps h respond_health)
  then obtain s where s: "service_run int_float ?k 88 demo_shed_run ?s0 = Some s"
    and g: "subs (gate_of s) = [SNotify, SEnter ''abc'' False]" "riskStackDepth (gate_of s) = 1"
      "riskIdleWorkers (gate_of s) = 0" "cnt (gate_of s) = \<lparr>respOK = 500, respErr = 0\<rparr>"
      "uncounted s = [(demo_health, counted 200)]" by blast
  let ?s = "s\<lparr>gate_of := set_sub 1 (SReturn None) (charge 1 (gate_of s))\<rparr>"
  have step: "service_exec int_float ?k 88 (Step (Sub 1 (Go 500))) s = Some ?s"
    using g by (simp add: front_door_def riskStackBackstop_def shed_admit_def)
  have err: "respErr (cnt (gate_of ?s)) = 1" using g by (simp add: charge_def)
  note visible_errors_within_budget [OF demo_kernels_ok refl c bp s, THEN conjunct2, rule_format, OF step]
  then have "(error_responses ?s - in_flight_errors ?s) * 10000 \<le> int (length (responses ?s)) * 88"
    using err g by auto
  with s step err g show ?thesis by (intro exI [of _ s] exI [of _ ?s]) simp
qed

text \<open>C29. The batch floor: between 8 and 16 waiters, and below 16 it is large enough for a batch to beat
  the chains it displaces by a tenth: the batch takes less than nine tenths of the time of as many
  displaced chains.\<close>

theorem batch_floor_margin:
  assumes "0 \<le> batch" "16 \<le> displaced"
  shows "8 \<le> x16_min_batch batch displaced \<and> x16_min_batch batch displaced \<le> 16 \<and>
    (x16_min_batch batch displaced = 16 \<or>
     batch * 10 < x16_min_batch batch displaced * (displaced div 16) * 9)"
  using x16_min_batch_range [of batch displaced] x16_min_batch_margin [OF assms] by linarith

lemma batch_floor_margin_witness:
  "x16_min_batch 30000000 48000000 = 12 \<and> 30000000 * 10 < x16_min_batch 30000000 48000000 * (48000000 div 16) * 9"
proof -
  have "x16_min_batch 30000000 48000000 = 12"
    by (simp add: x16_min_batch_def sdiv_pos)
  then show ?thesis using batch_floor_margin [of 30000000 48000000] by simp
qed

text \<open>C30. The worker pool has between one and four slots, whatever the cgroup and the environment say; a
  valid \<open>RISK_SLOTS\<close> up to four is obeyed, and otherwise a budget of half a CPU or more is rounded.\<close>

theorem riskSlots_value:
  "1 \<le> riskSlots cpus env \<and> riskSlots cpus env \<le> 4 \<and>
   (\<forall>v \<in> {1..4}. go_atoi env = Some v \<longrightarrow> riskSlots cpus env = v) \<and>
   (go_atoi env = None \<longrightarrow> 1 / 2 \<le> cpus \<longrightarrow> riskSlots cpus env = min 4 (round cpus))"
proof -
  have "env \<noteq> ''''" if "go_atoi env = Some v" for v using that by (auto simp: go_atoi_def)
  moreover have "1 \<le> \<lfloor>cpus + 1 / 2\<rfloor>" if "1 / 2 \<le> cpus"
    using that by (simp add: le_floor_iff)
  ultimately show ?thesis
    by (auto simp: riskSlots_def Let_def cpuCap_def round_def split: option.split)
qed

lemma riskSlots_value_witness: "riskSlots (3 / 2) ''3'' = 3 \<and> riskSlots (3 / 2) '''' = 2"
proof -
  have "go_atoi ''3'' = Some 3" "go_atoi '''' = None" by code_simp+
  moreover have "round (3 / 2 :: rat) = 2" by (simp add: round_def floor_eq_iff)
  ultimately show ?thesis
    using riskSlots_value [of "3 / 2" "''3''"] riskSlots_value [of "3 / 2" "''''"] by simp
qed


section \<open>The raw HTTP front-end\<close>

text \<open>Inputs of the witnesses: a request for \<open>/health\<close>, a price write, a run of the gate that serves.\<close>

definition demo_submit :: "int submit" where
  "demo_submit seed s = (None, s)"

definition demo_post :: request where
  "demo_post = \<lparr>Method = ''POST'', Path = ''/price'', RawQuery = [],
     Body = marshal_entry int_float ''ABC'' 42\<rparr>"

lemma demo_submit_keeps: "submit_keeps demo_submit"
  by (simp add: submit_keeps_def demo_submit_def)

text \<open>C31. However the peer's bytes are cut into reads, a connection does what the same requests do on the
  plain byte stream: the head of a request ends at the first blank line of the stream if that is within the
  buffer, the body is the announced number of bytes, and the next request starts behind it. No slice that the loop
  takes, of the buffer, the head, the request line, a header line or the target, is ever out of range: the connection
  never ends in a panic.\<close>

theorem raw_connection_reads_the_stream:
  "serveRawConn F submit socket peer_fails s =
     stream_loop (raw_dispatch F submit) (stream socket) (raw_new peer_fails) s \<and>
   fst (serveRawConn F submit socket peer_fails s) \<noteq> Panicked"
  by (simp add: serveRawConn_stream stream_loop_no_panic)

text \<open>C32. A client that sends well-formed requests back to back, cut into reads in any way, and that frames
  what it gets by \<open>Content-Length\<close>, reads exactly one response per request, in order, with the status and body
  its handler produced, up to the first request that closes the connection; only that response says so.\<close>

theorem pipelined_requests_are_answered_in_order:
  assumes "\<forall>(q, hs, keep) \<in> set qs. request_wf q hs keep" "stream socket = pipeline qs"
    and run: "serve_all (answer_of F submit) qs s = (e, rs, s')"
    and len: "\<forall>(code, close, body) \<in> set rs. length body < 10 ^ 9"
  shows "\<exists>resp. serveRawConn F submit socket [] s = (e, resp, s') \<and>
    read_responses (length rs) (concat (sent resp)) =
      Some (map (\<lambda>(code, close, body). (nat code, \<not> close, body)) rs)"
proof -
  have serve: "serve (answer_of F submit) (stream socket) s = (e, rs, s')"
    using assms(1,2) run by (simp add: serve_pipeline)
  then obtain resp where resp: "serveRawConn F submit socket [] s = (e, resp, s')" "sent resp = map response_text rs"
    by (rule serveRawConn_serve)
  have "\<forall>(code, close, body) \<in> set rs. 100 \<le> code \<and> code \<le> 999 \<and> length body < 10 ^ 9"
    using len app_server.serve_codes [OF serve] by fastforce
  from read_responses_bytes [OF this] resp show ?thesis
    by (simp add: response_text_def [abs_def])
qed

lemma demo_health_answer:
  "fst (answer_of F submit demo_health s) = (200, healthBody)"
proof -
  have "dispatch_path F submit demo_health (Std std_new, s) = writeJSON 200 healthBody (Std std_new, s)"
    by (simp add: dispatch_path_def demo_health_def)
  from answer_of_writeJSON [OF this] show ?thesis by simp
qed

lemma demo_pipeline_wf:
  "request_wf demo_health [''Host: x''] True" "request_wf demo_health [''Connection: close''] False"
proof -
  have "header_line ''Host: x'' st = Inr st" for st
    by (simp add: header_line_eq asciiEqualFold_def Let_def)
  then show "request_wf demo_health [''Host: x''] True" "request_wf demo_health [''Connection: close''] False"
    by (simp_all add: request_wf_def demo_health_def plain_line_def header_line_close
        request_head_def target_of_def rawReadBufSize_def)
qed

lemma pipelined_requests_are_answered_in_order_witness:
  "\<exists>e resp s'. serveRawConn int_float demo_submit
      [(take 7 (pipeline [(demo_health, [''Host: x''], True), (demo_health, [''Connection: close''], False)]), False),
       (drop 7 (pipeline [(demo_health, [''Host: x''], True), (demo_health, [''Connection: close''], False)]), True)]
      [] (init_app int_float) = (e, resp, s') \<and>
    read_responses 2 (concat (sent resp)) = Some [(200, True, healthBody), (200, False, healthBody)]"
proof -
  let ?qs = "[(demo_health, [''Host: x''], True), (demo_health, [''Connection: close''], False)]"
  let ?A = "answer_of int_float demo_submit demo_health"
  obtain s1 where s1: "?A (init_app int_float) = ((200, healthBody), s1)"
    using demo_health_answer [of int_float demo_submit] by (metis prod.collapse)
  obtain s2 where s2: "?A s1 = ((200, healthBody), s2)"
    using demo_health_answer [of int_float demo_submit] by (metis prod.collapse)
  have run: "serve_all (answer_of int_float demo_submit) ?qs (init_app int_float) =
      (CloseRequested, [(200, False, healthBody), (200, True, healthBody)], s2)"
    by (simp add: s1 s2)
  have socket: "stream [(take 7 p, False), (drop 7 p, True)] = p" for p
    by simp
  have wf: "\<forall>(q, hs, keep) \<in> set ?qs. request_wf q hs keep"
    using demo_pipeline_wf by simp
  have len: "\<forall>(code, close, body) \<in> set [(200 :: int, False, healthBody), (200, True, healthBody)].
      length body < 10 ^ 9"
    by (simp add: healthBody_def json_key_def quoted_def)
  obtain resp where resp: "serveRawConn int_float demo_submit
      [(take 7 (pipeline ?qs), False), (drop 7 (pipeline ?qs), True)] [] (init_app int_float) =
        (CloseRequested, resp, s2)"
    "read_responses (length [(200 :: int, False, healthBody), (200, True, healthBody)]) (concat (sent resp)) =
      Some (map (\<lambda>(code, close, body). (nat code, \<not> close, body))
        [(200, False, healthBody), (200, True, healthBody)])"
    using pipelined_requests_are_answered_in_order [OF wf socket run len] by blast
  from resp(2) have "read_responses 2 (concat (sent resp)) = Some [(200, True, healthBody), (200, False, healthBody)]"
    by (simp add: numeral_2_eq_2 del: read_responses.simps)
  with resp(1) show ?thesis by blast
qed

text \<open>C33. A request with a defect (a head that does not fit the buffer, a request line that is not three words with
  two blanks around the target and a known version at the end, any \<open>Transfer-Encoding\<close>, a \<open>Content-Length\<close> that is not one to
  nine digits, a body above the limit, a body that does not arrive in full) closes the connection without a byte of
  response, and no counter or table changes. A request without one of these defects gets a response.\<close>

theorem defective_requests_close_silently:
  assumes "plain_line l" "\<forall>h \<in> set hs. plain_line h" "stream socket = join_lines (l # hs) @ crlf2 @ t"
  shows "(defective l hs t \<longrightarrow>
      (\<exists>e. e \<notin> {Panicked, WriteFailed, CloseRequested} \<and>
         serveRawConn F submit socket peer_fails s = (e, raw_new peer_fails, s))) \<and>
    (\<not> defective l hs t \<longrightarrow> sent (fst (snd (serveRawConn F submit socket peer_fails s))) \<noteq> [])"
proof (cases "stream_request (stream socket)")
  case (Inl e)
  then have "serveRawConn F submit socket peer_fails s = (e, raw_new peer_fails, s)"
    by (simp add: serveRawConn_stream stream_loop_rejected)
  with stream_request_end [OF Inl] Inl defective_iff [OF assms(1,2), of t] assms(3) show ?thesis by auto
next
  case (Inr r)
  obtain q ka t' where r: "r = (q, ka, t')" by (cases r)
  have "\<not> werr (raw_new peer_fails)" by (simp add: raw_new_def)
  from app_server.stream_loop_answers [OF Inr [unfolded r] this] Inr defective_iff [OF assms(1,2), of t] assms(3)
  show ?thesis by (simp add: serveRawConn_stream)
qed

lemma defective_requests_close_silently_witness:
  "(\<exists>e. serveRawConn int_float demo_submit
      [(''POST /price HTTP/1.1'' @ crlf, False), (''Transfer-Encoding: chunked'' @ crlf2, False)] [] (init_app int_float) =
    (e, raw_new [], init_app int_float)) \<and>
   \<not> defective ''GET /health HTTP/1.1'' [''Host: x''] []"
proof -
  let ?l = "''POST /price HTTP/1.1''" and ?h = "''Transfer-Encoding: chunked''"
  have "named ''transfer-encoding'' ?h"
    unfolding named_def
    by (intro exI [of _ "''Transfer-Encoding''"] exI [of _ "'' chunked''"]) (simp add: same_name_def upper_lower_def)
  then have "defective ?l [?h] []" by (simp add: defective_def bad_header_def)
  moreover have "plain_line ?l" "\<forall>h \<in> set [?h]. plain_line h"
    by (simp_all add: plain_line_def)
  ultimately have "\<exists>e. serveRawConn int_float demo_submit [(?l @ crlf, False), (?h @ crlf2, False)] [] (init_app int_float) =
      (e, raw_new [], init_app int_float)"
    using defective_requests_close_silently [of ?l "[?h]" "[(?l @ crlf, False), (?h @ crlf2, False)]" "[]"
        int_float demo_submit "[]" "init_app int_float"]
    by auto
  moreover have "\<not> defective ''GET /health HTTP/1.1'' [''Host: x''] []"
  proof -
    have "stream_request (request_text demo_health [''Host: x''] @ []) = Inr (demo_health, True, [])"
      by (intro stream_request_text demo_pipeline_wf)
    then show ?thesis
      using defective_iff [of "''GET /health HTTP/1.1''" "[''Host: x'']" "[]"]
      by (simp add: request_text_def request_head_def target_of_def demo_health_def plain_line_def)
  qed
  ultimately show ?thesis by blast
qed

text \<open>C34. On a query without a semicolon the shortcut \<open>symbolParam\<close> returns what the full parse of
  \<open>net/url\<close> returns.\<close>

theorem symbolParam_is_query_get:
  assumes "CHR '';'' \<notin> set query"
  shows "symbolParam query = query_get query ''symbol''"
  using assms by (rule symbolParam_query)

lemma symbolParam_is_query_get_witness:
  "symbolParam ''symbol=AAPL'' = query_get ''symbol=AAPL'' ''symbol''"
  by (rule symbolParam_is_query_get) simp

section \<open>Prices and their log\<close>

text \<open>C35. Whatever the log holds at boot, whatever requests follow and whichever writes to the log fail, the
  tables stay well formed: every price has its prebuilt response and the response is the one built from the
  price, every symbol is non-empty valid UTF-8, every price is finite, and every series has its 500 points.\<close>

theorem price_tables_stay_well_formed:
  assumes "float_contract F" "submit_keeps submit"
  shows "store_ok F (run_requests F submit qs (initPriceWAL F path disk faults (init_app F)))"
proof -
  have "store_ok F (run_requests F submit qs s)" if "store_ok F s" for s
    using that unfolding run_requests_def
    by (induction qs arbitrary: s) (auto simp: store_ok_answer [OF assms])
  then show ?thesis
    using store_ok_initPriceWAL [OF assms(1) store_ok_init [OF assms(1)]] by blast
qed

lemma price_tables_stay_well_formed_witness:
  "store_ok int_float (run_requests int_float demo_submit [demo_health, demo_post]
     (initPriceWAL int_float ''wal'' (Some (''{torn'', True)) [ShortWrite 3] (init_app int_float)))"
  by (rule price_tables_stay_well_formed [OF int_float_contract demo_submit_keeps])

text \<open>C36. Crash safety. Boot on a log whose last line is complete, serve any requests with a working disk, and
  crash anywhere, also in the middle of the append of a further price: everything acknowledged is durable at
  that moment, and the restart serves exactly the prices that were live; if the whole entry had reached the
  disk, with or without its line feed, exactly those and the new price.\<close>

theorem restart_restores_acknowledged_prices:
  assumes "float_contract F" "submit_keeps submit" "path \<noteq> []" "wal_clean data"
    and s: "s = run_requests F submit qs (initPriceWAL F path (Some (data, True)) [] (init_app F))"
    and f: "walFile s = Some f"
    and e: "ffinite F p" "valid_utf8 symb" "symb \<noteq> []"
  shows "wal_synced f = length (wal_data f) \<and>
    (\<forall>k < length (marshal_entry F symb p).
       same_prices (initPriceWAL F path (Some (wal_data f @ take k (marshal_entry F symb p), True)) [] (init_app F)) s) \<and>
    (\<forall>nl \<in> {[], [CHR 0x0A]}.
       same_prices (initPriceWAL F path (Some (wal_data f @ marshal_entry F symb p @ nl, True)) [] (init_app F))
         (set_price F symb p s))"
proof -
  have ok: "log_ok F (init_app F) s"
    unfolding s using assms(1-4) by (intro log_ok_run log_ok_boot)
  show ?thesis
    using ok f restart_same [OF assms(1) ok f assms(3) e(1)]
      restart_with_entry [OF assms(1) ok f assms(3) e]
    by (auto simp: log_ok_def)
qed

lemma demo_entry: "valid_utf8 ''ABC''" "(''ABC'' :: string) \<noteq> []" "ffinite int_float 42"
  by (simp_all add: int_float_def)

lemma demo_post_decoded: "decode_post int_float (Body demo_post) = Some (''ABC'', 42)"
  using decode_post_marshal [OF int_float_contract demo_entry(3,1,2)] by (simp add: demo_post_def)

lemma restart_restores_acknowledged_prices_witness:
  "\<exists>s f. s = run_requests int_float demo_submit [demo_post]
      (initPriceWAL int_float ''wal'' (Some ([], True)) [] (init_app int_float)) \<and> walFile s = Some f \<and>
    prices s ''ABC'' = Some 42 \<and>
    same_prices (initPriceWAL int_float ''wal''
      (Some (wal_data f @ take 5 (marshal_entry int_float ''ABC'' 42), True)) [] (init_app int_float)) s"
proof -
  let ?boot = "initPriceWAL int_float ''wal'' (Some ([], True)) [] (init_app int_float)"
  let ?s = "run_requests int_float demo_submit [demo_post] ?boot"
  have "log_ok int_float (init_app int_float) ?boot"
    by (rule log_ok_boot) (simp_all add: wal_clean_def)
  then obtain t where t: "appendWAL int_float ''ABC'' 42 ?boot = (True, t)"
      "log_ok int_float (init_app int_float) (set_price int_float ''ABC'' 42 t)"
    using log_ok_post [OF int_float_contract _ demo_entry] by blast
  have "answer_of int_float demo_submit demo_post ?boot =
      ((200, buildPriceResp int_float ''ABC'' 42),
       (set_price int_float ''ABC'' 42 t)\<lparr>resp_counters := count_response 200 (resp_counters t)\<rparr>)"
    by (rule post_accepted [OF _ demo_post_decoded t(1)]) (simp add: demo_post_def)
  then have s: "prices ?s ''ABC'' = Some 42" "walFile ?s = walFile t"
    by (simp_all add: run_requests_def set_price_def)
  obtain f where f: "walFile t = Some f"
    using t(2) by (auto simp: log_ok_def set_price_def)
  have "5 < length (marshal_entry int_float ''ABC'' 42)"
    by (simp add: marshal_entry_def demo_entry(3) json_key_def)
  with restart_restores_acknowledged_prices [OF int_float_contract demo_submit_keeps _ _ refl s(2) [unfolded f] demo_entry(3,1,2)]
  have "same_prices (initPriceWAL int_float ''wal''
      (Some (wal_data f @ take 5 (marshal_entry int_float ''ABC'' 42), True)) [] (init_app int_float)) ?s"
    by (simp add: wal_clean_def)
  with s f show ?thesis by auto
qed

text \<open>C37. A torn tail loses the next acknowledged price. If a crash leaves the beginning of an entry (even all of
  it but its line feed) at the end of the log, the restarted program appends the next accepted price to that line:
  it answers 200, the price is live and durable, and the restart after that does not know it. It serves what
  the log said before the torn entry.\<close>

theorem append_to_torn_tail_is_lost:
  assumes "float_contract F" "path \<noteq> []" "wal_clean data" "ffinite F x" "0 < k"
    and "Path q = ''/price''" "Method q = ''POST''" "decode_post F (Body q) = Some (symb, p)"
    and k: "k \<le> length (marshal_entry F a x)"
    and s1: "s1 = initPriceWAL F path (Some (data @ take k (marshal_entry F a x), True)) [] s0"
  shows "\<exists>s2 f. answer_of F submit q s1 = ((200, buildPriceResp F symb p), s2) \<and> prices s2 symb = Some p \<and>
    walFile s2 = Some f \<and> wal_synced f = length (wal_data f) \<and>
    same_prices (initPriceWAL F path (Some (wal_data f, True)) [] s0)
      (initPriceWAL F path (Some (data, True)) [] s0)"
proof -
  let ?torn = "data @ take k (marshal_entry F a x)"
  let ?line = "marshal_entry F symb p @ [CHR 0x0A]"
  let ?f = "\<lparr>wal_data = ?torn @ ?line, wal_synced = length (?torn @ ?line), wal_faults = []\<rparr>"
  have "appendWAL F symb p s1 = (True, s1\<lparr>walFile := Some ?f\<rparr>)"
    using assms(2) by (simp add: s1 initPriceWAL_replay appendWAL_def file_append_def Let_def)
  note answer = post_accepted [OF _ assms(8) this]
  have "replay F (wal_data ?f) s0 = replay F data s0"
    using replay_after_torn [OF assms(1,3,4) decode_post_ok(3) [OF assms(1,8)] assms(5)] by simp
  then have "same_prices (initPriceWAL F path (Some (wal_data ?f, True)) [] s0)
      (initPriceWAL F path (Some (data, True)) [] s0)"
    using assms(2) by (simp add: initPriceWAL_replay same_prices_def)
  with answer assms(6,7) show ?thesis
    by (intro exI [of _ ?f] exI [of _ "(set_price F symb p (s1\<lparr>walFile := Some ?f\<rparr>))
      \<lparr>resp_counters := count_response 200 (resp_counters s1)\<rparr>"]) (simp add: set_price_def)
qed

lemma append_to_torn_tail_is_lost_witness:
  "\<exists>s2 f. answer_of int_float demo_submit demo_post
      (initPriceWAL int_float ''wal'' (Some (take 9 (marshal_entry int_float ''XYZ'' 7), True)) [] (init_app int_float)) =
      ((200, buildPriceResp int_float ''ABC'' 42), s2) \<and>
    walFile s2 = Some f \<and> prices s2 ''ABC'' = Some 42 \<and>
    same_prices (initPriceWAL int_float ''wal'' (Some (wal_data f, True)) [] (init_app int_float))
      (initPriceWAL int_float ''wal'' (Some ([], True)) [] (init_app int_float))"
proof -
  have "9 \<le> length (marshal_entry int_float ''XYZ'' 7)"
    by (simp add: marshal_entry_def int_float_def json_key_def)
  from append_to_torn_tail_is_lost [OF int_float_contract _ _ _ _ _ _ demo_post_decoded this refl,
      where path = "''wal''" and data = "[]" and ?s0.0 = "init_app int_float" and submit = demo_submit]
  show ?thesis by (auto simp: wal_clean_def int_float_def demo_post_def)
qed

text \<open>C38. The outcome of a price write, on every branch: 400 when the body is not an object with a symbol and
  a price in range, and nothing changes but the error counter; 500 when the log cannot be written, and no table changes; 200 only
  once the entry is appended and, with the log on, every byte of the log is durable, and then exactly that price and its
  response are replaced.\<close>

theorem price_write_outcomes:
  assumes "Path q = ''/price''" "Method q = ''POST''" "answer_of F submit q s = ((code, body), s')"
  shows "(code = 400 \<and> decode_post F (Body q) = None \<and> walFile s' = walFile s \<and> same_prices s' s) \<or>
    (\<exists>symb p. decode_post F (Body q) = Some (symb, p) \<and>
       (code = 500 \<and> same_prices s' s \<and> walFile s \<noteq> None \<and> respErr (resp_counters s') = respErr (resp_counters s) + 1 \<or>
        code = 200 \<and> body = buildPriceResp F symb p \<and> same_prices s' (set_price F symb p s) \<and>
        (\<forall>f. walFile s = Some f \<longrightarrow>
           (\<exists>f'. walFile s' = Some f' \<and> wal_data f' = wal_data f @ marshal_entry F symb p @ [CHR 0x0A] \<and>
              wal_synced f' = length (wal_data f')))))"
proof (cases "decode_post F (Body q)")
  case None
  with assms show ?thesis by (auto simp: post_rejected same_prices_def)
next
  case (Some e)
  obtain symb p where e: "e = (symb, p)" by (cases e)
  obtain ok t where ap: "appendWAL F symb p s = (ok, t)" by (metis surj_pair)
  note kept = appendWAL_tables [OF ap]
  show ?thesis
  proof (cases ok)
    case True
    have "\<forall>f. walFile s = Some f \<longrightarrow> (\<exists>f'. walFile t = Some f' \<and>
        wal_data f' = wal_data f @ marshal_entry F symb p @ [CHR 0x0A] \<and> wal_synced f' = length (wal_data f'))"
      using appendWAL_durable [of F symb p s t] ap True by simp
    moreover have "answer_of F submit q s = ((200, buildPriceResp F symb p),
        (set_price F symb p t)\<lparr>resp_counters := count_response 200 (resp_counters t)\<rparr>)"
      using assms(1,2) Some e ap True by (intro post_accepted) simp_all
    ultimately show ?thesis
      using Some e kept assms(3) by (simp add: same_prices_def set_price_def)
  next
    case False
    have "answer_of F submit q s = ((500, error_body ''persistence failure''),
        t\<lparr>resp_counters := count_response 500 (resp_counters t)\<rparr>)"
      using assms(1,2) Some e ap False by (intro post_not_durable) simp_all
    moreover have "walFile s \<noteq> None"
      using ap False by (cases "walFile s") (simp_all add: appendWAL_def)
    ultimately show ?thesis
      using Some e kept assms(3) by (auto simp: same_prices_def count_response_def)
  qed
qed

lemma price_write_outcomes_witness:
  "\<exists>s'. answer_of int_float demo_submit \<lparr>Method = ''POST'', Path = ''/price'', RawQuery = [], Body = ''{}''\<rparr>
     (init_app int_float) = ((400, error_body ''symbol and numeric price required''), s') \<and>
     same_prices s' (init_app int_float)"
proof -
  let ?q = "\<lparr>Method = ''POST'', Path = ''/price'', RawQuery = [], Body = ''{}''\<rparr>"
  have d: "decode_post int_float ''{}'' = None"
    by (simp add: decode_post_def json_first_def begin_value_def push_def maxNestingDepth_def
        is_json_space_def after_value_def finish_def jvalue_def decode_entry_def)
  then have a: "answer_of int_float demo_submit ?q (init_app int_float) =
      ((400, error_body ''symbol and numeric price required''),
       (init_app int_float)\<lparr>resp_counters := count_response 400 (resp_counters (init_app int_float))\<rparr>)"
    by (simp add: post_rejected)
  from price_write_outcomes [OF _ _ this] d show ?thesis
    unfolding a by auto
qed

section \<open>Statistics and risk\<close>

text \<open>C39. The contract, endpoint by endpoint: as long as no price has been posted, the answer to a request to
  \<open>/health\<close>, \<open>/price\<close> (not POST), \<open>/stats\<close> or an admitted \<open>/risk\<close>, with a query without semicolon, has the
  starter's status (200, or 404 for an unknown symbol) and a body that is a JSON object with the same members as the
  starter's body: the same strings, and numbers that parse to the same float, although the bodies are built by hand, in
  another order and number format, and without the starter's line feed.\<close>

theorem answers_match_the_starter:
  assumes "float_contract F" "\<forall>symb xs. starter_series F symb = Some xs \<longrightarrow> stats_finite F xs"
    and "Path q \<in> {''/health'', ''/price'', ''/stats'', ''/risk''}" "Path q = ''/price'' \<longrightarrow> Method q \<noteq> ''POST''"
    and "CHR '';'' \<notin> set (RawQuery q)"
    and "priceResp s = priceResp (init_app F)" "series s = series (init_app F)"
    and "Path q = ''/risk'' \<longrightarrow> submit (risk_seed q) s = (Some (naiveRiskChain (risk_seed q)), t)"
  shows "\<exists>w code body s'. starter_serve F q = Some w \<and> answer_of F submit q s = ((code, body), s') \<and>
    std_code w = Some code \<and> json_object F body \<noteq> None \<and> json_object F (std_body w) = json_object F body"
proof -
  obtain w where "starter_serve F q = Some w" "agrees F (fst (answer_of F submit q s)) w"
    using agrees_request [of F q s submit t] assms by blast
  then show ?thesis by (cases "answer_of F submit q s") (auto simp: agrees_def)
qed

lemma answers_match_the_starter_witness:
  "\<exists>w code body s'. starter_serve int_float \<lparr>Method = ''GET'', Path = ''/price'', RawQuery = ''symbol=AAPL'', Body = []\<rparr> = Some w \<and>
     answer_of int_float demo_submit \<lparr>Method = ''GET'', Path = ''/price'', RawQuery = ''symbol=AAPL'', Body = []\<rparr>
       (init_app int_float) = ((code, body), s') \<and>
     json_object int_float (std_body w) = json_object int_float body"
  using answers_match_the_starter [OF int_float_contract, of "\<lparr>Method = ''GET'', Path = ''/price'',
      RawQuery = ''symbol=AAPL'', Body = []\<rparr>" "init_app int_float" demo_submit] demo_finite by auto

text \<open>C40. \<open>/risk\<close> end to end. In any run of the admission gate, the response to the \<open>i\<close>-th request is 503 if the
  gate refused it, with no second charge to the error counter, and otherwise 200 with a JSON object of exactly two members: the
  seed of the query (\<open>none\<close> when absent; bytes that are not UTF-8 replaced) and the starter's digest of that
  seed.\<close>

theorem risk_responses_carry_the_digest:
  assumes "kernels_ok k" "gate_runs k bp (gate_init slots c l time) es g"
    and "i < length (subs g)" "subs g ! i = SReturn res" "arrivals es ! i = risk_seed q"
    and "Path q = ''/risk''" "submit (risk_seed q) s = (res, t)"
  shows "(res = None \<and> answer_of F submit q s = ((503, overloadedBody), t)) \<or>
    (\<exists>body t'. answer_of F submit q s = ((200, body), t') \<and>
       respOK (resp_counters t') = respOK (resp_counters t) + 1 \<and>
       json_whole body =
         Some (JObj [(''seed'', JStr (unquote (escape (risk_seed q)))),
                     (''risk_hash'', JStr (naiveRiskChain (risk_seed q)))]))"
proof (cases res)
  case None
  with risk_answer [of q submit s res t F] assms(6,7) show ?thesis by simp
next
  case (Some d)
  have d: "d = naiveRiskChain (risk_seed q)"
    using batch_kernels.answers [OF kernels_ok_batch [OF assms(1)] assms(2,3)] assms(4,5) Some by simp
  have "json_whole (risk_body (risk_seed q) d) =
      Some (JObj [(''seed'', JStr (unquote (escape (risk_seed q)))), (''risk_hash'', JStr d)])"
    unfolding d by (rule json_whole_risk_body [OF naive_digest_plain])
  with risk_answer [of q submit s res t F] assms(6,7) Some d show ?thesis
    by (simp add: count_response_def)
qed

lemma risk_responses_carry_the_digest_witness:
  "\<exists>body t'. answer_of int_float (\<lambda>seed s. (Some (naiveRiskChain seed), s))
      \<lparr>Method = ''GET'', Path = ''/risk'', RawQuery = ''seed=abc'', Body = []\<rparr> (init_app int_float) =
        ((200, body), t') \<and>
     json_whole body = Some (JObj [(''seed'', JStr ''abc''), (''risk_hash'', JStr (naiveRiskChain ''abc''))])"
proof -
  let ?q = "\<lparr>Method = ''GET'', Path = ''/risk'', RawQuery = ''seed=abc'', Body = []\<rparr>"
  let ?k = "portable_kernels '''' (\<lambda>s. s \<le> 5000)"
  obtain g where g: "gate_runs ?k 88 demo_gate demo_run g" "length (subs g) = 1"
      "subs g ! 0 = SReturn (Some (fst (riskChain ?k ''abc'')))"
    using demo_run_served by blast
  have "query_get ''seed=abc'' ''seed'' = ''abc''"
    using query_pair_plain [of "''seed''" "''abc''"] by (simp add: query_get_def parse_query_single)
  then have seed: "risk_seed ?q = ''abc''" by (simp add: risk_seed_def)
  have digest: "fst (riskChain ?k ''abc'') = naiveRiskChain ''abc''"
    using demo_kernels_ok by (simp add: kernels_ok_def riskChain_naive)
  have "unquote (escape ''abc'') = ''abc''"
    by (intro unquote_escape_valid) simp
  with risk_responses_carry_the_digest [OF demo_kernels_ok g(1) [unfolded demo_gate_def], of 0
      "Some (naiveRiskChain ''abc'')" ?q "\<lambda>seed s. (Some (naiveRiskChain seed), s)" "init_app int_float"
      "init_app int_float" int_float] g seed digest
  show ?thesis by (auto simp: demo_run_def)
qed

end
